(* ===== verification/Prelude.thy ===== *)
theory Prelude
  imports Main "HOL-Library.Word" "HOL-Library.Monad_Syntax"
begin

text \<open>
  Shared vocabulary of the development: machine integers, C arrays with bounds-checked
  access, the C heap as a partial map from addresses to nodes, reader/writer locks, and the
  theory of singly linked lists in such a heap.

  Code that can fault (a NULL or dangling dereference, an index outside an array, a lock that
  can never be granted to the only running thread) or that can loop forever has a result of
  type \<open>'a option\<close>; \<^term>\<open>None\<close> stands for the fault or the missing result.
  A theorem that an operation works is therefore always of the form \<open>op \<dots> = Some \<dots>\<close>.
\<close>

section \<open>Machine integers and addresses\<close>

type_synonym u8 = "8 word"
type_synonym u16 = "16 word"
type_synonym u32 = "32 word"
type_synonym u64 = "64 word"

text \<open>A C pointer: \<^term>\<open>None\<close> is \<open>NULL\<close>.\<close>

type_synonym addr = nat
type_synonym ptr = "addr option"

named_theorems heap_simps \<open>list segments under heap updates\<close>
named_theorems lock_simps \<open>reader/writer lock transitions\<close>

lemma bind_Some_iff [simp]: "(Option.bind x f = Some y) = (\<exists>z. x = Some z \<and> f z = Some y)"
  by (cases x) auto

section \<open>C arrays\<close>

text \<open>
  An array is a list; an index is a C \<open>int\<close>. Reading or writing outside the array is a fault.
\<close>

definition arr_get :: "'a list \<Rightarrow> int \<Rightarrow> 'a option" where
  "arr_get xs i = (if 0 \<le> i \<and> i < int (length xs) then Some (xs ! nat i) else None)"

definition arr_upd :: "'a list \<Rightarrow> int \<Rightarrow> ('a \<Rightarrow> 'a) \<Rightarrow> 'a list option" where
  "arr_upd xs i f =
     (if 0 \<le> i \<and> i < int (length xs) then Some (xs[nat i := f (xs ! nat i)]) else None)"

lemma arr_get_Some [simp]: "0 \<le> i \<Longrightarrow> i < int (length xs) \<Longrightarrow> arr_get xs i = Some (xs ! nat i)"
  by (simp add: arr_get_def)

lemma arr_upd_Some [simp]:
  "0 \<le> i \<Longrightarrow> i < int (length xs) \<Longrightarrow> arr_upd xs i f = Some (xs[nat i := f (xs ! nat i)])"
  by (simp add: arr_upd_def)

lemma arr_get_eq_Some:
  "(arr_get xs i = Some x) = (0 \<le> i \<and> i < int (length xs) \<and> x = xs ! nat i)"
  by (auto simp: arr_get_def)

section \<open>Statements\<close>

text \<open>A statement under a condition, and a loop over a list of values.\<close>

definition when_do :: "bool \<Rightarrow> ('s \<Rightarrow> 's option) \<Rightarrow> 's \<Rightarrow> 's option" where
  "when_do b f s = (if b then f s else Some s)"

primrec foldm :: "('a \<Rightarrow> 's \<Rightarrow> 's option) \<Rightarrow> 'a list \<Rightarrow> 's \<Rightarrow> 's option" where
  "foldm f [] s = Some s"
| "foldm f (x # xs) s = do { s \<leftarrow> f x s; foldm f xs s }"

lemma when_do_simps [simp]: "when_do True f s = f s" "when_do False f s = Some s"
  by (simp_all add: when_do_def)

lemma foldm_append: "foldm f (xs @ ys) s = Option.bind (foldm f xs s) (foldm f ys)"
  by (induction xs arbitrary: s) (auto simp: Option.bind_assoc)

section \<open>Lists\<close>

lemma take_update_snoc:
  "n < length xs \<Longrightarrow> take (Suc n) (xs[n := x]) = take n xs @ [x]"
  by (simp add: take_Suc_conv_app_nth)

lemma take_update_last:
  "0 < n \<Longrightarrow> n \<le> length xs \<Longrightarrow>
   take n (xs[n - 1 := x]) = butlast (take n xs) @ [x]"
  by (cases n) (simp_all add: take_Suc_conv_app_nth butlast_append)

lemma last_take_nth: "0 < n \<Longrightarrow> n \<le> length xs \<Longrightarrow> last (take n xs) = xs ! (n - 1)"
  by (subst last_conv_nth) auto

lemma find_Some_in: "find P xs = Some x \<Longrightarrow> x \<in> set xs \<and> P x"
  by (auto simp: find_Some_iff)

lemma find_None_all: "(find P xs = None) = (\<forall>x \<in> set xs. \<not> P x)"
  by (auto simp: find_None_iff)

lemma find_unique:
  assumes "x \<in> set xs" and "P x" and "\<forall>y \<in> set xs. P y \<longrightarrow> y = x"
  shows "find P xs = Some x"
proof (cases "find P xs")
  case None
  with assms(1,2) show ?thesis by (simp add: find_None_all)
next
  case (Some y)
  with assms(3) find_Some_in [OF Some] show ?thesis by simp
qed

section \<open>Reader/writer locks\<close>

text \<open>
  A \<open>pthread_rwlock_t\<close>. Acquiring a lock that is held in a conflicting mode blocks: with one
  running thread it never returns, hence \<^term>\<open>None\<close>. Releasing a free lock is undefined.
\<close>

datatype rwlock = Unlocked | RdLocked nat | WrLocked

fun rdlock :: "rwlock \<Rightarrow> rwlock option" where
  "rdlock Unlocked = Some (RdLocked 1)"
| "rdlock (RdLocked n) = Some (RdLocked (Suc n))"
| "rdlock WrLocked = None"

fun wrlock :: "rwlock \<Rightarrow> rwlock option" where
  "wrlock Unlocked = Some WrLocked"
| "wrlock (RdLocked n) = None"
| "wrlock WrLocked = None"

fun unlock :: "rwlock \<Rightarrow> rwlock option" where
  "unlock Unlocked = None"
| "unlock (RdLocked n) = Some (if n \<le> 1 then Unlocked else RdLocked (n - 1))"
| "unlock WrLocked = Some Unlocked"

section \<open>Linked lists in the heap\<close>

text \<open>
  \<open>lseg nxt hp p as q\<close>: following the link field \<open>nxt\<close> from \<open>p\<close> visits exactly the nodes
  \<open>as\<close>, all of them allocated, and then reaches \<open>q\<close>. \<open>addrs\<close> collects that list.
\<close>

primrec lseg :: "('n \<Rightarrow> ptr) \<Rightarrow> (addr \<rightharpoonup> 'n) \<Rightarrow> ptr \<Rightarrow> addr list \<Rightarrow> ptr \<Rightarrow> bool" where
  "lseg nxt hp p [] q = (p = q)"
| "lseg nxt hp p (a # as) q = (p = Some a \<and> (\<exists>n. hp a = Some n \<and> lseg nxt hp (nxt n) as q))"

partial_function (option) addrs :: "('n \<Rightarrow> ptr) \<Rightarrow> (addr \<rightharpoonup> 'n) \<Rightarrow> ptr \<Rightarrow> addr list option" where
  "addrs nxt hp p =
     (case p of
        None \<Rightarrow> Some []
      | Some a \<Rightarrow> do { n \<leftarrow> hp a; as \<leftarrow> addrs nxt hp (nxt n); Some (a # as) })"

lemma lseg_append:
  "lseg nxt hp p (as @ bs) q = (\<exists>r. lseg nxt hp p as r \<and> lseg nxt hp r bs q)"
  by (induction as arbitrary: p) auto

lemma lseg_alloc: "lseg nxt hp p as q \<Longrightarrow> a \<in> set as \<Longrightarrow> \<exists>n. hp a = Some n"
  by (induction as arbitrary: p) auto

lemma lseg_functional:
  "lseg nxt hp p as None \<Longrightarrow> lseg nxt hp p bs None \<Longrightarrow> as = bs"
proof (induction as arbitrary: p bs)
  case Nil
  then show ?case by (cases bs) auto
next
  case (Cons a as)
  then show ?case by (cases bs) auto
qed

lemma lseg_distinct: "lseg nxt hp p as None \<Longrightarrow> distinct as"
proof (induction as arbitrary: p)
  case (Cons a as)
  have "a \<notin> set as"
  proof
    assume "a \<in> set as"
    then obtain xs ys where as: "as = xs @ a # ys" by (auto simp: in_set_conv_decomp)
    from Cons.prems obtain n where n: "hp a = Some n" "lseg nxt hp (nxt n) as None" by auto
    with as have "lseg nxt hp (nxt n) ys None" by (auto simp: lseg_append)
    with n have "as = ys" by (blast intro: lseg_functional)
    with as show False by simp
  qed
  with Cons show ?case by auto
qed simp

lemma lseg_other [heap_simps]:
  "a \<notin> set as \<Longrightarrow> lseg nxt (hp(a := n)) p as q = lseg nxt hp p as q"
  by (induction as arbitrary: p) auto

lemma lseg_same_link:
  assumes "hp a = Some n0" and "nxt n = nxt n0"
  shows "lseg nxt (hp(a \<mapsto> n)) p as q = lseg nxt hp p as q"
  using assms by (induction as arbitrary: p) auto

lemma lseg_cong:
  "(\<And>a. a \<in> set as \<Longrightarrow> hp' a = hp a) \<Longrightarrow> lseg nxt hp' p as q = lseg nxt hp p as q"
  by (induction as arbitrary: p) auto

lemma lseg_proj:
  "(\<And>a. a \<in> set as \<Longrightarrow> map_option nxt (hp' a) = map_option nxt (hp a)) \<Longrightarrow>
   lseg nxt hp' p as q = lseg nxt hp p as q"
proof (induction as arbitrary: p)
  case (Cons a as)
  from Cons.prems have "lseg nxt hp' p as q = lseg nxt hp p as q" for p by (intro Cons.IH) auto
  with Cons.prems [of a] show ?case by (cases "hp a"; cases "hp' a") auto
qed simp

lemma lseg_addrs: "lseg nxt hp p as None \<Longrightarrow> addrs nxt hp p = Some as"
proof (induction as arbitrary: p)
  case Nil
  then show ?case by (simp add: addrs.simps)
next
  case (Cons a as)
  then obtain n where "p = Some a" "hp a = Some n" "lseg nxt hp (nxt n) as None" by auto
  with Cons.IH [of "nxt n"] show ?case by (simp add: addrs.simps [of nxt hp "Some a"])
qed

lemma addrs_None [simp]: "addrs nxt hp None = Some []"
  by (simp add: addrs.simps)

lemma addrs_Some:
  "addrs nxt hp (Some a) = do { n \<leftarrow> hp a; as \<leftarrow> addrs nxt hp (nxt n); Some (a # as) }"
  by (subst addrs.simps) simp

lemma addrs_lseg: "addrs nxt hp p = Some as \<Longrightarrow> lseg nxt hp p as None"
proof (induction as arbitrary: p)
  case Nil
  then show ?case by (cases p) (auto simp: addrs_Some)
next
  case (Cons a as)
  then show ?case by (cases p) (auto simp: addrs_Some)
qed

lemma addrs_eq_lseg: "(addrs nxt hp p = Some as) = lseg nxt hp p as None"
  by (blast intro: lseg_addrs addrs_lseg)

text \<open>
  A node type whose link can be rewritten. The laws are what the unlink and relink steps of
  every list in the program use; each component interprets the locale on its own records.
\<close>

locale linked_node =
  fixes nxt :: "'n \<Rightarrow> ptr"
    and set_nxt :: "ptr \<Rightarrow> 'n \<Rightarrow> 'n"
  assumes nxt_set_nxt [simp]: "nxt (set_nxt p n) = p"
begin

lemma lseg_unlink:
  assumes seg: "lseg nxt hp p (xs @ x # a # ys) q"
    and dist: "distinct (xs @ x # a # ys)"
    and nx: "hp x = Some nx" and na: "hp a = Some na"
  shows "lseg nxt (hp(x \<mapsto> set_nxt (nxt na) nx)) p (xs @ x # ys) q"
proof -
  from seg na have "lseg nxt hp p xs (Some x)" and ys: "lseg nxt hp (nxt na) ys q"
    by (auto simp: lseg_append)
  moreover from dist have "x \<notin> set xs" "x \<notin> set ys" by auto
  ultimately show ?thesis by (simp add: lseg_append heap_simps)
qed

lemma lseg_push:
  assumes "lseg nxt hp p xs q" and "a \<notin> set xs"
  shows "lseg nxt (hp(a \<mapsto> set_nxt p n)) (Some a) (a # xs) q"
  using assms by (simp add: heap_simps)

lemma lseg_snoc:
  assumes seg: "lseg nxt hp p (xs @ [x]) None" and nx: "hp x = Some nx"
    and a: "a \<notin> set (xs @ [x])" and stop: "nxt na = None"
  shows "lseg nxt (hp(a \<mapsto> na, x \<mapsto> set_nxt (Some a) nx)) p (xs @ [x, a]) None"
proof -
  from seg have "distinct (xs @ [x])" by (rule lseg_distinct)
  then have x: "x \<notin> set xs" by auto
  from seg have "lseg nxt hp p xs (Some x)" by (auto simp: lseg_append)
  with x a stop show ?thesis by (simp add: lseg_append heap_simps)
qed

end

end
