(* ===== verification/PageVersionMap.thy ===== *)
theory PageVersionMap
  imports Prelude
begin

unbundle bit_operations_syntax

text \<open>
  The page version map of the storage node
  (\<open>backend/access/logindex/logindex_hashmap.cpp\<close>): a chained hash table from a page or
  relation key to the ordered list of the LSNs of the WAL records that changed it. A bucket is
  a linked list of head nodes; a head node holds the first LSNs of its key and links to element
  nodes that hold the rest. Nodes live in two heaps, one per C struct.
\<close>

section \<open>Data\<close>

abbreviation HASH_HEAD_NUM :: int where "HASH_HEAD_NUM \<equiv> 15"
abbreviation HASH_ELEM_NUM :: int where "HASH_ELEM_NUM \<equiv> 30"

record KeyType =
  SpcID :: u64
  DbID :: u64
  RelID :: u64
  ForkNum :: u32
  BlkNum :: u64 \<comment> \<open>an \<open>int64_t\<close>; all ones is the relation key \<open>-1\<close>\<close>

record LsnEntry =
  lsn :: u64
  pageNum :: u32 \<comment> \<open>an \<open>int\<close>, only stored and returned\<close>

record timeval =
  tv_sec :: int
  tv_usec :: int

record HashBucket =
  bucketLock :: rwlock
  replayLock :: bool
  lastReplayTime :: timeval
  nodeList :: ptr

record HashNodeHead =
  key :: KeyType
  hashValue :: u32
  bucket :: nat \<comment> \<open>index of the bucket the C field points to\<close>
  headLock :: rwlock
  lsnEntry :: "LsnEntry list"
  maxLsn :: u64
  entryNum :: int
  replayedLsn :: u64
  nextHead :: ptr
  prevHead :: ptr
  nextEle :: ptr
  tailEle :: ptr
  finishVacuumTime :: timeval

record HashNodeEle =
  e_maxLsn :: u64
  e_entryNum :: int
  e_lsnEntry :: "LsnEntry list"
  e_nextEle :: ptr
  e_prevEle :: ptr

record HashMap =
  bucketList :: "HashBucket list"
  bucketNum :: u32
  heads :: "addr \<rightharpoonup> HashNodeHead"
  eles :: "addr \<rightharpoonup> HashNodeEle"

text \<open>
  What \<open>malloc\<close> hands out: an address, and the unknown contents of the array of the new node.
\<close>

record malloc_block =
  blk_addr :: addr
  blk_uninit :: "nat \<Rightarrow> LsnEntry"

section \<open>Searching a sorted array of entries\<close>

partial_function (option)
  LsnListFindLowerBound_loop :: "u64 \<Rightarrow> LsnEntry list \<Rightarrow> int \<Rightarrow> int \<Rightarrow> int option" where
  "LsnListFindLowerBound_loop targetLsn entryList largeSide smallSide =
     (if largeSide = smallSide then Some largeSide
      else do {
        let mid = (largeSide + smallSide + 1) div 2;
        e \<leftarrow> arr_get entryList mid;
        (if lsn e = targetLsn
         then LsnListFindLowerBound_loop targetLsn entryList mid mid
         else if targetLsn < lsn e
         then LsnListFindLowerBound_loop targetLsn entryList (mid - 1) smallSide
         else LsnListFindLowerBound_loop targetLsn entryList largeSide mid)
      })"

definition LsnListFindLowerBound :: "u64 \<Rightarrow> LsnEntry list \<Rightarrow> int \<Rightarrow> int option" where
  "LsnListFindLowerBound targetLsn entryList listSize =
     (if listSize = 0 then Some (- 1)
      else do {
        i \<leftarrow> LsnListFindLowerBound_loop targetLsn entryList (listSize - 1) 0;
        e \<leftarrow> arr_get entryList i;
        Some (if targetLsn < lsn e then - 1 else i)
      })"

section \<open>Hashing and the head list of a bucket\<close>

text \<open>\<open>bucketNum\<close> is a C \<open>int\<close>: the initialisation loop does nothing for a negative one.\<close>

definition HashMapInit :: "u32 \<Rightarrow> HashMap" where
  "HashMapInit n =
     \<lparr>bucketList = replicate (nat (sint n))
        \<lparr>bucketLock = Unlocked, replayLock = False,
         lastReplayTime = \<lparr>tv_sec = 0, tv_usec = 0\<rparr>, nodeList = None\<rparr>,
      bucketNum = n, heads = Map.empty, eles = Map.empty\<rparr>"

definition HashKey :: "KeyType \<Rightarrow> u32" where
  "HashKey k =
     (let res = 0;
          res = res + ucast ((SpcID k AND 0xFF) * 13 + 7);
          res = res + ucast ((DbID k AND 0xFF) * 17 + 5);
          res = res + ucast ((RelID k AND 0xFF) * 11 + 7);
          res = res + ((ForkNum k AND 0xFF) * 3 + 29)
      in if BlkNum k \<noteq> - 1 then res + ucast ((BlkNum k AND 0xFF) * 7 + 11) else res)"

definition KeyMatch :: "KeyType \<Rightarrow> KeyType \<Rightarrow> bool" where
  "KeyMatch key1 key2 \<longleftrightarrow>
     SpcID key1 = SpcID key2 \<and> DbID key1 = DbID key2 \<and> RelID key1 = RelID key2 \<and>
     ForkNum key1 = ForkNum key2 \<and> BlkNum key1 = BlkNum key2"

text \<open>\<open>hashValue % hashMap->bucketNum\<close>: dividing by zero is a fault.\<close>

definition bucketPos :: "HashMap \<Rightarrow> KeyType \<Rightarrow> nat option" where
  "bucketPos m k = (if bucketNum m = 0 then None else Some (unat (HashKey k mod bucketNum m)))"

definition get_bucket :: "HashMap \<Rightarrow> nat \<Rightarrow> HashBucket option" where
  "get_bucket m pos = arr_get (bucketList m) (int pos)"

definition upd_bucket :: "nat \<Rightarrow> (HashBucket \<Rightarrow> HashBucket) \<Rightarrow> HashMap \<Rightarrow> HashMap option" where
  "upd_bucket pos f m =
     do { bs \<leftarrow> arr_upd (bucketList m) (int pos) f; Some (m\<lparr>bucketList := bs\<rparr>) }"

definition upd_head :: "addr \<Rightarrow> (HashNodeHead \<Rightarrow> HashNodeHead) \<Rightarrow> HashMap \<Rightarrow> HashMap option" where
  "upd_head a f m = do { h \<leftarrow> heads m a; Some (m\<lparr>heads := (heads m)(a \<mapsto> f h)\<rparr>) }"

definition upd_ele :: "addr \<Rightarrow> (HashNodeEle \<Rightarrow> HashNodeEle) \<Rightarrow> HashMap \<Rightarrow> HashMap option" where
  "upd_ele a f m = do { e \<leftarrow> eles m a; Some (m\<lparr>eles := (eles m)(a \<mapsto> f e)\<rparr>) }"

definition lock_bucket :: "(rwlock \<Rightarrow> rwlock option) \<Rightarrow> nat \<Rightarrow> HashMap \<Rightarrow> HashMap option" where
  "lock_bucket f pos m =
     do { b \<leftarrow> get_bucket m pos; l \<leftarrow> f (bucketLock b);
          upd_bucket pos (\<lambda>b. b\<lparr>bucketLock := l\<rparr>) m }"

definition lock_head :: "(rwlock \<Rightarrow> rwlock option) \<Rightarrow> addr \<Rightarrow> HashMap \<Rightarrow> HashMap option" where
  "lock_head f a m =
     do { h \<leftarrow> heads m a; l \<leftarrow> f (headLock h); upd_head a (\<lambda>h. h\<lparr>headLock := l\<rparr>) m }"

text \<open>The search loop every operation starts with.\<close>

partial_function (option)
  find_head :: "(addr \<rightharpoonup> HashNodeHead) \<Rightarrow> u32 \<Rightarrow> KeyType \<Rightarrow> ptr \<Rightarrow> ptr option" where
  "find_head hp hv k iter =
     (if iter = None then Some None
      else do {
        a \<leftarrow> iter;
        h \<leftarrow> hp a;
        (if hashValue h = hv \<and> KeyMatch (key h) k then Some iter
         else find_head hp hv k (nextHead h)) })"

definition bucket_search :: "HashMap \<Rightarrow> nat \<Rightarrow> KeyType \<Rightarrow> ptr option" where
  "bucket_search m pos k =
     do { b \<leftarrow> get_bucket m pos; find_head (heads m) (HashKey k) k (nodeList b) }"

text \<open>
  Moving a node to the front of its bucket list. The code rewrites the links of the
  predecessor, the successor and the node itself; the \<open>prevHead\<close> of the old first node is
  left as it is.
\<close>

definition move_to_front :: "addr \<Rightarrow> HashMap \<Rightarrow> HashMap option" where
  "move_to_front a m =
     do { h \<leftarrow> heads m a;
       (case prevHead h of
          None \<Rightarrow> Some m
        | Some p \<Rightarrow> do {
            m \<leftarrow> upd_head p (\<lambda>x. x\<lparr>nextHead := nextHead h\<rparr>) m;
            m \<leftarrow> (case nextHead h of
                    None \<Rightarrow> Some m
                  | Some n \<Rightarrow> upd_head n (\<lambda>x. x\<lparr>prevHead := prevHead h\<rparr>) m);
            b \<leftarrow> get_bucket m (bucket h);
            m \<leftarrow> upd_head a (\<lambda>x. x\<lparr>prevHead := None, nextHead := nodeList b\<rparr>) m;
            upd_bucket (bucket h) (\<lambda>b. b\<lparr>nodeList := Some a\<rparr>) m }) }"

section \<open>Updating the replay state of a key\<close>

definition HashMapUpdateFirstEmptySlot :: "HashMap \<Rightarrow> KeyType \<Rightarrow> u64 \<Rightarrow> (HashMap \<times> bool) option" where
  "HashMapUpdateFirstEmptySlot m k l =
     do { pos \<leftarrow> bucketPos m k;
          m \<leftarrow> lock_bucket rdlock pos m;
          iter \<leftarrow> bucket_search m pos k;
          m \<leftarrow> lock_bucket unlock pos m;
          (case iter of
             None \<Rightarrow> Some (m, False)
           | Some a \<Rightarrow> do {
               h \<leftarrow> heads m a;
               e0 \<leftarrow> arr_get (lsnEntry h) 0;
               (if lsn e0 = 0 then do {
                  es \<leftarrow> arr_upd (lsnEntry h) 0 (\<lambda>e. e\<lparr>lsn := l\<rparr>);
                  m \<leftarrow> upd_head a (\<lambda>h. h\<lparr>lsnEntry := es,
                         replayedLsn := (if replayedLsn h < l then l else replayedLsn h)\<rparr>) m;
                  Some (m, True) }
                else Some (m, False)) }) }"

definition HashMapUpdateReplayedLsn ::
    "HashMap \<Rightarrow> KeyType \<Rightarrow> u64 \<Rightarrow> bool \<Rightarrow> (HashMap \<times> bool) option" where
  "HashMapUpdateReplayedLsn m k l holdHeadLock =
     do { pos \<leftarrow> bucketPos m k;
          m \<leftarrow> lock_bucket rdlock pos m;
          iter \<leftarrow> bucket_search m pos k;
          m \<leftarrow> lock_bucket unlock pos m;
          (case iter of
             None \<Rightarrow> Some (m, False)
           | Some a \<Rightarrow> do {
               m \<leftarrow> (if holdHeadLock then Some m else lock_head wrlock a m);
               h \<leftarrow> heads m a;
               (if replayedLsn h < l then do {
                  m \<leftarrow> upd_head a (\<lambda>h. h\<lparr>replayedLsn := l\<rparr>) m;
                  m \<leftarrow> lock_head unlock a m;
                  Some (m, True) }
                else do { m \<leftarrow> lock_head unlock a m; Some (m, False) }) }) }"

section \<open>Inserting an LSN\<close>

definition zero_time :: timeval where
  "zero_time = \<lparr>tv_sec = 0, tv_usec = 0\<rparr>"

definition new_head :: "malloc_block \<Rightarrow> KeyType \<Rightarrow> nat \<Rightarrow> u64 \<Rightarrow> u32 \<Rightarrow> bool \<Rightarrow> HashNodeHead" where
  "new_head blk k pos l pn noEmptyFirstSlot =
     (let arr = map (blk_uninit blk) [0..<15];
          page_key = (BlkNum k \<noteq> - 1 \<and> \<not> noEmptyFirstSlot)
      in \<lparr>key = k, hashValue = HashKey k, bucket = pos, headLock = Unlocked,
          lsnEntry =
            (if page_key
             then arr[0 := (arr ! 0)\<lparr>lsn := 0\<rparr>, 1 := (arr ! 1)\<lparr>lsn := l\<rparr>]
             else arr[0 := \<lparr>lsn = l, pageNum = pn\<rparr>]),
          maxLsn = l,
          entryNum = (if page_key then 2 else 1),
          replayedLsn = 0, nextHead = None, prevHead = None, nextEle = None, tailEle = None,
          finishVacuumTime = zero_time\<rparr>)"

definition push_head :: "addr \<Rightarrow> HashNodeHead \<Rightarrow> HashMap \<Rightarrow> HashMap option" where
  "push_head a h m =
     do { b \<leftarrow> get_bucket m (bucket h);
          m \<leftarrow> (case nodeList b of
                  None \<Rightarrow> Some m
                | Some f \<Rightarrow> upd_head f (\<lambda>x. x\<lparr>prevHead := Some a\<rparr>) m);
          m \<leftarrow> Some (m\<lparr>heads := (heads m)(a \<mapsto> h\<lparr>nextHead := nodeList b\<rparr>)\<rparr>);
          upd_bucket (bucket h) (\<lambda>b. b\<lparr>nodeList := Some a\<rparr>) m }"

definition new_ele :: "malloc_block \<Rightarrow> u64 \<Rightarrow> u32 \<Rightarrow> ptr \<Rightarrow> HashNodeEle" where
  "new_ele blk l pn prev =
     \<lparr>e_maxLsn = l, e_entryNum = 1,
      e_lsnEntry = (map (blk_uninit blk) [0..<30])[0 := \<lparr>lsn = l, pageNum = pn\<rparr>],
      e_nextEle = None, e_prevEle = prev\<rparr>"

text \<open>The tail node, when there is one with a free slot.\<close>

definition tail_with_space :: "HashNodeHead \<Rightarrow> HashMap \<Rightarrow> ptr option" where
  "tail_with_space h m =
     (case tailEle h of
        None \<Rightarrow> Some None
      | Some t \<Rightarrow> do { e \<leftarrow> eles m t; Some (if e_entryNum e < HASH_ELEM_NUM then Some t else None) })"

definition append_new_ele :: "malloc_block \<Rightarrow> addr \<Rightarrow> u64 \<Rightarrow> u32 \<Rightarrow> HashMap \<Rightarrow> HashMap option" where
  "append_new_ele blk a l pn m =
     do { h \<leftarrow> heads m a;
          let n = blk_addr blk;
          m \<leftarrow> Some (m\<lparr>eles := (eles m)(n \<mapsto> new_ele blk l pn (tailEle h))\<rparr>);
          m \<leftarrow> upd_head a (\<lambda>h. h\<lparr>maxLsn := l\<rparr>) m;
          (case tailEle h of
             Some t \<Rightarrow> do {
               m \<leftarrow> upd_ele t (\<lambda>e. e\<lparr>e_nextEle := Some n\<rparr>) m;
               upd_head a (\<lambda>h. h\<lparr>tailEle := Some n\<rparr>) m }
           | None \<Rightarrow> upd_head a (\<lambda>h. h\<lparr>nextEle := Some n, tailEle := Some n\<rparr>) m) }"

definition append_entry :: "malloc_block \<Rightarrow> addr \<Rightarrow> u64 \<Rightarrow> u32 \<Rightarrow> HashMap \<Rightarrow> (HashMap \<times> bool) option" where
  "append_entry blk a l pn m =
     do { h \<leftarrow> heads m a;
       (if l < maxLsn h then Some (m, False)
        else if maxLsn h = l then
          (if entryNum h \<le> HASH_HEAD_NUM \<and> nextEle h = None then do {
             es \<leftarrow> arr_upd (lsnEntry h) (entryNum h - 1) (\<lambda>e. e\<lparr>pageNum := pn\<rparr>);
             m \<leftarrow> upd_head a (\<lambda>h. h\<lparr>lsnEntry := es\<rparr>) m;
             Some (m, True) }
           else do {
             t \<leftarrow> tailEle h;
             e \<leftarrow> eles m t;
             es \<leftarrow> arr_upd (e_lsnEntry e) (e_entryNum e - 1) (\<lambda>e. e\<lparr>pageNum := pn\<rparr>);
             m \<leftarrow> upd_ele t (\<lambda>e. e\<lparr>e_lsnEntry := es\<rparr>) m;
             Some (m, True) })
        else if entryNum h < HASH_HEAD_NUM then do {
          es \<leftarrow> arr_upd (lsnEntry h) (entryNum h) (\<lambda>_. \<lparr>lsn = l, pageNum = pn\<rparr>);
          m \<leftarrow> upd_head a (\<lambda>h. h\<lparr>lsnEntry := es, entryNum := entryNum h + 1, maxLsn := l\<rparr>) m;
          Some (m, True) }
        else do {
          tail \<leftarrow> tail_with_space h m;
          (case tail of
             Some t \<Rightarrow> do {
               e \<leftarrow> eles m t;
               es \<leftarrow> arr_upd (e_lsnEntry e) (e_entryNum e) (\<lambda>_. \<lparr>lsn = l, pageNum = pn\<rparr>);
               m \<leftarrow> upd_ele t (\<lambda>e. e\<lparr>e_lsnEntry := es, e_entryNum := e_entryNum e + 1,
                                    e_maxLsn := l\<rparr>) m;
               m \<leftarrow> upd_head a (\<lambda>h. h\<lparr>maxLsn := l\<rparr>) m;
               Some (m, True) }
           | None \<Rightarrow> do { m \<leftarrow> append_new_ele blk a l pn m; Some (m, True) }) }) }"

definition HashMapInsertKey ::
    "malloc_block \<Rightarrow> HashMap \<Rightarrow> KeyType \<Rightarrow> u64 \<Rightarrow> u32 \<Rightarrow> bool \<Rightarrow> (HashMap \<times> bool) option" where
  "HashMapInsertKey blk m k l pn noEmptyFirstSlot =
     do { pos \<leftarrow> bucketPos m k;
          m \<leftarrow> lock_bucket wrlock pos m;
          iter \<leftarrow> bucket_search m pos k;
          (case iter of
             None \<Rightarrow> do {
               m \<leftarrow> push_head (blk_addr blk) (new_head blk k pos l pn noEmptyFirstSlot) m;
               m \<leftarrow> lock_bucket unlock pos m;
               Some (m, True) }
           | Some a \<Rightarrow> do {
               m \<leftarrow> move_to_front a m;
               m \<leftarrow> lock_bucket unlock pos m;
               m \<leftarrow> lock_head rdlock a m;
               (m, r) \<leftarrow> append_entry blk a l pn m;
               m \<leftarrow> lock_head unlock a m;
               Some (m, r) }) }"

section \<open>The LSNs still to be replayed\<close>

text \<open>
  Walking the element nodes for the largest LSN that is not above the target; \<open>cur\<close> is the
  best LSN seen so far.
\<close>

partial_function (option)
  scan_replayed :: "(addr \<rightharpoonup> HashNodeEle) \<Rightarrow> u64 \<Rightarrow> u64 \<Rightarrow> ptr \<Rightarrow> u64 option" where
  "scan_replayed hp targetLsn cur eleIter =
     (if eleIter = None then Some cur
      else do {
        a \<leftarrow> eleIter;
        e \<leftarrow> hp a;
        (if e_maxLsn e < targetLsn then do {
           last_e \<leftarrow> arr_get (e_lsnEntry e) (e_entryNum e - 1);
           scan_replayed hp targetLsn (lsn last_e) (e_nextEle e) }
         else do {
           i \<leftarrow> LsnListFindLowerBound targetLsn (e_lsnEntry e) (e_entryNum e);
           (if 0 \<le> i then do { x \<leftarrow> arr_get (e_lsnEntry e) i; Some (lsn x) } else Some cur) }) })"

text \<open>The two copying loops: entries from index \<open>i\<close> on, while not above the target.\<close>

partial_function (option)
  collect :: "LsnEntry list \<Rightarrow> int \<Rightarrow> u64 \<Rightarrow> int \<Rightarrow> u64 list \<Rightarrow> u64 list option" where
  "collect es n targetLsn i toReplayList =
     (if i < n then do {
        e \<leftarrow> arr_get es i;
        (if lsn e \<le> targetLsn then collect es n targetLsn (i + 1) (toReplayList @ [lsn e])
         else Some toReplayList) }
      else Some toReplayList)"

partial_function (option)
  collect_eles :: "(addr \<rightharpoonup> HashNodeEle) \<Rightarrow> u64 \<Rightarrow> u64 \<Rightarrow> bool \<Rightarrow> u64 list \<Rightarrow> ptr \<Rightarrow> u64 list option" where
  "collect_eles hp replayed targetLsn foundReplayLsnPosition toReplayList eleIter =
     (if eleIter = None then Some toReplayList
      else do {
        a \<leftarrow> eleIter;
        e \<leftarrow> hp a;
        first \<leftarrow> arr_get (e_lsnEntry e) 0;
        (if targetLsn < lsn first then Some toReplayList
         else if e_maxLsn e < replayed then
           collect_eles hp replayed targetLsn foundReplayLsnPosition toReplayList (e_nextEle e)
         else do {
           startIndex \<leftarrow>
             (if foundReplayLsnPosition then Some 0
              else do { i \<leftarrow> LsnListFindLowerBound replayed (e_lsnEntry e) (e_entryNum e); Some (i + 1) });
           acc \<leftarrow> collect (e_lsnEntry e) (e_entryNum e) targetLsn startIndex toReplayList;
           collect_eles hp replayed targetLsn True acc (e_nextEle e) }) })"

text \<open>
  The decision of \<open>HashMapGetBlockReplayList\<close> once the head is found and its lock is held:
  \<^term>\<open>None\<close> inside is the return value \<open>false\<close>, \<open>Some (replayedLsn, toReplayList)\<close> the
  outputs together with \<open>true\<close>.
\<close>

definition replay_list_of_head ::
    "HashMap \<Rightarrow> HashNodeHead \<Rightarrow> u64 \<Rightarrow> (u64 \<times> u64 list) option option" where
  "replay_list_of_head m h targetLsn =
     (if replayedLsn h = targetLsn then Some (Some (replayedLsn h, []))
      else if targetLsn < replayedLsn h then do {
        last_e \<leftarrow> arr_get (lsnEntry h) (entryNum h - 1);
        (if targetLsn \<le> lsn last_e then do {
           i \<leftarrow> LsnListFindLowerBound targetLsn (lsnEntry h) (entryNum h);
           (if i = - 1 then Some None
            else do { e \<leftarrow> arr_get (lsnEntry h) i; Some (Some (lsn e, [])) }) }
         else do {
           cur \<leftarrow> scan_replayed (eles m) targetLsn (lsn last_e) (nextEle h);
           Some (Some (cur, [])) }) }
      else if replayedLsn h = maxLsn h then Some (Some (maxLsn h, []))
      else do {
        e0 \<leftarrow> arr_get (lsnEntry h) 0;
        e1 \<leftarrow> arr_get (lsnEntry h) 1;
        (if replayedLsn h = 0 \<and> 1 < entryNum h \<and> lsn e0 = 0 \<and> targetLsn < lsn e1
         then Some (Some (0, []))
         else do {
           last_e \<leftarrow> arr_get (lsnEntry h) (entryNum h - 1);
           (found, acc) \<leftarrow>
             (if replayedLsn h \<le> lsn last_e then do {
                i \<leftarrow> LsnListFindLowerBound (replayedLsn h) (lsnEntry h) (entryNum h);
                acc \<leftarrow> collect (lsnEntry h) (entryNum h) targetLsn (i + 1) [];
                Some (True, acc) }
              else Some (False, []));
           acc \<leftarrow> collect_eles (eles m) (replayedLsn h) targetLsn found acc (nextEle h);
           Some (Some (replayedLsn h, acc)) }) })"

text \<open>
  The head lock is kept exactly when the list is not empty: the caller replays the records and
  releases it through \<open>HashMapUpdateReplayedLsn\<close>.
\<close>

definition HashMapGetBlockReplayList ::
    "HashMap \<Rightarrow> KeyType \<Rightarrow> u64 \<Rightarrow> (HashMap \<times> (u64 \<times> u64 list) option) option" where
  "HashMapGetBlockReplayList m k targetLsn =
     do { pos \<leftarrow> bucketPos m k;
          m \<leftarrow> lock_bucket wrlock pos m;
          iter \<leftarrow> bucket_search m pos k;
          (case iter of
             None \<Rightarrow> do { m \<leftarrow> lock_bucket unlock pos m; Some (m, None) }
           | Some a \<Rightarrow> do {
               m \<leftarrow> move_to_front a m;
               m \<leftarrow> lock_bucket unlock pos m;
               m \<leftarrow> lock_head wrlock a m;
               h \<leftarrow> heads m a;
               r \<leftarrow> replay_list_of_head m h targetLsn;
               (case r of
                  Some (_, _ # _) \<Rightarrow> Some (m, r)
                | _ \<Rightarrow> do { m \<leftarrow> lock_head unlock a m; Some (m, r) }) }) }"

section \<open>The newest version not above an LSN\<close>

text \<open>The element nodes are searched backwards from the tail.\<close>

partial_function (option)
  scan_back :: "(addr \<rightharpoonup> HashNodeEle) \<Rightarrow> u64 \<Rightarrow> u64 \<times> u32 \<Rightarrow> ptr \<Rightarrow> (u64 \<times> u32) option" where
  "scan_back hp targetLsn cur eleIter =
     (if eleIter = None then Some cur
      else do {
        a \<leftarrow> eleIter;
        e \<leftarrow> hp a;
        first \<leftarrow> arr_get (e_lsnEntry e) 0;
        (if targetLsn < lsn first then scan_back hp targetLsn cur (e_prevEle e)
         else do {
           i \<leftarrow> LsnListFindLowerBound targetLsn (e_lsnEntry e) (e_entryNum e);
           (if i \<noteq> - 1 then do { x \<leftarrow> arr_get (e_lsnEntry e) i; Some (lsn x, pageNum x) }
            else Some cur) }) })"

definition lower_bound_of_head :: "HashMap \<Rightarrow> HashNodeHead \<Rightarrow> u64 \<Rightarrow> (u64 \<times> u32) option option" where
  "lower_bound_of_head m h targetLsn =
     do { last_e \<leftarrow> arr_get (lsnEntry h) (entryNum h - 1);
          (if targetLsn \<le> lsn last_e then do {
             i \<leftarrow> LsnListFindLowerBound targetLsn (lsnEntry h) (entryNum h);
             (if i = - 1 then Some None
              else do { e \<leftarrow> arr_get (lsnEntry h) i; Some (Some (lsn e, pageNum e)) }) }
           else do {
             r \<leftarrow> scan_back (eles m) targetLsn (lsn last_e, pageNum last_e) (tailEle h);
             Some (Some r) }) }"

definition HashMapFindLowerBoundEntry ::
    "HashMap \<Rightarrow> KeyType \<Rightarrow> u64 \<Rightarrow> (HashMap \<times> (u64 \<times> u32) option) option" where
  "HashMapFindLowerBoundEntry m k targetLsn =
     do { pos \<leftarrow> bucketPos m k;
          m \<leftarrow> lock_bucket rdlock pos m;
          iter \<leftarrow> bucket_search m pos k;
          m \<leftarrow> lock_bucket unlock pos m;
          (case iter of
             None \<Rightarrow> Some (m, None)
           | Some a \<Rightarrow> do {
               m \<leftarrow> lock_head rdlock a m;
               h \<leftarrow> heads m a;
               r \<leftarrow> lower_bound_of_head m h targetLsn;
               m \<leftarrow> lock_head unlock a m;
               Some (m, r) }) }"

section \<open>Destroying the map\<close>

partial_function (option) free_eles :: "addr \<Rightarrow> HashMap \<Rightarrow> HashMap option" where
  "free_eles a m =
     do { h \<leftarrow> heads m a;
          (if nextEle h = None then Some m
           else do {
             x \<leftarrow> nextEle h;
             e \<leftarrow> eles m x;
             m \<leftarrow> upd_head a (\<lambda>h. h\<lparr>nextEle := e_nextEle e\<rparr>) m;
             free_eles a (m\<lparr>eles := (eles m)(x := None)\<rparr>) }) }"

partial_function (option) free_heads :: "nat \<Rightarrow> HashMap \<Rightarrow> HashMap option" where
  "free_heads i m =
     do { b \<leftarrow> get_bucket m i;
          (if nodeList b = None then Some m
           else do {
             a \<leftarrow> nodeList b;
             m \<leftarrow> free_eles a m;
             h \<leftarrow> heads m a;
             m \<leftarrow> upd_bucket i (\<lambda>b. b\<lparr>nodeList := nextHead h\<rparr>) m;
             free_heads i (m\<lparr>heads := (heads m)(a := None)\<rparr>) }) }"

fun free_buckets :: "nat list \<Rightarrow> HashMap \<Rightarrow> HashMap option" where
  "free_buckets [] m = Some m"
| "free_buckets (i # is) m = do { m \<leftarrow> free_heads i m; free_buckets is m }"

definition HashMapDestroy :: "HashMap \<Rightarrow> HashMap option" where
  "HashMapDestroy m =
     do { m \<leftarrow> free_buckets [0..<unat (bucketNum m)] m; Some (m\<lparr>bucketList := []\<rparr>) }"

end
