(* ===== verification/VersionChain.thy ===== *)
theory VersionChain
  imports PageVersionMap
begin

text \<open>
  The version chain of one key: the entries of its head node followed by those of its element
  nodes. This theory states when a head node and its element list are well formed, and proves
  that the searches of \<open>logindex_hashmap.cpp\<close> compute on the pointers what the obvious
  definitions compute on the chain seen as one sorted list.
\<close>

section \<open>Sorted entry lists\<close>

abbreviation lsorted :: "LsnEntry list \<Rightarrow> bool" where
  "lsorted es \<equiv> sorted_wrt (<) (map lsn es)"

text \<open>The entries not above a target LSN, and how many there are.\<close>

abbreviation upto_lsn :: "u64 \<Rightarrow> LsnEntry list \<Rightarrow> LsnEntry list" where
  "upto_lsn t es \<equiv> filter (\<lambda>e. lsn e \<le> t) es"

abbreviation count_le :: "u64 \<Rightarrow> LsnEntry list \<Rightarrow> nat" where
  "count_le t es \<equiv> length (upto_lsn t es)"

lemma count_le_nth:
  "lsorted es \<Longrightarrow> i < length es \<Longrightarrow> (lsn (es ! i) \<le> t) = (i < count_le t es)"
proof (induction es arbitrary: i)
  case (Cons e es)
  have none: "upto_lsn t es = []" if "t < lsn e"
    using Cons.prems(1) that by (force simp: filter_empty_conv)
  show ?case
  proof (cases i)
    case 0
    with none show ?thesis by (auto simp: not_le)
  next
    case (Suc j)
    with Cons have "(lsn (es ! j) \<le> t) = (j < count_le t es)" by simp
    with Suc none show ?thesis by (auto simp: not_le)
  qed
qed simp

lemma takeWhile_upto: "lsorted es \<Longrightarrow> takeWhile (\<lambda>e. lsn e \<le> t) es = upto_lsn t es"
proof (induction es)
  case (Cons e es)
  then have "upto_lsn t es = []" if "t < lsn e"
    using that by (force simp: filter_empty_conv)
  with Cons show ?case by auto
qed simp

lemma take_count_le: "lsorted es \<Longrightarrow> take (count_le t es) es = upto_lsn t es"
  by (metis takeWhile_upto takeWhile_eq_take)

lemma drop_count_le: "lsorted es \<Longrightarrow> drop (count_le t es) es = filter (\<lambda>e. t < lsn e) es"
proof (induction es)
  case (Cons e es)
  have "upto_lsn t es = [] \<and> filter (\<lambda>e. t < lsn e) es = es" if "t < lsn e"
    using Cons.prems that by (force simp: filter_empty_conv filter_id_conv)
  with Cons show ?case by (auto simp: not_le)
qed simp

lemma last_upto_nth:
  "lsorted es \<Longrightarrow> upto_lsn t es \<noteq> [] \<Longrightarrow> last (upto_lsn t es) = es ! (count_le t es - 1)"
proof -
  assume s: "lsorted es" and ne: "upto_lsn t es \<noteq> []"
  have "count_le t es \<le> length es" by (rule length_filter_le)
  with ne show ?thesis
    by (subst take_count_le [OF s, symmetric]) (simp add: last_take_nth del: take_count_le)
qed

lemma lsorted_append:
  "lsorted (xs @ ys) =
     (lsorted xs \<and> lsorted ys \<and> (\<forall>x \<in> set xs. \<forall>y \<in> set ys. lsn x < lsn y))"
  by (auto simp: sorted_wrt_append)

lemma lsorted_last: "lsorted es \<Longrightarrow> e \<in> set es \<Longrightarrow> lsn e \<le> lsn (last es)"
proof -
  assume s: "lsorted es" and e: "e \<in> set es"
  then have "es = butlast es @ [last es]" by (cases es rule: rev_cases) auto
  with s have "lsorted (butlast es @ [last es])" by simp
  moreover from e \<open>es = _\<close> have "e \<in> set (butlast es) \<or> e = last es"
    by (metis Un_iff empty_iff empty_set set_ConsD set_append)
  ultimately show ?thesis by (auto simp: sorted_wrt_append less_imp_le)
qed

lemma lsorted_hd: "lsorted es \<Longrightarrow> e \<in> set es \<Longrightarrow> lsn (hd es) \<le> lsn e"
  by (cases es) (auto simp: less_imp_le)

lemma upto_all: "lsorted es \<Longrightarrow> lsn (last es) \<le> t \<Longrightarrow> upto_lsn t es = es"
  by (auto simp: filter_id_conv dest: lsorted_last)

lemma upto_none: "lsorted es \<Longrightarrow> t < lsn (hd es) \<Longrightarrow> upto_lsn t es = []"
  by (auto simp: filter_empty_conv dest: lsorted_hd)

section \<open>Binary search\<close>

text \<open>
  The loop returns the last index not above the target, or 0 when there is none: it narrows the
  interval to \<open>max 0 (count - 1)\<close>.
\<close>

lemma FindLowerBound_loop:
  assumes sorted: "lsorted (take n es)" and n: "n \<le> length es"
    and p: "p = (count_le t (take n es) - 1)"
    and "s \<le> p" "p \<le> l" "l < n"
  shows "LsnListFindLowerBound_loop t es (int l) (int s) = Some (int p)"
  using assms(4-6)
proof (induction "l - s" arbitrary: l s rule: less_induct)
  case less
  let ?c = "count_le t (take n es)"
  show ?case
  proof (cases "l = s")
    case True
    with less.prems show ?thesis by (simp add: LsnListFindLowerBound_loop.simps)
  next
    case False
    define mid where "mid = (l + s + 1) div 2"
    from False less.prems have sl: "s < l" by simp
    then have mid: "s < mid" "mid \<le> l" "0 < mid" by (auto simp: mid_def)
    have int_mid: "(int l + int s + 1) div 2 = int mid" by (simp add: mid_def)
    from mid less.prems n have get: "arr_get es (int mid) = Some (es ! mid)" by simp
    have nth: "take n es ! j = es ! j" if "j \<le> l" for j
      using that less.prems by simp
    have cnt: "(lsn (es ! j) \<le> t) = (j < ?c)" if "j \<le> l" for j
      using count_le_nth [OF sorted, of j t] that less.prems n nth by simp
    note step = LsnListFindLowerBound_loop.simps [of t es "int l" "int s"]
    consider (eq) "lsn (es ! mid) = t" | (gt) "t < lsn (es ! mid)" | (lt) "lsn (es ! mid) < t"
      by fastforce
    then show ?thesis
    proof cases
      case eq
      have "?c = Suc mid"
      proof (rule le_antisym)
        show "Suc mid \<le> ?c" using cnt [of mid] eq mid by simp
        show "?c \<le> Suc mid"
        proof (rule ccontr)
          assume "\<not> ?c \<le> Suc mid"
          then have c: "Suc mid < ?c" by simp
          moreover have "?c \<le> length (take n es)" by (rule length_filter_le)
          ultimately have len: "Suc mid < length (take n es)" by simp
          with c have "lsn (take n es ! Suc mid) \<le> t"
            using count_le_nth [OF sorted, of "Suc mid" t] by simp
          moreover have "lsn (take n es ! mid) < lsn (take n es ! Suc mid)"
            using sorted_wrt_nth_less [OF sorted, of mid "Suc mid"] len by simp
          ultimately show False using eq nth [of mid] mid by simp
        qed
      qed
      with p have "p = mid" by simp
      with eq get int_mid False step show ?thesis
        by (simp add: LsnListFindLowerBound_loop.simps [of t es "int mid" "int mid"])
    next
      case gt
      then have "\<not> lsn (es ! mid) \<le> t" by (simp add: not_le)
      with cnt [of mid] mid have "?c \<le> mid" by simp
      with p mid have "p \<le> mid - 1" by simp
      with less.hyps [of "mid - 1" s] less.prems mid
      have "LsnListFindLowerBound_loop t es (int (mid - 1)) (int s) = Some (int p)" by simp
      with gt get int_mid False mid step show ?thesis by (auto simp: of_nat_diff Let_def)
    next
      case lt
      then have "lsn (es ! mid) \<le> t" by simp
      with cnt [of mid] mid have "mid < ?c" by simp
      with p have "mid \<le> p" by simp
      with less.hyps [of l mid] less.prems mid
      have "LsnListFindLowerBound_loop t es (int l) (int mid) = Some (int p)" by simp
      with lt get int_mid False step show ?thesis by (auto simp: Let_def)
    qed
  qed
qed

lemma FindLowerBound_count:
  assumes sorted: "lsorted (take n es)" and n: "0 < n" "n \<le> length es"
  shows "LsnListFindLowerBound t es (int n) = Some (int (count_le t (take n es)) - 1)"
proof -
  define c where "c = count_le t (take n es)"
  have "c \<le> length (take n es)" by (simp add: c_def del: length_take)
  with n have c: "c \<le> n" by simp
  have loop: "LsnListFindLowerBound_loop t es (int (n - 1)) (int 0) = Some (int (c - 1))"
    using FindLowerBound_loop [OF sorted n(2) refl, where s = 0 and l = "n - 1"] n c
    by (simp add: c_def)
  then have loop': "LsnListFindLowerBound_loop t es (int n - 1) 0 = Some (int (c - 1))"
    using n by (simp add: of_nat_diff)
  have "(lsn (es ! (c - 1)) \<le> t) = (0 < c)"
    using count_le_nth [OF sorted, of "c - 1" t] c n by (auto simp: c_def)
  with loop' c n have "LsnListFindLowerBound t es (int n) = Some (int c - 1)"
    by (cases c) (auto simp: LsnListFindLowerBound_def arr_get_def not_le not_less)
  then show ?thesis by (simp add: c_def)
qed

section \<open>Copying loop\<close>

lemma collect_takeWhile:
  assumes "i \<le> n" "n \<le> length es"
  shows "collect es (int n) t (int i) acc =
    Some (acc @ map lsn (takeWhile (\<lambda>e. lsn e \<le> t) (drop i (take n es))))"
  using assms
proof (induction "n - i" arbitrary: i acc)
  case 0
  then have "n = i" by simp
  then show ?case by (simp add: collect.simps [of es "int i" t "int i"])
next
  case (Suc k)
  then have i: "i < n" by simp
  then have d: "drop i (take n es) = es ! i # drop (Suc i) (take n es)"
    using Suc.prems by (subst Cons_nth_drop_Suc [symmetric]) auto
  have "collect es (int n) t (int (Suc i)) acc' =
      Some (acc' @ map lsn (takeWhile (\<lambda>e. lsn e \<le> t) (drop (Suc i) (take n es))))" for acc'
    using Suc i by (intro Suc.hyps) auto
  with i d Suc.prems show ?case
    by (simp add: collect.simps [of es "int n" t "int i"] add.commute)
qed

lemma lsorted_drop: "lsorted es \<Longrightarrow> lsorted (drop i es)"
  by (simp add: sorted_wrt_drop flip: drop_map)

text \<open>The searches the callers make: entries in a window, read off the filtered list.\<close>

lemma collect_sorted:
  assumes "lsorted (take n es)" "i \<le> n" "n \<le> length es"
  shows "collect es (int n) t (int i) acc = Some (acc @ map lsn (upto_lsn t (drop i (take n es))))"
  using assms by (simp add: collect_takeWhile takeWhile_upto lsorted_drop)


section \<open>Well-formed heads and element nodes\<close>

definition head_entries :: "HashNodeHead \<Rightarrow> LsnEntry list" where
  "head_entries h = take (nat (entryNum h)) (lsnEntry h)"

definition ele_entries :: "HashNodeEle \<Rightarrow> LsnEntry list" where
  "ele_entries e = take (nat (e_entryNum e)) (e_lsnEntry e)"

definition ele_ok :: "HashNodeEle \<Rightarrow> bool" where
  "ele_ok e \<longleftrightarrow>
     length (e_lsnEntry e) = 30 \<and> 1 \<le> e_entryNum e \<and> e_entryNum e \<le> HASH_ELEM_NUM \<and>
     e_maxLsn e = lsn (last (ele_entries e))"

text \<open>Back links: \<open>prv\<close> of each node is its predecessor in the list.\<close>

primrec back_links :: "('n \<Rightarrow> ptr) \<Rightarrow> (addr \<rightharpoonup> 'n) \<Rightarrow> ptr \<Rightarrow> addr list \<Rightarrow> bool" where
  "back_links prv hp p [] = True"
| "back_links prv hp p (a # as) = (map_option prv (hp a) = Some p \<and> back_links prv hp (Some a) as)"

definition eles_entries :: "(addr \<rightharpoonup> HashNodeEle) \<Rightarrow> addr list \<Rightarrow> LsnEntry list" where
  "eles_entries hp as = concat (map (\<lambda>a. ele_entries (the (hp a))) as)"

definition chain :: "(addr \<rightharpoonup> HashNodeEle) \<Rightarrow> HashNodeHead \<Rightarrow> addr list \<Rightarrow> LsnEntry list" where
  "chain hp h as = head_entries h @ eles_entries hp as"

definition head_ok :: "(addr \<rightharpoonup> HashNodeEle) \<Rightarrow> HashNodeHead \<Rightarrow> addr list \<Rightarrow> bool" where
  "head_ok hp h as \<longleftrightarrow>
     length (lsnEntry h) = 15 \<and> 1 \<le> entryNum h \<and> entryNum h \<le> HASH_HEAD_NUM \<and>
     (as \<noteq> [] \<longrightarrow> entryNum h = HASH_HEAD_NUM) \<and>
     lseg e_nextEle hp (nextEle h) as None \<and> back_links e_prevEle hp None as \<and>
     tailEle h = (if as = [] then None else Some (last as)) \<and>
     (\<forall>a \<in> set as. ele_ok (the (hp a))) \<and>
     lsorted (chain hp h as) \<and> maxLsn h = lsn (last (chain hp h as))"

lemma eles_entries_simps [simp]:
  "eles_entries hp [] = []"
  "eles_entries hp (a # as) = ele_entries (the (hp a)) @ eles_entries hp as"
  "eles_entries hp (as @ bs) = eles_entries hp as @ eles_entries hp bs"
  by (simp_all add: eles_entries_def)

lemma eles_entries_cong:
  "(\<And>a. a \<in> set as \<Longrightarrow> ele_entries (the (hp' a)) = ele_entries (the (hp a))) \<Longrightarrow>
   eles_entries hp' as = eles_entries hp as"
  by (induction as) auto

lemma eles_entries_other [simp]:
  "a \<notin> set as \<Longrightarrow> eles_entries (hp(a := x)) as = eles_entries hp as"
  by (induction as) auto

lemma back_links_other:
  "a \<notin> set as \<Longrightarrow> back_links prv (hp(a := n)) p as = back_links prv hp p as"
  by (induction as arbitrary: p) auto

lemma back_links_same:
  "hp a = Some n0 \<Longrightarrow> prv n = prv n0 \<Longrightarrow> back_links prv (hp(a \<mapsto> n)) p as = back_links prv hp p as"
  by (induction as arbitrary: p) auto

lemma back_links_cong:
  "(\<And>a. a \<in> set as \<Longrightarrow> map_option prv (hp' a) = map_option prv (hp a)) \<Longrightarrow>
   back_links prv hp' p as = back_links prv hp p as"
  by (induction as arbitrary: p) auto

lemma back_links_append:
  "back_links prv hp p (as @ bs) =
     (back_links prv hp p as \<and> back_links prv hp (if as = [] then p else Some (last as)) bs)"
  by (induction as arbitrary: p) auto

lemma ele_ok_facts:
  assumes "ele_ok e"
  obtains n where "e_entryNum e = int n" "0 < n" "n \<le> length (e_lsnEntry e)" "n \<le> 30"
    "ele_entries e = take n (e_lsnEntry e)" "ele_entries e \<noteq> []"
    "e_maxLsn e = lsn (last (ele_entries e))" "hd (ele_entries e) = e_lsnEntry e ! 0"
    "last (ele_entries e) = e_lsnEntry e ! (n - 1)"
proof
  let ?n = "nat (e_entryNum e)"
  show "e_entryNum e = int ?n" "0 < ?n" "?n \<le> length (e_lsnEntry e)" "?n \<le> 30"
    "ele_entries e = take ?n (e_lsnEntry e)" "e_maxLsn e = lsn (last (ele_entries e))"
    using assms by (auto simp: ele_ok_def ele_entries_def)
  show "ele_entries e \<noteq> []" using assms by (auto simp: ele_ok_def ele_entries_def)
  show "hd (ele_entries e) = e_lsnEntry e ! 0"
    using assms by (cases "e_lsnEntry e") (auto simp: ele_ok_def ele_entries_def)
  show "last (ele_entries e) = e_lsnEntry e ! (?n - 1)"
    using assms unfolding ele_entries_def ele_ok_def by (intro last_take_nth) auto
qed

lemma head_ok_facts:
  assumes "head_ok hp h as"
  obtains n where "entryNum h = int n" "0 < n" "n \<le> length (lsnEntry h)" "n \<le> 15"
    "head_entries h = take n (lsnEntry h)" "head_entries h \<noteq> []"
    "last (head_entries h) = lsnEntry h ! (n - 1)" "lsorted (take n (lsnEntry h))"
proof
  let ?n = "nat (entryNum h)"
  show "entryNum h = int ?n" "0 < ?n" "?n \<le> length (lsnEntry h)" "?n \<le> 15"
    "head_entries h = take ?n (lsnEntry h)"
    using assms by (auto simp: head_ok_def head_entries_def)
  show "head_entries h \<noteq> []" using assms by (auto simp: head_ok_def head_entries_def)
  show "last (head_entries h) = lsnEntry h ! (?n - 1)"
    using assms unfolding head_entries_def head_ok_def by (intro last_take_nth) auto
  show "lsorted (take ?n (lsnEntry h))"
    using assms by (auto simp: head_ok_def chain_def sorted_wrt_append head_entries_def)
qed

section \<open>Searches over the element nodes\<close>

text \<open>The newest entry not above a target.\<close>

definition newest :: "u64 \<Rightarrow> LsnEntry list \<Rightarrow> LsnEntry option" where
  "newest t es = (if upto_lsn t es = [] then None else Some (last (upto_lsn t es)))"

lemma newest_append:
  "newest t (xs @ ys) = (case newest t ys of None \<Rightarrow> newest t xs | Some e \<Rightarrow> Some e)"
  by (auto simp: newest_def)

lemma newest_Nil [simp]: "newest t [] = None"
  by (simp add: newest_def)

lemma newest_all: "lsorted es \<Longrightarrow> es \<noteq> [] \<Longrightarrow> lsn (last es) \<le> t \<Longrightarrow> newest t es = Some (last es)"
  by (auto simp: newest_def upto_all)

lemma newest_none: "lsorted es \<Longrightarrow> t < lsn (hd es) \<Longrightarrow> newest t es = None"
  by (auto simp: newest_def upto_none)

lemma newest_above: "(\<And>e. e \<in> set es \<Longrightarrow> t < lsn e) \<Longrightarrow> newest t es = None"
  by (force simp: newest_def filter_empty_conv)

text \<open>What a caller reads through the index of the binary search.\<close>

lemma FindLowerBound_newest:
  assumes "lsorted (take n es)" "0 < n" "n \<le> length es"
  shows "LsnListFindLowerBound t es (int n) =
    Some (case newest t (take n es) of None \<Rightarrow> - 1 | Some _ \<Rightarrow> int (count_le t (take n es) - 1))"
    and "newest t (take n es) = Some e \<Longrightarrow> arr_get es (int (count_le t (take n es) - 1)) = Some e"
proof -
  show "LsnListFindLowerBound t es (int n) =
    Some (case newest t (take n es) of None \<Rightarrow> - 1 | Some _ \<Rightarrow> int (count_le t (take n es) - 1))"
    unfolding FindLowerBound_count [OF assms]
    by (cases "upto_lsn t (take n es)") (auto simp: newest_def)
  assume "newest t (take n es) = Some e"
  then have ne: "upto_lsn t (take n es) \<noteq> []" and e: "e = last (upto_lsn t (take n es))"
    by (auto simp: newest_def split: if_splits)
  have "count_le t (take n es) \<le> length (take n es)" by (rule length_filter_le)
  with ne assms have "count_le t (take n es) - 1 < n" by (cases "count_le t (take n es)") auto
  with e last_upto_nth [OF assms(1) ne] assms
  show "arr_get es (int (count_le t (take n es) - 1)) = Some e" by simp
qed


text \<open>The forward scan for the newest version, used when the page is ahead of the target.\<close>

lemma scan_replayed_None [simp]: "scan_replayed hp t cur None = Some cur"
  by (simp add: scan_replayed.simps)

lemmas scan_replayed_Some [simp] = scan_replayed.simps [of _ _ _ "Some a" for a, simplified]

lemma scan_replayed_newest:
  assumes "lseg e_nextEle hp p as None" "\<forall>a \<in> set as. ele_ok (the (hp a))"
    and "lsorted (eles_entries hp as)"
  shows "scan_replayed hp t cur p =
    Some (case newest t (eles_entries hp as) of None \<Rightarrow> cur | Some e \<Rightarrow> lsn e)"
  using assms
proof (induction as arbitrary: p cur)
  case Nil
  then show ?case by (simp add: scan_replayed.simps)
next
  case (Cons a as)
  then obtain e where p: "p = Some a" and e: "hp a = Some e" and ok: "ele_ok e"
    and rest: "lseg e_nextEle hp (e_nextEle e) as None" by auto
  from ok obtain n where n: "e_entryNum e = int n" "0 < n" "n \<le> length (e_lsnEntry e)"
    and ents: "ele_entries e = take n (e_lsnEntry e)" "ele_entries e \<noteq> []"
    and mx: "e_maxLsn e = lsn (last (ele_entries e))"
    and last: "last (ele_entries e) = e_lsnEntry e ! (n - 1)"
    by (rule ele_ok_facts)
  from Cons.prems e have sorted: "lsorted (ele_entries e)" "lsorted (eles_entries hp as)"
    and sep: "\<And>x y. x \<in> set (ele_entries e) \<Longrightarrow> y \<in> set (eles_entries hp as) \<Longrightarrow> lsn x < lsn y"
    by (auto simp: lsorted_append sorted_wrt_append)
  have IH: "scan_replayed hp t cur' (e_nextEle e) =
      Some (case newest t (eles_entries hp as) of None \<Rightarrow> cur' | Some e \<Rightarrow> lsn e)" for cur'
    using Cons rest sorted by (intro Cons.IH) auto
  show ?case
  proof (cases "e_maxLsn e < t")
    case True
    with mx ents sorted have "newest t (ele_entries e) = Some (last (ele_entries e))"
      by (intro newest_all) auto
    moreover from last n have "arr_get (e_lsnEntry e) (int n - 1) = Some (last (ele_entries e))"
      by (simp add: nat_diff_distrib)
    ultimately show ?thesis using True p e n IH
      by (simp add: newest_append split: option.splits)
  next
    case False
    have "newest t (eles_entries hp as) = None"
    proof (rule newest_above)
      fix y assume "y \<in> set (eles_entries hp as)"
      with sep ents have "lsn (last (ele_entries e)) < lsn y" by simp
      with False mx show "t < lsn y" by simp
    qed
    with FindLowerBound_newest [of n "e_lsnEntry e" t] sorted n ents False p e show ?thesis
      by (auto simp: newest_append split: option.splits)
  qed
qed


text \<open>The backward scan from the tail.\<close>

lemma scan_back_None [simp]: "scan_back hp t cur None = Some cur"
  by (simp add: scan_back.simps)

lemmas scan_back_Some [simp] = scan_back.simps [of _ _ _ "Some a" for a, simplified]

abbreviation entry_pair :: "LsnEntry \<Rightarrow> u64 \<times> u32" where
  "entry_pair e \<equiv> (lsn e, pageNum e)"

lemma scan_back_newest:
  assumes "back_links e_prevEle hp None as" "\<forall>a \<in> set as. ele_ok (the (hp a))"
    and "lsorted (eles_entries hp as)"
    and "p = (if as = [] then None else Some (last as))"
  shows "scan_back hp t cur p =
    Some (case newest t (eles_entries hp as) of None \<Rightarrow> cur | Some e \<Rightarrow> entry_pair e)"
  using assms
proof (induction as arbitrary: p rule: rev_induct)
  case Nil
  then show ?case by simp
next
  case (snoc a as)
  then obtain e where p: "p = Some a" and e: "hp a = Some e" and ok: "ele_ok e"
    and prev: "e_prevEle e = (if as = [] then None else Some (last as))"
    by (auto simp: back_links_append)
  from ok obtain n where n: "e_entryNum e = int n" "0 < n" "n \<le> length (e_lsnEntry e)"
    and ents: "ele_entries e = take n (e_lsnEntry e)" "ele_entries e \<noteq> []"
    and hd: "hd (ele_entries e) = e_lsnEntry e ! 0"
    by (rule ele_ok_facts)
  from snoc.prems e have sorted: "lsorted (ele_entries e)" "lsorted (eles_entries hp as)"
    by (auto simp: sorted_wrt_append)
  have IH: "scan_back hp t cur (e_prevEle e) =
      Some (case newest t (eles_entries hp as) of None \<Rightarrow> cur | Some e \<Rightarrow> entry_pair e)"
    using snoc prev sorted by (intro snoc.IH) (auto simp: back_links_append)
  from n have first: "arr_get (e_lsnEntry e) 0 = Some (hd (ele_entries e))"
    by (auto simp: hd arr_get_def)
  show ?case
  proof (cases "t < lsn (hd (ele_entries e))")
    case True
    with sorted have "newest t (ele_entries e) = None" by (intro newest_none) auto
    with True p e first IH show ?thesis by (simp add: newest_append)
  next
    case False
    from ents(2) have "hd (ele_entries e) \<in> set (ele_entries e)" by simp
    with False have "newest t (ele_entries e) \<noteq> None"
      by (auto simp: newest_def filter_empty_conv not_less)
    with FindLowerBound_newest [of n "e_lsnEntry e" t] sorted n ents False p e first
    show ?thesis by (auto simp: newest_append split: option.splits)
  qed
qed

text \<open>Collecting the records to replay from the element nodes.\<close>

lemma collect_eles_None [simp]: "collect_eles hp r t f acc None = Some acc"
  by (simp add: collect_eles.simps)

lemmas collect_eles_Some [simp] = collect_eles.simps [of _ _ _ _ _ "Some a" for a, simplified]

abbreviation window :: "u64 \<Rightarrow> u64 \<Rightarrow> LsnEntry list \<Rightarrow> u64 list" where
  "window r t es \<equiv> map lsn (filter (\<lambda>e. r < lsn e \<and> lsn e \<le> t) es)"

lemma window_above: "(\<And>e. e \<in> set es \<Longrightarrow> t < lsn e) \<Longrightarrow> window r t es = []"
  by (force simp: filter_empty_conv)

lemma window_drop:
  assumes "lsorted es"
  shows "map lsn (upto_lsn t (drop (count_le r es) es)) = window r t es"
  by (simp add: drop_count_le [OF assms] conj_commute)

lemma collect_eles_window:
  assumes "lseg e_nextEle hp p as None" "\<forall>a \<in> set as. ele_ok (the (hp a))"
    and "lsorted (eles_entries hp as)"
    and "f \<longrightarrow> (\<forall>e \<in> set (eles_entries hp as). r < lsn e)"
  shows "collect_eles hp r t f acc p = Some (acc @ window r t (eles_entries hp as))"
  using assms
proof (induction as arbitrary: p f acc)
  case Nil
  then show ?case by simp
next
  case (Cons a as)
  then obtain e where p: "p = Some a" and e: "hp a = Some e" and ok: "ele_ok e"
    and rest: "lseg e_nextEle hp (e_nextEle e) as None" by auto
  from ok obtain n where n: "e_entryNum e = int n" "0 < n" "n \<le> length (e_lsnEntry e)"
    and ents: "ele_entries e = take n (e_lsnEntry e)" "ele_entries e \<noteq> []"
    and mx: "e_maxLsn e = lsn (last (ele_entries e))"
    and hd: "hd (ele_entries e) = e_lsnEntry e ! 0"
    by (rule ele_ok_facts)
  from Cons.prems e have sorted: "lsorted (ele_entries e)" "lsorted (eles_entries hp as)"
    and sep: "\<And>x y. x \<in> set (ele_entries e) \<Longrightarrow> y \<in> set (eles_entries hp as) \<Longrightarrow> lsn x < lsn y"
    by (auto simp: sorted_wrt_append)
  have IH: "collect_eles hp r t f' acc' (e_nextEle e) = Some (acc' @ window r t (eles_entries hp as))"
    if "f' \<longrightarrow> (\<forall>e \<in> set (eles_entries hp as). r < lsn e)" for f' acc'
    using Cons rest sorted that by (intro Cons.IH) auto
  from n have first: "arr_get (e_lsnEntry e) 0 = Some (hd (ele_entries e))"
    by (auto simp: hd arr_get_def)
  consider (stop) "t < lsn (hd (ele_entries e))"
    | (skip) "lsn (hd (ele_entries e)) \<le> t" "e_maxLsn e < r"
    | (take) "lsn (hd (ele_entries e)) \<le> t" "r \<le> e_maxLsn e"
    by fastforce
  then show ?case
  proof cases
    case stop
    have "window r t (ele_entries e @ eles_entries hp as) = []"
    proof (rule window_above)
      fix y assume "y \<in> set (ele_entries e @ eles_entries hp as)"
      then have "lsn (hd (ele_entries e)) \<le> lsn y"
        using ents(2) sep [of "hd (ele_entries e)" y] lsorted_hd [OF sorted(1), of y]
        by (auto simp: less_imp_le)
      with stop show "t < lsn y" by simp
    qed
    with stop p e first show ?thesis by simp
  next
    case skip
    have "window r t (ele_entries e) = []"
      using skip mx lsorted_last [OF sorted(1)] by (force simp: filter_empty_conv)
    moreover from skip have "\<not> t < lsn (hd (ele_entries e))" by (simp add: not_less)
    ultimately show ?thesis using skip p e first IH [of f] Cons.prems(4) by auto
  next
    case take
    have above: "\<forall>y \<in> set (eles_entries hp as). r < lsn y"
      using sep ents mx take by (metis last_in_set le_less_trans)
    define i where "i = (if f then 0 else count_le r (ele_entries e))"
    have "i \<le> length (ele_entries e)" by (simp add: i_def)
    with ents n have i: "i \<le> n" by simp
    have start: "(if f then Some 0
        else do { i \<leftarrow> LsnListFindLowerBound r (e_lsnEntry e) (int n); Some (i + 1) }) = Some (int i)"
      using FindLowerBound_count [of n "e_lsnEntry e" r] sorted n ents by (simp add: i_def)
    have win: "map lsn (upto_lsn t (drop i (ele_entries e))) = window r t (ele_entries e)"
    proof (cases f)
      case True
      with Cons.prems(4) e have "\<forall>x \<in> set (ele_entries e). r < lsn x" by simp
      then have "upto_lsn t (ele_entries e) =
          filter (\<lambda>e. r < lsn e \<and> lsn e \<le> t) (ele_entries e)"
        by (intro filter_cong) auto
      with True show ?thesis by (simp add: i_def)
    next
      case False
      with window_drop [OF sorted(1)] show ?thesis by (simp add: i_def)
    qed
    have "collect (e_lsnEntry e) (int n) t (int i) acc = Some (acc @ window r t (ele_entries e))"
      using collect_sorted [of n "e_lsnEntry e" i t acc] sorted ents n i win by simp
    moreover from take have "\<not> t < lsn (hd (ele_entries e))" "\<not> e_maxLsn e < r"
      by (simp_all add: not_less)
    ultimately show ?thesis using p e first n start IH [of True] above
      by (cases f) auto
  qed
qed


section \<open>The two queries on a head node\<close>

text \<open>
  The specification of the queries on a chain \<open>es\<close> that is replayed up to \<open>r\<close>: the newest
  version not above the target, and the LSNs between the replayed one and the target.
\<close>

definition v_lower_bound :: "LsnEntry list \<Rightarrow> u64 \<Rightarrow> (u64 \<times> u32) option" where
  "v_lower_bound es t = map_option entry_pair (newest t es)"

definition v_replay_list :: "LsnEntry list \<Rightarrow> u64 \<Rightarrow> u64 \<Rightarrow> (u64 \<times> u64 list) option" where
  "v_replay_list es r t =
     (if t < r then map_option (\<lambda>e. (lsn e, [])) (newest t es) else Some (r, window r t es))"

lemma head_ok_sorted:
  assumes "head_ok hp h as"
  shows "lsorted (head_entries h)" "lsorted (eles_entries hp as)"
    and "x \<in> set (head_entries h) \<Longrightarrow> y \<in> set (eles_entries hp as) \<Longrightarrow> lsn x < lsn y"
  using assms by (auto simp: head_ok_def chain_def sorted_wrt_append)

lemma newest_in_head:
  assumes ok: "head_ok hp h as" and t: "t \<le> lsn (last (head_entries h))"
  shows "newest t (chain hp h as) = newest t (head_entries h)"
proof -
  obtain "head_entries h \<noteq> []" using ok by (rule head_ok_facts)
  then have "newest t (eles_entries hp as) = None"
    using t head_ok_sorted(3) [OF ok] by (intro newest_above) (metis last_in_set le_less_trans)
  then show ?thesis by (simp add: chain_def newest_append)
qed

lemma newest_beyond_head:
  assumes ok: "head_ok hp h as" and t: "lsn (last (head_entries h)) < t"
  shows "newest t (chain hp h as) =
    Some (case newest t (eles_entries hp as) of None \<Rightarrow> last (head_entries h) | Some e \<Rightarrow> e)"
proof -
  obtain "head_entries h \<noteq> []" using ok by (rule head_ok_facts)
  with t head_ok_sorted(1) [OF ok] have "newest t (head_entries h) = Some (last (head_entries h))"
    by (intro newest_all) auto
  then show ?thesis by (simp add: chain_def newest_append split: option.splits)
qed

lemma lower_bound_of_head_spec:
  assumes ok: "head_ok (eles m) h as"
  shows "lower_bound_of_head m h t = Some (v_lower_bound (chain (eles m) h as) t)"
proof -
  from ok obtain n where n: "entryNum h = int n" "0 < n" "n \<le> length (lsnEntry h)"
    and ents: "head_entries h = take n (lsnEntry h)"
    and last: "last (head_entries h) = lsnEntry h ! (n - 1)" and srt: "lsorted (take n (lsnEntry h))"
    by (rule head_ok_facts)
  from n last have get: "arr_get (lsnEntry h) (int n - 1) = Some (last (head_entries h))"
    by (simp add: nat_diff_distrib)
  show ?thesis
  proof (cases "t \<le> lsn (last (head_entries h))")
    case True
    with newest_in_head [OF ok] FindLowerBound_newest [OF srt n(2,3), of t] get n ents
    show ?thesis
      by (auto simp: lower_bound_of_head_def v_lower_bound_def split: option.splits)
  next
    case False
    have "scan_back (eles m) t cur (tailEle h) =
        Some (case newest t (eles_entries (eles m) as) of None \<Rightarrow> cur | Some e \<Rightarrow> entry_pair e)"
      for cur
      using ok head_ok_sorted(2) [OF ok] by (intro scan_back_newest) (auto simp: head_ok_def)
    with False newest_beyond_head [OF ok] get n show ?thesis
      by (auto simp: lower_bound_of_head_def v_lower_bound_def not_le split: option.splits)
  qed
qed

text \<open>The three early returns with an empty list agree with the window being empty.\<close>

lemma window_full: "lsorted es \<Longrightarrow> r = lsn (last es) \<Longrightarrow> window r t es = []"
  by (force simp: filter_empty_conv dest: lsorted_last)

lemma window_unreplayed:
  assumes "lsorted es" "1 < length es" "lsn (es ! 0) = 0" "t < lsn (es ! 1)"
  shows "window 0 t es = []"
proof -
  from assms(2) obtain x y zs where es: "es = x # y # zs"
    by (cases es; cases "tl es") auto
  with assms show ?thesis by (fastforce simp: filter_empty_conv)
qed

lemma collect_head_window:
  assumes ok: "head_ok (eles m) h as" and r: "replayedLsn h \<le> lsn (last (head_entries h))"
  shows "do { i \<leftarrow> LsnListFindLowerBound (replayedLsn h) (lsnEntry h) (entryNum h);
              acc \<leftarrow> collect (lsnEntry h) (entryNum h) t (i + 1) [];
              collect_eles (eles m) (replayedLsn h) t True acc (nextEle h) } =
         Some (window (replayedLsn h) t (chain (eles m) h as))"
proof -
  let ?r = "replayedLsn h"
  from ok obtain n where n: "entryNum h = int n" "0 < n" "n \<le> length (lsnEntry h)"
    and ents: "head_entries h = take n (lsnEntry h)" "head_entries h \<noteq> []"
    and srt: "lsorted (take n (lsnEntry h))"
    by (rule head_ok_facts)
  have "count_le ?r (take n (lsnEntry h)) \<le> length (take n (lsnEntry h))"
    by (rule length_filter_le)
  then have "count_le ?r (take n (lsnEntry h)) \<le> n" using n by simp
  then have "collect (lsnEntry h) (int n) t (int (count_le ?r (take n (lsnEntry h)))) [] =
      Some (window ?r t (head_entries h))"
    using collect_sorted [OF srt _ n(3), of "count_le ?r (take n (lsnEntry h))" t "[]"]
      window_drop [OF srt, of t ?r] ents n by simp
  moreover have "\<forall>e \<in> set (eles_entries (eles m) as). ?r < lsn e"
    using head_ok_sorted(3) [OF ok] r ents(2) by (metis last_in_set le_less_trans)
  then have "collect_eles (eles m) ?r t True acc (nextEle h) =
      Some (acc @ window ?r t (eles_entries (eles m) as))" for acc
    using ok head_ok_sorted(2) [OF ok] by (intro collect_eles_window) (auto simp: head_ok_def)
  ultimately show ?thesis
    using FindLowerBound_count [OF srt n(2,3), of ?r] n by (simp add: chain_def)
qed

lemma collect_eles_only:
  assumes ok: "head_ok (eles m) h as" and r: "lsn (last (head_entries h)) < replayedLsn h"
  shows "collect_eles (eles m) (replayedLsn h) t False [] (nextEle h) =
         Some (window (replayedLsn h) t (chain (eles m) h as))"
proof -
  have "window (replayedLsn h) t (head_entries h) = []"
    using r lsorted_last [OF head_ok_sorted(1) [OF ok]] by (force simp: filter_empty_conv)
  then show ?thesis
    using ok head_ok_sorted(2) [OF ok]
    by (subst collect_eles_window [where as = as]) (auto simp: head_ok_def chain_def)
qed


lemma replay_list_of_head_spec:
  assumes ok: "head_ok (eles m) h as"
  shows "replay_list_of_head m h t =
    Some (v_replay_list (chain (eles m) h as) (replayedLsn h) t)"
proof -
  let ?r = "replayedLsn h" and ?es = "chain (eles m) h as"
  from ok obtain n where n: "entryNum h = int n" "0 < n" "n \<le> length (lsnEntry h)"
    and ents: "head_entries h = take n (lsnEntry h)"
    and last: "last (head_entries h) = lsnEntry h ! (n - 1)" and srt: "lsorted (take n (lsnEntry h))"
    by (rule head_ok_facts)
  from n last have get: "arr_get (lsnEntry h) (int n - 1) = Some (last (head_entries h))"
    by (simp add: nat_diff_distrib)
  from ok have arr: "arr_get (lsnEntry h) 0 = Some (lsnEntry h ! 0)"
    "arr_get (lsnEntry h) 1 = Some (lsnEntry h ! 1)" and sorted: "lsorted ?es"
    and mx: "maxLsn h = lsn (last ?es)"
    by (auto simp: head_ok_def)
  consider (same) "?r = t" | (ahead) "t < ?r" | (behind) "?r < t" by fastforce
  then show ?thesis
  proof cases
    case same
    then have "window ?r t ?es = []" by (auto simp: filter_empty_conv)
    with same show ?thesis by (simp add: replay_list_of_head_def v_replay_list_def)
  next
    case ahead
    then have nz: "?r \<noteq> t" by simp
    show ?thesis
    proof (cases "t \<le> lsn (last (head_entries h))")
      case True
      with newest_in_head [OF ok] FindLowerBound_newest [OF srt n(2,3), of t] get n ents ahead nz
      show ?thesis
        by (auto simp: replay_list_of_head_def v_replay_list_def split: option.splits)
    next
      case False
      have "scan_replayed (eles m) t cur (nextEle h) =
          Some (case newest t (eles_entries (eles m) as) of None \<Rightarrow> cur | Some e \<Rightarrow> lsn e)" for cur
        using ok head_ok_sorted(2) [OF ok] by (intro scan_replayed_newest) (auto simp: head_ok_def)
      with False newest_beyond_head [OF ok] get n ahead nz show ?thesis
        by (auto simp: replay_list_of_head_def v_replay_list_def not_le split: option.splits)
    qed
  next
    case behind
    then have nb: "?r \<noteq> t" "\<not> t < ?r" by auto
    have spec: "v_replay_list ?es ?r t = Some (?r, window ?r t ?es)"
      using nb by (simp add: v_replay_list_def)
    show ?thesis
    proof (cases "?r = maxLsn h")
      case True
      with window_full [OF sorted, of ?r t] mx nb spec show ?thesis
        by (simp add: replay_list_of_head_def)
    next
      case notmax: False
      show ?thesis
      proof (cases "?r = 0 \<and> 1 < n \<and> lsn (lsnEntry h ! 0) = 0 \<and> t < lsn (lsnEntry h ! 1)")
        case True
        have "window 0 t ?es = []"
          using True n ents sorted
          by (intro window_unreplayed) (auto simp: chain_def nth_append head_entries_def)
        with True nb notmax arr n spec show ?thesis
          by (simp add: replay_list_of_head_def)
      next
        case False
        with nb notmax arr n spec get collect_head_window [OF ok, of t] collect_eles_only [OF ok, of t]
        show ?thesis
          by (auto simp: replay_list_of_head_def not_le)
      qed
    qed
  qed
qed

end
