(* ===== verification/VersionAppend.thy ===== *)
theory VersionAppend
  imports VersionChain
begin

text \<open>
  Growing one chain: the five ways in which \<open>HashMapInsertKey\<close> records an LSN for a key that is
  already present (a new page number for the newest LSN, in the head or in the tail node; a free
  slot of the head; a free slot of the tail; a new tail node), each against the list operation it
  implements.
\<close>

section \<open>Specification\<close>

definition v_append :: "LsnEntry list \<Rightarrow> u64 \<Rightarrow> u32 \<Rightarrow> LsnEntry list" where
  "v_append es l pn =
     (if l < lsn (last es) then es
      else if l = lsn (last es) then butlast es @ [(last es)\<lparr>pageNum := pn\<rparr>]
      else es @ [\<lparr>lsn = l, pageNum = pn\<rparr>])"

lemma map_lsn_repage:
  "es \<noteq> [] \<Longrightarrow> map lsn (butlast es @ [(last es)\<lparr>pageNum := pn\<rparr>]) = map lsn es"
  by (induction es) auto

lemma v_append_sorted: "lsorted es \<Longrightarrow> es \<noteq> [] \<Longrightarrow> lsorted (v_append es l pn)"
proof -
  assume s: "lsorted es" and ne: "es \<noteq> []"
  have "lsn e < l" if "lsn (last es) < l" "e \<in> set es" for e
    using lsorted_last [OF s that(2)] that(1) by simp
  with s ne map_lsn_repage [OF ne, of pn] show ?thesis
    by (auto simp: v_append_def sorted_wrt_append not_less)
qed

lemma v_append_newer: "lsn (last es) < l \<Longrightarrow> v_append es l pn = es @ [\<lparr>lsn = l, pageNum = pn\<rparr>]"
  by (auto simp: v_append_def)

lemma v_append_nonempty: "es \<noteq> [] \<Longrightarrow> v_append es l pn \<noteq> []"
  by (simp add: v_append_def)

lemma v_append_last:
  "es \<noteq> [] \<Longrightarrow> lsn (last es) \<le> l \<Longrightarrow> lsn (last (v_append es l pn)) = l"
  by (auto simp: v_append_def not_less)

section \<open>Rewriting an array\<close>

lemma repage_take:
  assumes "0 < n" "n \<le> length xs"
  shows "take n (xs[n - 1 := (xs ! (n - 1))\<lparr>pageNum := pn\<rparr>]) =
    butlast (take n xs) @ [(last (take n xs))\<lparr>pageNum := pn\<rparr>]"
  using take_update_last [OF assms, of "(xs ! (n - 1))\<lparr>pageNum := pn\<rparr>"] assms
  by (simp add: last_take_nth)

lemma chain_nonempty: "head_ok E h as \<Longrightarrow> chain E h as \<noteq> []"
  by (auto simp: chain_def elim: head_ok_facts)

lemma head_ok_last_chain:
  assumes "head_ok E h as"
  shows "last (chain E h as) =
    (if as = [] then last (head_entries h) else last (ele_entries (the (E (last as)))))"
proof (cases as rule: rev_cases)
  case (snoc bs t)
  with assms have "ele_ok (the (E t))" by (simp add: head_ok_def)
  then obtain "ele_entries (the (E t)) \<noteq> []" by (rule ele_ok_facts)
  with snoc show ?thesis by (simp add: chain_def)
qed (simp add: chain_def)

section \<open>In the head node\<close>

lemma head_ok_repage_head:
  assumes ok: "head_ok E h []"
    and h': "h' = h\<lparr>lsnEntry := (lsnEntry h)[nat (entryNum h) - 1 :=
      (lsnEntry h ! (nat (entryNum h) - 1))\<lparr>pageNum := pn\<rparr>]\<rparr>"
  shows "head_ok E h' []" and "chain E h' [] = v_append (chain E h []) (maxLsn h) pn"
proof -
  have mx: "maxLsn h = lsn (last (head_entries h))" using ok by (simp add: head_ok_def chain_def)
  have ents: "head_entries h' = butlast (head_entries h) @ [(last (head_entries h))\<lparr>pageNum := pn\<rparr>]"
    using ok h' repage_take [of "nat (entryNum h)" "lsnEntry h" pn]
    by (auto simp: head_ok_def head_entries_def)
  then show eq: "chain E h' [] = v_append (chain E h []) (maxLsn h) pn"
    by (simp add: chain_def v_append_def mx)
  have "lsorted (chain E h' [])" "lsn (last (chain E h' [])) = maxLsn h"
    unfolding eq using ok chain_nonempty [OF ok]
    by (simp_all add: head_ok_def v_append_sorted v_append_last)
  with ok show "head_ok E h' []" by (simp add: head_ok_def h')
qed

lemma head_ok_append_head:
  assumes ok: "head_ok E h as" and room: "entryNum h < HASH_HEAD_NUM" and l: "maxLsn h < l"
    and h': "h' = h\<lparr>lsnEntry := (lsnEntry h)[nat (entryNum h) := \<lparr>lsn = l, pageNum = pn\<rparr>],
      entryNum := entryNum h + 1, maxLsn := l\<rparr>"
  shows "as = []" and "head_ok E h' as" and "chain E h' as = v_append (chain E h as) l pn"
proof -
  show as: "as = []" using ok room by (auto simp: head_ok_def)
  have mx: "maxLsn h = lsn (last (head_entries h))" using ok as by (simp add: head_ok_def chain_def)
  have "nat (entryNum h + 1) = Suc (nat (entryNum h))" using ok by (auto simp: head_ok_def)
  then have ents: "head_entries h' = head_entries h @ [\<lparr>lsn = l, pageNum = pn\<rparr>]"
    using ok room h' take_update_snoc [of "nat (entryNum h)" "lsnEntry h"]
    by (simp add: head_ok_def head_entries_def)
  with l show eq: "chain E h' as = v_append (chain E h as) l pn"
    by (auto simp: chain_def v_append_def mx as)
  have "lsorted (chain E h' as)" "lsn (last (chain E h' as)) = l"
    unfolding eq using ok chain_nonempty [OF ok] l
    by (simp_all add: head_ok_def v_append_sorted v_append_last)
  with ok as room show "head_ok E h' as" by (simp add: head_ok_def h')
qed

section \<open>In the tail node\<close>

text \<open>A tail node whose entries change, its links staying.\<close>

lemma head_ok_tail_update:
  assumes ok: "head_ok E h (bs @ [t])" and t: "E t = Some e"
    and e': "ele_ok e'" "e_nextEle e' = e_nextEle e" "e_prevEle e' = e_prevEle e"
    and h': "h' = h\<lparr>maxLsn := l\<rparr>"
    and ents: "head_entries h @ eles_entries E bs @ ele_entries e' = v_append (chain E h (bs @ [t])) l pn"
    and l: "maxLsn h \<le> l"
  shows "head_ok (E(t \<mapsto> e')) h' (bs @ [t])"
    and "chain (E(t \<mapsto> e')) h' (bs @ [t]) = v_append (chain E h (bs @ [t])) l pn"
proof -
  have seg: "lseg e_nextEle E (nextEle h) (bs @ [t]) None" using ok by (simp add: head_ok_def)
  then have "t \<notin> set bs" using lseg_distinct by fastforce
  then show eq: "chain (E(t \<mapsto> e')) h' (bs @ [t]) = v_append (chain E h (bs @ [t])) l pn"
    using ents by (simp add: chain_def h' head_entries_def)
  have "lsorted (chain (E(t \<mapsto> e')) h' (bs @ [t]))" "lsn (last (chain (E(t \<mapsto> e')) h' (bs @ [t]))) = l"
    unfolding eq using ok chain_nonempty [OF ok] l
    by (simp_all add: head_ok_def v_append_sorted v_append_last)
  moreover have "lseg e_nextEle (E(t \<mapsto> e')) (nextEle h) (bs @ [t]) None"
    using seg t e' by (subst lseg_same_link) auto
  moreover have "back_links e_prevEle (E(t \<mapsto> e')) None (bs @ [t])"
    using ok t e' by (subst back_links_same) (auto simp: head_ok_def)
  ultimately show "head_ok (E(t \<mapsto> e')) h' (bs @ [t])"
    using ok e' by (simp add: head_ok_def h')
qed

lemma head_ok_tail:
  assumes "head_ok E h as" "as \<noteq> []"
  obtains bs t e where "as = bs @ [t]" "tailEle h = Some t" "E t = Some e" "ele_ok e"
    "maxLsn h = e_maxLsn e" "chain E h as = head_entries h @ eles_entries E bs @ ele_entries e"
    "e_nextEle e = None"
proof -
  from assms(2) obtain bs t where as: "as = bs @ [t]" by (cases as rule: rev_cases) auto
  with assms obtain e where e: "E t = Some e" "e_nextEle e = None"
    by (auto simp: head_ok_def lseg_append)
  with as assms have ok: "ele_ok e" by (simp add: head_ok_def)
  with as assms e head_ok_last_chain [OF assms(1)] show thesis
    by (intro that [of bs t e]) (auto simp: head_ok_def ele_ok_def chain_def)
qed

lemma head_ok_repage_tail:
  assumes ok: "head_ok E h (bs @ [t])" and t: "E t = Some e"
    and e': "e' = e\<lparr>e_lsnEntry := (e_lsnEntry e)[nat (e_entryNum e) - 1 :=
      (e_lsnEntry e ! (nat (e_entryNum e) - 1))\<lparr>pageNum := pn\<rparr>]\<rparr>"
  shows "head_ok (E(t \<mapsto> e')) h (bs @ [t])"
    and "chain (E(t \<mapsto> e')) h (bs @ [t]) = v_append (chain E h (bs @ [t])) (maxLsn h) pn"
proof -
  have eok: "ele_ok e" and mx: "maxLsn h = lsn (last (ele_entries e))"
    using ok t head_ok_last_chain [OF ok] by (auto simp: head_ok_def)
  obtain ne: "ele_entries e \<noteq> []" using eok by (rule ele_ok_facts)
  have ents: "ele_entries e' = butlast (ele_entries e) @ [(last (ele_entries e))\<lparr>pageNum := pn\<rparr>]"
    using eok e' repage_take [of "nat (e_entryNum e)" "e_lsnEntry e" pn]
    by (auto simp: ele_ok_def ele_entries_def)
  then have "ele_ok e'" using eok e' by (simp add: ele_ok_def)
  moreover have "head_entries h @ eles_entries E bs @ ele_entries e' =
      v_append (chain E h (bs @ [t])) (maxLsn h) pn"
    using ents ne t mx by (simp add: v_append_def chain_def butlast_append)
  ultimately show "head_ok (E(t \<mapsto> e')) h (bs @ [t])"
    "chain (E(t \<mapsto> e')) h (bs @ [t]) = v_append (chain E h (bs @ [t])) (maxLsn h) pn"
    using head_ok_tail_update [OF ok t, of e' h "maxLsn h" pn] e' by auto
qed

lemma head_ok_append_tail:
  assumes ok: "head_ok E h (bs @ [t])" and t: "E t = Some e" and room: "e_entryNum e < HASH_ELEM_NUM"
    and l: "maxLsn h < l"
    and e': "e' = e\<lparr>e_lsnEntry := (e_lsnEntry e)[nat (e_entryNum e) := \<lparr>lsn = l, pageNum = pn\<rparr>],
      e_entryNum := e_entryNum e + 1, e_maxLsn := l\<rparr>"
  shows "head_ok (E(t \<mapsto> e')) (h\<lparr>maxLsn := l\<rparr>) (bs @ [t])"
    and "chain (E(t \<mapsto> e')) (h\<lparr>maxLsn := l\<rparr>) (bs @ [t]) = v_append (chain E h (bs @ [t])) l pn"
proof -
  have eok: "ele_ok e" and mx: "maxLsn h = lsn (last (ele_entries e))"
    using ok t head_ok_last_chain [OF ok] by (auto simp: head_ok_def)
  obtain ne: "ele_entries e \<noteq> []" using eok by (rule ele_ok_facts)
  have "nat (e_entryNum e + 1) = Suc (nat (e_entryNum e))" using eok by (auto simp: ele_ok_def)
  then have ents: "ele_entries e' = ele_entries e @ [\<lparr>lsn = l, pageNum = pn\<rparr>]"
    using eok room e' take_update_snoc [of "nat (e_entryNum e)" "e_lsnEntry e"]
    by (auto simp: ele_ok_def ele_entries_def)
  then have "ele_ok e'" using eok e' room by (auto simp: ele_ok_def)
  moreover have "head_entries h @ eles_entries E bs @ ele_entries e' = v_append (chain E h (bs @ [t])) l pn"
    using ents ne t mx l by (auto simp: v_append_def chain_def)
  ultimately show "head_ok (E(t \<mapsto> e')) (h\<lparr>maxLsn := l\<rparr>) (bs @ [t])"
    "chain (E(t \<mapsto> e')) (h\<lparr>maxLsn := l\<rparr>) (bs @ [t]) = v_append (chain E h (bs @ [t])) l pn"
    using head_ok_tail_update [OF ok t, of e' "h\<lparr>maxLsn := l\<rparr>" l pn] e' l by auto
qed

section \<open>A new tail node\<close>

interpretation ele_node: linked_node e_nextEle "\<lambda>p e. e\<lparr>e_nextEle := p\<rparr>"
  by unfold_locales simp

lemma new_ele_ok [simp]:
  "ele_ok (new_ele blk l pn prev)" "ele_entries (new_ele blk l pn prev) = [\<lparr>lsn = l, pageNum = pn\<rparr>]"
  "e_nextEle (new_ele blk l pn prev) = None" "e_prevEle (new_ele blk l pn prev) = prev"
  by (simp_all add: ele_ok_def new_ele_def ele_entries_def upt_rec)

lemma ele_link_irrelevant [simp]:
  "ele_entries (e\<lparr>e_nextEle := q\<rparr>) = ele_entries e" "ele_ok (e\<lparr>e_nextEle := q\<rparr>) = ele_ok e"
  by (simp_all add: ele_entries_def ele_ok_def)

lemma head_ok_new_tail:
  assumes ok: "head_ok E h as" and full: "entryNum h = HASH_HEAD_NUM" and l: "maxLsn h < l"
    and n: "E n = None" and e: "e = new_ele blk l pn (tailEle h)"
    and E': "E' = (case tailEle h of None \<Rightarrow> E(n \<mapsto> e)
      | Some t \<Rightarrow> E(n \<mapsto> e, t \<mapsto> (the (E t))\<lparr>e_nextEle := Some n\<rparr>))"
    and h': "h' = h\<lparr>maxLsn := l, nextEle := (if as = [] then Some n else nextEle h), tailEle := Some n\<rparr>"
  shows "head_ok E' h' (as @ [n])" and "chain E' h' (as @ [n]) = v_append (chain E h as) l pn"
proof -
  have seg: "lseg e_nextEle E (nextEle h) as None" and tail: "tailEle h = (if as = [] then None else Some (last as))"
    using ok by (auto simp: head_ok_def)
  have n_as: "n \<notin> set as" using lseg_alloc [OF seg, of n] n by auto
  have same: "ele_entries (the (E' a)) = ele_entries (the (E a)) \<and>
      ele_ok (the (E' a)) = ele_ok (the (E a)) \<and>
      map_option e_prevEle (E' a) = map_option e_prevEle (E a)" if "a \<in> set as" for a
    using that n_as tail E' lseg_alloc [OF seg, of "last as"] by (cases "as = []") auto
  have En: "E' n = Some e" using n_as tail E' by (cases as rule: rev_cases) auto
  have ents: "eles_entries E' as = eles_entries E as" by (rule eles_entries_cong) (simp add: same)
  have "l \<noteq> lsn (last (chain E h as))" "\<not> l < lsn (last (chain E h as))"
    using ok l by (auto simp: head_ok_def)
  then show eq: "chain E' h' (as @ [n]) = v_append (chain E h as) l pn"
    using ents e En by (simp add: chain_def v_append_def h' head_entries_def)
  have "lsorted (chain E' h' (as @ [n]))" "lsn (last (chain E' h' (as @ [n]))) = l"
    unfolding eq using ok chain_nonempty [OF ok] l
    by (simp_all add: head_ok_def v_append_sorted v_append_last)
  moreover have "lseg e_nextEle E' (nextEle h') (as @ [n]) None"
  proof (cases as rule: rev_cases)
    case Nil
    with tail E' e h' show ?thesis by simp
  next
    case (snoc bs t)
    with seg obtain et where "E t = Some et" by (auto simp: lseg_append)
    with ele_node.lseg_snoc [of E "nextEle h" bs t et n e] snoc seg n_as tail E' e h'
    show ?thesis by simp
  qed
  moreover have "back_links e_prevEle E' None as = back_links e_prevEle E None as"
    by (rule back_links_cong) (simp add: same)
  then have "back_links e_prevEle E' None (as @ [n])"
    using ok En e tail by (simp add: back_links_append head_ok_def)
  ultimately show "head_ok E' h' (as @ [n])"
    using ok En e full same by (auto simp: head_ok_def h')
qed

end
