(* ===== verification/VersionStore.thy ===== *)
theory VersionStore
  imports VersionAppend
begin

text \<open>
  The page version map as a whole. \<open>hm_ok\<close> is the invariant of the pointer structure,
  \<open>versions\<close> its meaning: a partial map from keys to version chains. Every operation of
  \<open>logindex_hashmap.cpp\<close> is shown to return on a well-formed map whose locks are free, to
  keep the invariant, and to act on the meaning as its specification says.
\<close>

section \<open>Invariant and abstraction\<close>

definition head_list :: "HashMap \<Rightarrow> nat \<Rightarrow> addr list" where
  "head_list m i = the (addrs nextHead (heads m) (nodeList (bucketList m ! i)))"

definition ele_list :: "HashMap \<Rightarrow> HashNodeHead \<Rightarrow> addr list" where
  "ele_list m h = the (addrs e_nextEle (eles m) (nextEle h))"

text \<open>
  The \<open>prevHead\<close> links are only hints: each is the predecessor or \<open>NULL\<close>, because moving a node
  to the front does not set the link of the node that was first before.
\<close>

primrec back_hints :: "('n \<Rightarrow> ptr) \<Rightarrow> (addr \<rightharpoonup> 'n) \<Rightarrow> ptr \<Rightarrow> addr list \<Rightarrow> bool" where
  "back_hints prv hp p [] = True"
| "back_hints prv hp p (a # as) =
     (map_option prv (hp a) \<in> {Some p, Some None} \<and> back_hints prv hp (Some a) as)"

definition key_slot :: "HashMap \<Rightarrow> KeyType \<Rightarrow> nat" where
  "key_slot m k = unat (HashKey k mod bucketNum m)"

definition bucket_ok :: "HashMap \<Rightarrow> nat \<Rightarrow> addr list \<Rightarrow> bool" where
  "bucket_ok m i as \<longleftrightarrow>
     lseg nextHead (heads m) (nodeList (bucketList m ! i)) as None \<and>
     back_hints prevHead (heads m) None as \<and>
     (\<forall>a \<in> set as. \<exists>h. heads m a = Some h \<and> bucket h = i \<and>
        hashValue h = HashKey (key h) \<and> key_slot m (key h) = i) \<and>
     inj_on (\<lambda>a. key (the (heads m a))) (set as)"

definition hm_ok :: "HashMap \<Rightarrow> bool" where
  "hm_ok m \<longleftrightarrow>
     bucketNum m \<noteq> 0 \<and> length (bucketList m) = unat (bucketNum m) \<and>
     (\<forall>i < length (bucketList m). bucket_ok m i (head_list m i)) \<and>
     (\<forall>a h. heads m a = Some h \<longrightarrow>
        bucket h < length (bucketList m) \<and> a \<in> set (head_list m (bucket h)) \<and>
        head_ok (eles m) h (ele_list m h)) \<and>
     (\<forall>x \<in> dom (eles m). \<exists>a h. heads m a = Some h \<and> x \<in> set (ele_list m h)) \<and>
     (\<forall>a h b g. heads m a = Some h \<longrightarrow> heads m b = Some g \<longrightarrow> a \<noteq> b \<longrightarrow>
        set (ele_list m h) \<inter> set (ele_list m g) = {})"

text \<open>The state of the locks, apart from the data they protect.\<close>

definition bucket_locks :: "HashMap \<Rightarrow> rwlock list" where
  "bucket_locks m = map bucketLock (bucketList m)"

definition head_locks :: "HashMap \<Rightarrow> addr \<rightharpoonup> rwlock" where
  "head_locks m a = map_option headLock (heads m a)"

definition locks_free :: "HashMap \<Rightarrow> bool" where
  "locks_free m \<longleftrightarrow> set (bucket_locks m) \<subseteq> {Unlocked} \<and> ran (head_locks m) \<subseteq> {Unlocked}"

definition locate :: "HashMap \<Rightarrow> KeyType \<Rightarrow> ptr" where
  "locate m k = find (\<lambda>a. key (the (heads m a)) = k) (head_list m (key_slot m k))"

definition head_version :: "HashMap \<Rightarrow> HashNodeHead \<Rightarrow> LsnEntry list \<times> u64" where
  "head_version m h = (chain (eles m) h (ele_list m h), replayedLsn h)"

definition versions :: "HashMap \<Rightarrow> KeyType \<rightharpoonup> LsnEntry list \<times> u64" where
  "versions m k = map_option (\<lambda>a. head_version m (the (heads m a))) (locate m k)"

lemma KeyMatch_eq [simp]: "KeyMatch k1 k2 \<longleftrightarrow> k1 = k2"
  by (auto simp: KeyMatch_def)

lemma head_ok_ele_list: "head_ok (eles m) h es \<Longrightarrow> ele_list m h = es"
  by (auto simp: head_ok_def ele_list_def dest: lseg_addrs)

lemma bucket_ok_head_list: "bucket_ok m i as \<Longrightarrow> head_list m i = as"
  by (auto simp: bucket_ok_def head_list_def dest: lseg_addrs)

lemma hm_okI:
  assumes "bucketNum m \<noteq> 0" "length (bucketList m) = unat (bucketNum m)"
    and bs: "\<And>i. i < length (bucketList m) \<Longrightarrow> \<exists>as. bucket_ok m i as"
    and reach: "\<And>a h. heads m a = Some h \<Longrightarrow>
      bucket h < length (bucketList m) \<and> a \<in> set (head_list m (bucket h))"
    and hs: "\<And>a h. heads m a = Some h \<Longrightarrow> \<exists>es. head_ok (eles m) h es"
    and "\<And>x. x \<in> dom (eles m) \<Longrightarrow> \<exists>a h. heads m a = Some h \<and> x \<in> set (ele_list m h)"
    and "\<And>a h b g. heads m a = Some h \<Longrightarrow> heads m b = Some g \<Longrightarrow> a \<noteq> b \<Longrightarrow>
      set (ele_list m h) \<inter> set (ele_list m g) = {}"
  shows "hm_ok m"
proof -
  have "bucket_ok m i (head_list m i)" if "i < length (bucketList m)" for i
    using bs [OF that] by (auto simp: bucket_ok_head_list)
  moreover have "head_ok (eles m) h (ele_list m h)" if "heads m a = Some h" for a h
    using hs [OF that] by (auto simp: head_ok_ele_list)
  ultimately show ?thesis unfolding hm_ok_def using assms(1,2,4,6,7) by blast
qed

lemma hm_okD:
  assumes "hm_ok m"
  shows "bucketNum m \<noteq> 0" "length (bucketList m) = unat (bucketNum m)"
    "i < length (bucketList m) \<Longrightarrow> bucket_ok m i (head_list m i)"
    "heads m a = Some h \<Longrightarrow> head_ok (eles m) h (ele_list m h)"
    "heads m a = Some h \<Longrightarrow> bucket h < length (bucketList m)"
    "heads m a = Some h \<Longrightarrow> a \<in> set (head_list m (bucket h))"
    "x \<in> dom (eles m) \<Longrightarrow> \<exists>a h. heads m a = Some h \<and> x \<in> set (ele_list m h)"
    "heads m a = Some h \<Longrightarrow> heads m b = Some g \<Longrightarrow> a \<noteq> b \<Longrightarrow>
      set (ele_list m h) \<inter> set (ele_list m g) = {}"
  using assms unfolding hm_ok_def by blast+

lemma key_slot_bound: "hm_ok m \<Longrightarrow> key_slot m k < length (bucketList m)"
  by (simp add: hm_okD(2) key_slot_def hm_okD(1) word_mod_less_divisor word_gt_0 flip: word_less_nat_alt)

lemma bucketPos_ok: "hm_ok m \<Longrightarrow> bucketPos m k = Some (key_slot m k)"
  by (simp add: bucketPos_def hm_okD(1) key_slot_def)

text \<open>A head in a bucket list is found under its key, and only there.\<close>

lemma locate_head:
  assumes ok: "hm_ok m" and i: "i < length (bucketList m)" and a: "a \<in> set (head_list m i)"
    and h: "heads m a = Some h"
  shows "locate m (key h) = Some a"
proof -
  from hm_okD(3) [OF ok i] a h have i_eq: "key_slot m (key h) = i"
    and inj: "inj_on (\<lambda>a. key (the (heads m a))) (set (head_list m i))"
    by (auto simp: bucket_ok_def)
  show ?thesis
    unfolding locate_def i_eq using a h inj by (intro find_unique) (auto simp: inj_on_def)
qed

lemma locateD:
  assumes ok: "hm_ok m" and loc: "locate m k = Some a"
  obtains h where "heads m a = Some h" "key h = k" "a \<in> set (head_list m (key_slot m k))"
    "bucket h = key_slot m k"
proof -
  from loc have a: "a \<in> set (head_list m (key_slot m k))" and k: "key (the (heads m a)) = k"
    unfolding locate_def by (auto dest: find_Some_in)
  from hm_okD(3) [OF ok key_slot_bound [OF ok]] a obtain h where "heads m a = Some h"
    "bucket h = key_slot m k"
    by (auto simp: bucket_ok_def)
  with a k show thesis by (intro that) auto
qed

lemma locate_known: "hm_ok m \<Longrightarrow> heads m a = Some h \<Longrightarrow> locate m (key h) = Some a"
  by (rule locate_head [OF _ hm_okD(5,6)])

lemma locate_iff: "hm_ok m \<Longrightarrow> locate m k = Some a \<longleftrightarrow> (\<exists>h. heads m a = Some h \<and> key h = k)"
  by (blast intro: locate_known elim: locateD)

lemma versions_iff:
  "hm_ok m \<Longrightarrow> versions m k = Some v \<longleftrightarrow>
     (\<exists>a h. heads m a = Some h \<and> key h = k \<and> v = head_version m h)"
  by (auto simp: versions_def locate_iff) (metis locate_known option.sel)

text \<open>A head is determined by its key.\<close>

lemma head_unique:
  assumes "hm_ok m" "heads m a = Some h" "heads m b = Some g" "key h = key g"
  shows "a = b"
  using locate_known [OF assms(1,2)] locate_known [OF assms(1,3)] assms(4) by simp

lemma option_eqI: "(\<And>a. x = Some a \<longleftrightarrow> y = Some a) \<Longrightarrow> x = y"
  by (metis option.exhaust)

section \<open>The bucket search\<close>

lemma find_head_None [simp]: "find_head hp hv k None = Some None"
  by (simp add: find_head.simps)

lemmas find_head_Some [simp] = find_head.simps [of _ _ _ "Some a" for a, simplified]

lemma find_head_find:
  assumes "lseg nextHead hp p as None"
    and "\<forall>a \<in> set as. hashValue (the (hp a)) = HashKey (key (the (hp a)))"
  shows "find_head hp (HashKey k) k p = Some (find (\<lambda>a. key (the (hp a)) = k) as)"
  using assms
proof (induction as arbitrary: p)
  case Nil
  then show ?case by simp
next
  case (Cons a as)
  then obtain h where p: "p = Some a" and h: "hp a = Some h" "hashValue h = HashKey (key h)"
    and rest: "lseg nextHead hp (nextHead h) as None" by auto
  have "find_head hp (HashKey k) k (nextHead h) = Some (find (\<lambda>a. key (the (hp a)) = k) as)"
    using Cons rest by auto
  with p h show ?case by auto
qed

lemma get_bucket_ok: "pos < length (bucketList m) \<Longrightarrow> get_bucket m pos = Some (bucketList m ! pos)"
  by (simp add: get_bucket_def)

lemma bucket_search_locate:
  assumes ok: "hm_ok m"
  shows "bucket_search m (key_slot m k) k = Some (locate m k)"
proof -
  let ?i = "key_slot m k"
  note i = key_slot_bound [OF ok, of k]
  from hm_okD(3) [OF ok i] have "lseg nextHead (heads m) (nodeList (bucketList m ! ?i)) (head_list m ?i) None"
    "\<forall>a \<in> set (head_list m ?i). hashValue (the (heads m a)) = HashKey (key (the (heads m a)))"
    by (auto simp: bucket_ok_def)
  from find_head_find [OF this] show ?thesis
    by (simp add: bucket_search_def get_bucket_ok [OF i] locate_def)
qed

lemma bucket_lists_disjoint:
  assumes "hm_ok m" "i < length (bucketList m)" "j < length (bucketList m)" "i \<noteq> j"
  shows "set (head_list m i) \<inter> set (head_list m j) = {}"
  using hm_okD(3) [OF assms(1,2)] hm_okD(3) [OF assms(1,3)] assms(4)
  by (fastforce simp: bucket_ok_def)

section \<open>Changes that keep the meaning\<close>

text \<open>
  Two maps with the same content: links between heads and lock states may differ. Locking,
  unlocking and moving a node to the front of its bucket are such changes.
\<close>

definition head_content where
  "head_content h = (key h, hashValue h, bucket h, lsnEntry h, maxLsn h, entryNum h,
     replayedLsn h, nextEle h, tailEle h)"

definition same_content :: "HashMap \<Rightarrow> HashMap \<Rightarrow> bool" where
  "same_content m m' \<longleftrightarrow>
     bucketNum m' = bucketNum m \<and> length (bucketList m') = length (bucketList m) \<and>
     eles m' = eles m \<and>
     (\<forall>a. map_option head_content (heads m' a) = map_option head_content (heads m a))"

lemma map_option_eq_SomeD:
  "map_option f x = map_option f y \<Longrightarrow> x = Some a \<Longrightarrow> \<exists>b. y = Some b \<and> f b = f a"
  by (cases y) auto

lemma head_ok_content:
  assumes "head_content h' = head_content h"
  shows "head_ok E h' es = head_ok E h es" "chain E h' es = chain E h es"
  using assms by (auto simp: head_ok_def head_content_def chain_def head_entries_def)

lemma same_content_hm_ok:
  assumes ok: "hm_ok m" and same: "same_content m m'"
    and bs: "\<And>i. i < length (bucketList m) \<Longrightarrow>
      \<exists>as. bucket_ok m' i as \<and> set as = set (head_list m i)"
  shows "hm_ok m'" and "locate m' = locate m" and "versions m' = versions m"
proof -
  have len: "length (bucketList m') = length (bucketList m)" and num: "bucketNum m' = bucketNum m"
    and eles: "eles m' = eles m"
    and cont: "\<And>a. map_option head_content (heads m' a) = map_option head_content (heads m a)"
    using same by (auto simp: same_content_def)
  have old: "\<exists>h. heads m a = Some h \<and> head_content h = head_content h'" if "heads m' a = Some h'" for a h'
    using map_option_eq_SomeD [OF cont that] by simp
  have new: "\<exists>h'. heads m' a = Some h' \<and> head_content h' = head_content h" if "heads m a = Some h" for a h
    using map_option_eq_SomeD [OF cont [symmetric] that] by simp
  have el: "ele_list m' h' = ele_list m h" if "head_content h = head_content h'" for h h'
    using that eles by (simp add: ele_list_def head_content_def)
  have set_list: "set (head_list m' i) = set (head_list m i)" if "i < length (bucketList m)" for i
    using bs [OF that] by (metis bucket_ok_head_list)
  show ok': "hm_ok m'"
  proof (rule hm_okI)
    show "bucketNum m' \<noteq> 0" "length (bucketList m') = unat (bucketNum m')"
      using hm_okD(1,2) [OF ok] num len by auto
    show "\<exists>as. bucket_ok m' i as" if "i < length (bucketList m')" for i
      using bs that len by auto
    show "bucket h < length (bucketList m') \<and> a \<in> set (head_list m' (bucket h))"
      if h: "heads m' a = Some h" for a h
    proof -
      obtain g where "heads m a = Some g" "bucket g = bucket h"
        using old [OF h] by (auto simp: head_content_def)
      with hm_okD(5,6) [OF ok, of a g] set_list len show ?thesis by simp
    qed
    show "\<exists>es. head_ok (eles m') h es" if "heads m' a = Some h" for a h
      using old [OF that] hm_okD(4) [OF ok] eles head_ok_content(1) by metis
    show "\<exists>a h. heads m' a = Some h \<and> x \<in> set (ele_list m' h)" if "x \<in> dom (eles m')" for x
      using hm_okD(7) [OF ok, of x] that eles new el by metis
    show "set (ele_list m' h) \<inter> set (ele_list m' g) = {}"
      if "heads m' a = Some h" "heads m' b = Some g" "a \<noteq> b" for a b h g
      using old [OF that(1)] old [OF that(2)] hm_okD(8) [OF ok _ _ that(3)] el by metis
  qed
  have iff: "(\<exists>h. heads m' a = Some h \<and> key h = k) \<longleftrightarrow> (\<exists>h. heads m a = Some h \<and> key h = k)" for a k
    using cont [of a] by (cases "heads m a"; cases "heads m' a") (auto simp: head_content_def)
  show loc: "locate m' = locate m"
    by (intro ext option_eqI) (simp add: locate_iff ok ok' iff)
  have ver: "head_version m' h' = head_version m h" if "head_content h' = head_content h" for h h'
    using that el [of h h'] head_ok_content(2) [OF that] eles
    by (simp add: head_version_def head_content_def)
  show "versions m' = versions m"
  proof
    fix k
    show "versions m' k = versions m k"
    proof (cases "locate m k")
      case None
      with loc show ?thesis by (simp add: versions_def)
    next
      case (Some a)
      then obtain h where h: "heads m a = Some h" by (rule locateD [OF ok])
      from new [OF h] obtain h' where "heads m' a = Some h'" "head_content h' = head_content h" by auto
      with loc Some h ver [of h' h] show ?thesis by (simp add: versions_def)
    qed
  qed
qed

text \<open>What the well-formedness of a bucket list depends on.\<close>

definition head_index where
  "head_index h = (nextHead h, prevHead h, bucket h, hashValue h, key h)"

lemma back_hints_cong:
  "(\<And>a. a \<in> set as \<Longrightarrow> map_option prv (hp' a) = map_option prv (hp a)) \<Longrightarrow>
   back_hints prv hp' p as = back_hints prv hp p as"
  by (induction as arbitrary: p) auto

lemma bucket_ok_cong:
  assumes num: "bucketNum m' = bucketNum m"
    and nl: "nodeList (bucketList m' ! i) = nodeList (bucketList m ! i)"
    and idx: "\<And>a. a \<in> set as \<Longrightarrow> map_option head_index (heads m' a) = map_option head_index (heads m a)"
  shows "bucket_ok m' i as = bucket_ok m i as"
proof -
  have proj: "map_option (f \<circ> head_index) (heads m' a) = map_option (f \<circ> head_index) (heads m a)"
    if "a \<in> set as" for a and f :: "ptr \<times> ptr \<times> nat \<times> u32 \<times> KeyType \<Rightarrow> 'b"
    using idx [OF that] by (simp flip: option.map_comp)
  have "lseg nextHead (heads m') p as None = lseg nextHead (heads m) p as None" for p
    using proj [of _ fst] by (intro lseg_proj) (simp add: comp_def head_index_def)
  moreover have "back_hints prevHead (heads m') None as = back_hints prevHead (heads m) None as"
    using proj [of _ "fst \<circ> snd"] by (intro back_hints_cong) (simp add: comp_def head_index_def)
  moreover have "(\<exists>h. heads m' a = Some h \<and> bucket h = i \<and> hashValue h = HashKey (key h) \<and>
        key_slot m' (key h) = i) =
      (\<exists>h. heads m a = Some h \<and> bucket h = i \<and> hashValue h = HashKey (key h) \<and>
        key_slot m (key h) = i)" if "a \<in> set as" for a
    using idx [OF that] num
    by (cases "heads m' a"; cases "heads m a") (auto simp: head_index_def key_slot_def)
  moreover have "inj_on (\<lambda>a. key (the (heads m' a))) (set as) = inj_on (\<lambda>a. key (the (heads m a))) (set as)"
    if "lseg nextHead (heads m) q as None" for q
  proof (rule inj_on_cong)
    fix a assume a: "a \<in> set as"
    with lseg_alloc [OF that] obtain h where "heads m a = Some h" by auto
    with idx [OF a] show "key (the (heads m' a)) = key (the (heads m a))"
      by (cases "heads m' a") (auto simp: head_index_def)
  qed
  ultimately show ?thesis unfolding bucket_ok_def nl by auto
qed

section \<open>Locks\<close>

lemma lock_bucket_ok:
  assumes ok: "hm_ok m" and pos: "pos < length (bucketList m)" and l: "f (bucket_locks m ! pos) = Some l"
  obtains m' where "lock_bucket f pos m = Some m'" "hm_ok m'" "versions m' = versions m"
    "locate m' = locate m" "bucket_locks m' = (bucket_locks m)[pos := l]" "head_locks m' = head_locks m"
    "heads m' = heads m" "eles m' = eles m" "bucketNum m' = bucketNum m"
    "map nodeList (bucketList m') = map nodeList (bucketList m)"
proof
  let ?m = "m\<lparr>bucketList := (bucketList m)[pos := (bucketList m ! pos)\<lparr>bucketLock := l\<rparr>]\<rparr>"
  from pos l show "lock_bucket f pos m = Some ?m"
    by (simp add: lock_bucket_def get_bucket_def upd_bucket_def bucket_locks_def)
  have "same_content m ?m" by (simp add: same_content_def)
  moreover have "bucket_ok ?m i (head_list m i)" if "i < length (bucketList m)" for i
    using hm_okD(3) [OF ok that] that pos
    by (subst bucket_ok_cong [of _ m]) (auto simp: nth_list_update)
  ultimately show "hm_ok ?m" "versions ?m = versions m" "locate ?m = locate m"
    using same_content_hm_ok [OF ok, of ?m] by blast+
  show "map nodeList (bucketList ?m) = map nodeList (bucketList m)"
    using pos by (auto simp: list_eq_iff_nth_eq nth_list_update)
qed (simp_all add: bucket_locks_def head_locks_def map_update fun_eq_iff)

lemma lock_head_ok:
  assumes ok: "hm_ok m" and l: "head_locks m a = Some l0" "f l0 = Some l"
  obtains m' h where "lock_head f a m = Some m'" "hm_ok m'" "versions m' = versions m"
    "locate m' = locate m" "bucket_locks m' = bucket_locks m" "head_locks m' = (head_locks m)(a \<mapsto> l)"
    "heads m a = Some h" "heads m' a = Some (h\<lparr>headLock := l\<rparr>)" "eles m' = eles m"
    "bucketNum m' = bucketNum m" "bucketList m' = bucketList m"
proof -
  from l obtain h where h: "heads m a = Some h" "headLock h = l0" by (auto simp: head_locks_def)
  let ?m = "m\<lparr>heads := (heads m)(a \<mapsto> h\<lparr>headLock := l\<rparr>)\<rparr>"
  have "same_content m ?m" using h by (simp add: same_content_def head_content_def)
  moreover have "bucket_ok ?m i (head_list m i)" if "i < length (bucketList m)" for i
    using hm_okD(3) [OF ok that] h by (subst bucket_ok_cong [of _ m]) (auto simp: head_index_def)
  ultimately have "hm_ok ?m" "versions ?m = versions m" "locate ?m = locate m"
    using same_content_hm_ok [OF ok, of ?m] by blast+
  with h l show thesis
    by (intro that [of ?m h])
      (auto simp: lock_head_def upd_head_def head_locks_def bucket_locks_def fun_eq_iff)
qed

section \<open>Moving a head to the front\<close>

interpretation head_node: linked_node nextHead "\<lambda>p h. h\<lparr>nextHead := p\<rparr>"
  by unfold_locales simp

lemma back_hints_append:
  "back_hints prv hp p (as @ bs) =
     (back_hints prv hp p as \<and> back_hints prv hp (if as = [] then p else Some (last as)) bs)"
  by (induction as arbitrary: p) auto

lemma back_hints_first: "back_hints prv hp None as \<Longrightarrow> back_hints prv hp p as"
  by (cases as) auto

lemma back_hints_pred:
  assumes "back_hints prv hp None as" "a \<in> set as" "hp a = Some n" "prv n = Some p"
  obtains xs ys where "as = xs @ p # a # ys"
proof -
  from assms(2) obtain us ys where as: "as = us @ a # ys" by (auto simp: in_set_conv_decomp)
  with assms have "us \<noteq> [] \<and> last us = p" by (auto simp: back_hints_append split: if_splits)
  then have "us = butlast us @ [p]" by (metis append_butlast_last_id)
  with as that show thesis by (metis append.assoc append_Cons append_Nil)
qed

text \<open>Unlinking a node from the middle and putting it in front, on the heap alone.\<close>

definition unlink_heap where
  "unlink_heap hp h p =
     (let hp1 = hp(p \<mapsto> (the (hp p))\<lparr>nextHead := nextHead h\<rparr>)
      in case nextHead h of None \<Rightarrow> hp1 | Some n \<Rightarrow> hp1(n \<mapsto> (the (hp n))\<lparr>prevHead := Some p\<rparr>))"

definition front_heap where
  "front_heap hp a h p q = (unlink_heap hp h p)(a \<mapsto> h\<lparr>prevHead := None, nextHead := q\<rparr>)"

lemma relink_front:
  assumes seg: "lseg nextHead hp q (xs @ p # a # ys) None"
    and hints: "back_hints prevHead hp None (xs @ p # a # ys)"
    and h: "hp a = Some h" and np: "hp p = Some np"
  shows "lseg nextHead (front_heap hp a h p q) (Some a) (a # xs @ p # ys) None"
    and "back_hints prevHead (front_heap hp a h p q) None (a # xs @ p # ys)"
proof -
  let ?hp1 = "hp(p \<mapsto> np\<lparr>nextHead := nextHead h\<rparr>)" and ?as = "xs @ p # ys"
  let ?hp2 = "unlink_heap hp h p"
  have dist: "distinct (xs @ p # a # ys)" using seg by (rule lseg_distinct)
  have ys: "lseg nextHead hp (nextHead h) ys None"
    using seg h by (auto simp: lseg_append)
  have n: "(case ys of [] \<Rightarrow> nextHead h = None | y # _ \<Rightarrow> nextHead h = Some y \<and> (\<exists>ny. hp y = Some ny))"
    using ys by (auto split: list.splits)
  have nxt: "map_option nextHead (?hp2 b) = map_option nextHead (?hp1 b)" for b
    using n np dist by (auto simp: unlink_heap_def split: list.splits)
  have seg2: "lseg nextHead ?hp2 q ?as None"
    using head_node.lseg_unlink [OF seg dist np h] by (subst lseg_proj [OF nxt])
  have prv: "map_option prevHead (?hp2 b) = map_option prevHead (hp b)" if "Some b \<noteq> nextHead h" for b
    using n dist np that by (auto simp: unlink_heap_def split: list.splits)
  have "Some b \<noteq> nextHead h" if "b \<in> set (xs @ [p])" for b
    using n dist that by (auto split: list.splits)
  then have "back_hints prevHead ?hp2 None (xs @ [p]) = back_hints prevHead hp None (xs @ [p])"
    by (intro back_hints_cong prv)
  with hints have "back_hints prevHead ?hp2 None (xs @ [p])" by (simp add: back_hints_append)
  moreover have "back_hints prevHead ?hp2 (Some p) ys"
  proof (cases ys)
    case (Cons y zs)
    with n dist have "Some b \<noteq> nextHead h" if "b \<in> set zs" for b using that by auto
    then have "back_hints prevHead ?hp2 (Some y) zs = back_hints prevHead hp (Some y) zs"
      by (intro back_hints_cong prv)
    with hints Cons n show ?thesis by (simp add: back_hints_append unlink_heap_def)
  qed simp
  ultimately have "back_hints prevHead ?hp2 None ?as" by (simp add: back_hints_append)
  with dist have "back_hints prevHead (front_heap hp a h p q) (Some a) ?as" unfolding front_heap_def
    by (subst back_hints_cong [of _ _ _ ?hp2]) (auto intro: back_hints_first)
  then show "back_hints prevHead (front_heap hp a h p q) None (a # ?as)"
    by (simp add: front_heap_def)
  show "lseg nextHead (front_heap hp a h p q) (Some a) (a # ?as) None"
    using head_node.lseg_push [OF seg2, of a "h\<lparr>prevHead := None\<rparr>"] dist
    by (simp add: front_heap_def)
qed

text \<open>Nothing but links changes, and only on nodes of the list.\<close>

lemma front_heap_frame:
  assumes "hp a = Some h" "hp p = Some np" "\<And>n. nextHead h = Some n \<Longrightarrow> \<exists>nn. hp n = Some nn"
    and "p \<noteq> a" "nextHead h \<noteq> Some p" "nextHead h \<noteq> Some a"
  shows "map_option head_content (front_heap hp a h p q b) = map_option head_content (hp b)"
    and "map_option headLock (front_heap hp a h p q b) = map_option headLock (hp b)"
    and "b \<noteq> a \<Longrightarrow> b \<noteq> p \<Longrightarrow> Some b \<noteq> nextHead h \<Longrightarrow> front_heap hp a h p q b = hp b"
  using assms by (auto simp: front_heap_def unlink_heap_def head_content_def Let_def split: option.splits)

lemma bucket_ok_relink:
  assumes ok: "bucket_ok m i as" and set: "set as' = set as" and num: "bucketNum m' = bucketNum m"
    and cont: "\<And>a. map_option head_content (heads m' a) = map_option head_content (heads m a)"
    and links: "lseg nextHead (heads m') (nodeList (bucketList m' ! i)) as' None"
      "back_hints prevHead (heads m') None as'"
  shows "bucket_ok m' i as'"
proof -
  have "(\<exists>h. heads m' a = Some h \<and> bucket h = i \<and> hashValue h = HashKey (key h) \<and>
      key_slot m' (key h) = i) \<and> key (the (heads m' a)) = key (the (heads m a))" if "a \<in> set as" for a
    using ok that cont [of a] num
    by (cases "heads m' a"; cases "heads m a") (auto simp: head_content_def bucket_ok_def key_slot_def)
  note same = this
  have "inj_on (\<lambda>a. key (the (heads m' a))) (set as') = inj_on (\<lambda>a. key (the (heads m a))) (set as)"
    unfolding set by (intro inj_on_cong) (simp add: same)
  with same show ?thesis using ok links set by (auto simp: bucket_ok_def)
qed

lemma move_to_front_run:
  assumes ok: "hm_ok m" and h: "heads m a = Some h" and p: "prevHead h = Some p"
  obtains xs ys np where "head_list m (bucket h) = xs @ p # a # ys" "heads m p = Some np"
    "\<forall>n. nextHead h = Some n \<longrightarrow> (\<exists>nn. heads m n = Some nn) \<and> n \<in> set ys"
    "p \<noteq> a" "nextHead h \<noteq> Some p" "nextHead h \<noteq> Some a"
    "move_to_front a m = Some (m\<lparr>
       heads := front_heap (heads m) a h p (nodeList (bucketList m ! bucket h)),
       bucketList := (bucketList m)[bucket h := (bucketList m ! bucket h)\<lparr>nodeList := Some a\<rparr>]\<rparr>)"
proof -
  let ?i = "bucket h"
  have i: "?i < length (bucketList m)" and a: "a \<in> set (head_list m ?i)"
    using hm_okD(5,6) [OF ok h] by auto
  have seg: "lseg nextHead (heads m) (nodeList (bucketList m ! ?i)) (head_list m ?i) None"
    and hints: "back_hints prevHead (heads m) None (head_list m ?i)"
    using hm_okD(3) [OF ok i] by (auto simp: bucket_ok_def)
  obtain xs ys where as: "head_list m ?i = xs @ p # a # ys"
    using hints a h p by (rule back_hints_pred)
  obtain np where np: "heads m p = Some np" using lseg_alloc [OF seg] as by auto
  have next_node: "\<exists>nn. heads m n = Some nn \<and> n \<in> set ys" if "nextHead h = Some n" for n
    using seg as h that by (cases ys) (auto simp: lseg_append)
  have dist: "distinct (xs @ p # a # ys)" using lseg_distinct [OF seg] as by simp
  have n_not: "nextHead h \<noteq> Some p" "nextHead h \<noteq> Some a"
    using dist next_node by auto
  have "move_to_front a m = Some (m\<lparr>
       heads := front_heap (heads m) a h p (nodeList (bucketList m ! ?i)),
       bucketList := (bucketList m)[?i := (bucketList m ! ?i)\<lparr>nodeList := Some a\<rparr>]\<rparr>)"
    using h p np n_not next_node i dist
    by (auto simp: move_to_front_def upd_head_def get_bucket_def upd_bucket_def
        front_heap_def unlink_heap_def split: option.splits)
  with as np next_node dist n_not show thesis by (intro that) auto
qed

lemma move_to_front_ok:
  assumes ok: "hm_ok m" and h: "heads m a = Some h"
  obtains m' h' where "move_to_front a m = Some m'" "hm_ok m'" "versions m' = versions m"
    "locate m' = locate m" "bucket_locks m' = bucket_locks m" "head_locks m' = head_locks m"
    "eles m' = eles m" "heads m' a = Some h'" "head_content h' = head_content h"
    "bucketNum m' = bucketNum m" "length (bucketList m') = length (bucketList m)"
proof (cases "prevHead h")
  case None
  with ok h show thesis by (intro that [of m h]) (simp_all add: move_to_front_def)
next
  case (Some p)
  let ?i = "bucket h" and ?hp = "front_heap (heads m) a h p (nodeList (bucketList m ! bucket h))"
  let ?m = "m\<lparr>heads := ?hp, bucketList := (bucketList m)[?i := (bucketList m ! ?i)\<lparr>nodeList := Some a\<rparr>]\<rparr>"
  obtain xs ys np where as: "head_list m ?i = xs @ p # a # ys" and np: "heads m p = Some np"
    and nn: "\<forall>n. nextHead h = Some n \<longrightarrow> (\<exists>nn. heads m n = Some nn) \<and> n \<in> set ys"
    and ne: "p \<noteq> a" "nextHead h \<noteq> Some p" "nextHead h \<noteq> Some a" and run: "move_to_front a m = Some ?m"
    by (rule move_to_front_run [OF ok h Some])
  have i: "?i < length (bucketList m)" using hm_okD(5) [OF ok h] .
  note bok = hm_okD(3) [OF ok]
  have frame: "map_option head_content (?hp b) = map_option head_content (heads m b)"
    "map_option headLock (?hp b) = map_option headLock (heads m b)"
    "b \<notin> set (head_list m ?i) \<Longrightarrow> ?hp b = heads m b" for b
    using front_heap_frame [OF h np _ ne] nn as by (blast, blast, fastforce)
  have bs: "\<exists>as. bucket_ok ?m j as \<and> set as = set (head_list m j)" if j: "j < length (bucketList m)" for j
  proof (cases "j = ?i")
    case True
    have "lseg nextHead (heads m) (nodeList (bucketList m ! ?i)) (xs @ p # a # ys) None"
      "back_hints prevHead (heads m) None (xs @ p # a # ys)"
      using bok [OF i] as by (auto simp: bucket_ok_def)
    from relink_front [OF this h np] have "bucket_ok ?m ?i (a # xs @ p # ys)"
      using frame as i by (intro bucket_ok_relink [OF bok [OF i]]) auto
    with True as show ?thesis by auto
  next
    case False
    then have "set (head_list m j) \<inter> set (head_list m ?i) = {}"
      using bucket_lists_disjoint [OF ok j i] by simp
    then have "?hp b = heads m b" if "b \<in> set (head_list m j)" for b
      using that by (intro frame(3)) auto
    then have "bucket_ok ?m j (head_list m j)"
      using bok [OF j] False by (subst bucket_ok_cong [of _ m]) auto
    then show ?thesis by blast
  qed
  have "same_content m ?m" using frame by (simp add: same_content_def)
  from same_content_hm_ok [OF ok this bs]
  have "hm_ok ?m" "versions ?m = versions m" "locate ?m = locate m" by auto
  moreover have "bucket_locks ?m = bucket_locks m" "head_locks ?m = head_locks m"
    using frame i by (auto simp: bucket_locks_def head_locks_def list_eq_iff_nth_eq nth_list_update)
  ultimately show thesis using run
    by (intro that [of ?m "h\<lparr>prevHead := None, nextHead := nodeList (bucketList m ! ?i)\<rparr>"])
      (auto simp: front_heap_def head_content_def)
qed

section \<open>Changing one chain\<close>

text \<open>
  The rule behind every operation that writes: the chain of one head (a new one or an old one
  with the same key) becomes \<open>es\<close>, everything else stays. \<open>unchanged_but a\<close> collects what
  stays.
\<close>

definition unchanged_but :: "addr \<Rightarrow> HashMap \<Rightarrow> HashMap \<Rightarrow> bool" where
  "unchanged_but a m m' \<longleftrightarrow>
     bucketNum m' = bucketNum m \<and> length (bucketList m') = length (bucketList m) \<and>
     (\<forall>b. b \<noteq> a \<longrightarrow> map_option head_content (heads m' b) = map_option head_content (heads m b)) \<and>
     (\<forall>b g x. b \<noteq> a \<longrightarrow> heads m b = Some g \<longrightarrow> x \<in> set (ele_list m g) \<longrightarrow> eles m' x = eles m x)"

lemma head_ok_eles_cong:
  assumes "\<And>x. x \<in> set es \<Longrightarrow> E' x = E x"
  shows "head_ok E' h es = head_ok E h es" "chain E' h es = chain E h es"
proof -
  have "eles_entries E' es = eles_entries E es" by (rule eles_entries_cong) (simp add: assms)
  then show ch: "chain E' h es = chain E h es" by (simp add: chain_def)
  have "lseg e_nextEle E' p es None = lseg e_nextEle E p es None" for p
    by (rule lseg_cong) (rule assms)
  moreover have "back_links e_prevEle E' p es = back_links e_prevEle E p es" for p
    using assms by (induction es arbitrary: p) auto
  ultimately show "head_ok E' h es = head_ok E h es"
    using assms by (simp add: head_ok_def ch)
qed

lemma unchanged_butD:
  assumes ok: "hm_ok m" and un: "unchanged_but a m m'" and b: "b \<noteq> a" "heads m' b = Some g'"
  obtains g where "heads m b = Some g" "head_content g' = head_content g"
    "head_ok (eles m') g' (ele_list m g)" "ele_list m' g' = ele_list m g"
    "head_version m' g' = head_version m g"
proof -
  obtain g where g: "heads m b = Some g" and cont: "head_content g' = head_content g"
    using un b by (cases "heads m b") (force simp: unchanged_but_def)+
  have eq: "eles m' x = eles m x" if "x \<in> set (ele_list m g)" for x
    using un b g that by (auto simp: unchanged_but_def)
  have hok: "head_ok (eles m') g' (ele_list m g)"
    using hm_okD(4) [OF ok g] head_ok_content(1) [OF cont] head_ok_eles_cong(1) [OF eq] by simp
  then have el: "ele_list m' g' = ele_list m g" by (rule head_ok_ele_list)
  have "head_version m' g' = head_version m g"
    using el head_ok_content(2) [OF cont] head_ok_eles_cong(2) [OF eq] cont
    by (simp add: head_version_def head_content_def)
  with g cont hok el show thesis by (rule that)
qed

lemma hm_ok_update:
  assumes ok: "hm_ok m" and un: "unchanged_but a m m'"
    and h': "heads m' a = Some h'" "bucket h' < length (bucketList m)"
    and bs: "\<And>i. i < length (bucketList m) \<Longrightarrow> \<exists>as. bucket_ok m' i as \<and>
      set as = (if i = bucket h' then insert a (set (head_list m i)) else set (head_list m i))"
    and new: "head_ok (eles m') h' es"
    and disj: "\<And>b g. b \<noteq> a \<Longrightarrow> heads m b = Some g \<Longrightarrow> set es \<inter> set (ele_list m g) = {}"
    and dom: "\<And>x. x \<in> dom (eles m') \<Longrightarrow>
      x \<in> set es \<or> (\<exists>b g. b \<noteq> a \<and> heads m b = Some g \<and> x \<in> set (ele_list m g))"
  shows "hm_ok m'"
proof (rule hm_okI)
  have num: "bucketNum m' = bucketNum m" and len: "length (bucketList m') = length (bucketList m)"
    and cont: "\<And>b. b \<noteq> a \<Longrightarrow> map_option head_content (heads m' b) = map_option head_content (heads m b)"
    using un by (auto simp: unchanged_but_def)
  have el_a: "ele_list m' h' = es" using new by (rule head_ok_ele_list)
  have lists: "set (head_list m' i) =
      (if i = bucket h' then insert a (set (head_list m i)) else set (head_list m i))"
    if "i < length (bucketList m)" for i
    using bs [OF that] by (metis bucket_ok_head_list)
  show "bucketNum m' \<noteq> 0" "length (bucketList m') = unat (bucketNum m')"
    using hm_okD(1,2) [OF ok] num len by auto
  show "\<exists>as. bucket_ok m' i as" if "i < length (bucketList m')" for i
    using bs that len by auto
  show "\<exists>es. head_ok (eles m') g es" if "heads m' b = Some g" for b g
    using that new h' by (cases "b = a") (auto elim: unchanged_butD [OF ok un])
  show "bucket g < length (bucketList m') \<and> b \<in> set (head_list m' (bucket g))"
    if g: "heads m' b = Some g" for b g
  proof (cases "b = a")
    case True
    with g h' len lists show ?thesis by simp
  next
    case False
    obtain g0 where "heads m b = Some g0" "head_content g = head_content g0"
      using False g by (rule unchanged_butD [OF ok un])
    with hm_okD(5,6) [OF ok, of b g0] lists len show ?thesis by (auto simp: head_content_def)
  qed
  show "\<exists>b g. heads m' b = Some g \<and> x \<in> set (ele_list m' g)" if x: "x \<in> dom (eles m')" for x
    using dom [OF x]
  proof (elim disjE exE conjE)
    assume "x \<in> set es"
    with h' el_a show ?thesis by metis
  next
    fix b g assume b: "b \<noteq> a" "heads m b = Some g" "x \<in> set (ele_list m g)"
    with cont [of b] obtain g' where g': "heads m' b = Some g'" by (cases "heads m' b") auto
    with b show ?thesis by (metis unchanged_butD [OF ok un] option.inject)
  qed
  show "set (ele_list m' g) \<inter> set (ele_list m' k) = {}"
    if g: "heads m' b = Some g" and k: "heads m' c = Some k" and bc: "b \<noteq> c" for b c g k
  proof -
    have *: "set es \<inter> set (ele_list m' g) = {}" if "b \<noteq> a" "heads m' b = Some g" for b g
      using disj that by (metis unchanged_butD [OF ok un])
    show ?thesis
    proof (cases "b = a \<or> c = a")
      case True
      with * g k bc h' el_a show ?thesis by (metis Int_commute option.inject)
    next
      case False
      with g k bc hm_okD(8) [OF ok] show ?thesis by (metis unchanged_butD [OF ok un])
    qed
  qed
qed

lemma versions_update:
  assumes ok: "hm_ok m" and ok': "hm_ok m'" and un: "unchanged_but a m m'"
    and h': "heads m' a = Some h'" and new: "head_ok (eles m') h' es"
    and old: "\<And>h. heads m a = Some h \<Longrightarrow> key h = key h'"
  shows "versions m' = (versions m)(key h' \<mapsto> (chain (eles m') h' es, replayedLsn h'))"
proof
  fix k
  show "versions m' k = ((versions m)(key h' \<mapsto> (chain (eles m') h' es, replayedLsn h'))) k"
  proof (cases "k = key h'")
    case True
    with locate_known [OF ok' h'] h' head_ok_ele_list [OF new] show ?thesis
      by (simp add: versions_def head_version_def)
  next
    case False
    have "versions m' k = Some v \<longleftrightarrow> versions m k = Some v" for v
      unfolding versions_iff [OF ok] versions_iff [OF ok']
    proof (intro iffI; elim exE conjE)
      fix b g assume b: "heads m' b = Some g" "key g = k" "v = head_version m' g"
      with False h' have "b \<noteq> a" by auto
      then show "\<exists>b g. heads m b = Some g \<and> key g = k \<and> v = head_version m g"
        using b(1) by (rule unchanged_butD [OF ok un]) (use b in \<open>auto simp: head_content_def\<close>)
    next
      fix b g assume b: "heads m b = Some g" "key g = k" "v = head_version m g"
      with False old have ba: "b \<noteq> a" by auto
      with b un obtain g' where g': "heads m' b = Some g'"
        by (cases "heads m' b") (force simp: unchanged_but_def)+
      show "\<exists>b g. heads m' b = Some g \<and> key g = k \<and> v = head_version m' g"
        using ba g'
        by (rule unchanged_butD [OF ok un], intro exI [of _ b] exI [of _ g'])
          (use b g' in \<open>auto simp: head_content_def\<close>)
    qed
    then have "versions m' k = versions m k" by (rule option_eqI)
    with False show ?thesis by simp
  qed
qed

text \<open>Rewriting the contents of an existing head and its element nodes; nodes that drop out are freed.\<close>

lemma chain_rewrite:
  assumes ok: "hm_ok m" and h: "heads m a = Some h"
    and idx: "head_index h' = head_index h"
    and new: "head_ok E h' es"
    and same: "\<And>x. x \<notin> set es \<Longrightarrow> x \<notin> set (ele_list m h) \<Longrightarrow> E x = eles m x"
    and fresh: "\<And>x. x \<in> set es \<Longrightarrow> x \<in> set (ele_list m h) \<or> eles m x = None"
    and freed: "\<And>x. x \<in> set (ele_list m h) \<Longrightarrow> x \<notin> set es \<Longrightarrow> E x = None"
  shows "hm_ok (m\<lparr>heads := (heads m)(a \<mapsto> h'), eles := E\<rparr>)" (is "hm_ok ?m")
    and "versions (m\<lparr>heads := (heads m)(a \<mapsto> h'), eles := E\<rparr>) =
      (versions m)(key h \<mapsto> (chain E h' es, replayedLsn h'))"
proof -
  have alloc: "\<exists>e. eles m x = Some e" if "heads m b = Some g" "x \<in> set (ele_list m g)" for b g x
    using hm_okD(4) [OF ok that(1)] that(2) by (auto simp: head_ok_def dest: lseg_alloc)
  have disj: "set es \<inter> set (ele_list m g) = {}" if "b \<noteq> a" "heads m b = Some g" for b g
    using fresh hm_okD(8) [OF ok that(2) h that(1)] alloc [OF that(2)] by fastforce
  have own: "x \<notin> set (ele_list m h)" if "b \<noteq> a" "heads m b = Some g" "x \<in> set (ele_list m g)" for b g x
    using hm_okD(8) [OF ok that(2) h that(1)] that(3) by blast
  have un: "unchanged_but a m ?m"
    unfolding unchanged_but_def using disj same own by fastforce
  have key: "key h' = key h" "bucket h' = bucket h" using idx by (auto simp: head_index_def)
  have i: "bucket h < length (bucketList m)" "a \<in> set (head_list m (bucket h))"
    using hm_okD(5,6) [OF ok h] by auto
  have b_ok: "bucket_ok ?m j (head_list m j)" if "j < length (bucketList m)" for j
    using hm_okD(3) [OF ok that] h idx by (subst bucket_ok_cong [of _ m]) auto
  show ok': "hm_ok ?m"
  proof (rule hm_ok_update [OF ok un, of h' es])
    show "\<exists>as. bucket_ok ?m j as \<and>
        set as = (if j = bucket h' then insert a (set (head_list m j)) else set (head_list m j))"
      if "j < length (bucketList m)" for j
      using b_ok [OF that] i key by (auto simp: insert_absorb)
    show "x \<in> set es \<or> (\<exists>b g. b \<noteq> a \<and> heads m b = Some g \<and> x \<in> set (ele_list m g))"
      if x: "x \<in> dom (eles ?m)" for x
    proof (cases "x \<in> set es")
      case False
      with freed x have out: "x \<notin> set (ele_list m h)" by auto
      with False same x have "x \<in> dom (eles m)" by (simp add: dom_def)
      with hm_okD(7) [OF ok] obtain b g where "heads m b = Some g" "x \<in> set (ele_list m g)" by blast
      with out h show ?thesis by (cases "b = a") auto
    qed simp
  qed (use i key new disj in auto)
  show "versions ?m = (versions m)(key h \<mapsto> (chain E h' es, replayedLsn h'))"
    using versions_update [OF ok ok' un, of h' es] h key new by simp
qed

lemma chain_update:
  assumes ok: "hm_ok m" and h: "heads m a = Some h"
    and idx: "head_index h' = head_index h"
    and new: "head_ok E h' es"
    and same: "\<And>x. x \<notin> set es \<Longrightarrow> E x = eles m x"
    and fresh: "\<And>x. x \<in> set es \<Longrightarrow> x \<in> set (ele_list m h) \<or> eles m x = None"
    and all: "set (ele_list m h) \<subseteq> set es"
  shows "hm_ok (m\<lparr>heads := (heads m)(a \<mapsto> h'), eles := E\<rparr>)"
    and "versions (m\<lparr>heads := (heads m)(a \<mapsto> h'), eles := E\<rparr>) =
      (versions m)(key h \<mapsto> (chain E h' es, replayedLsn h'))"
  using chain_rewrite [OF ok h idx new _ fresh] same all by blast+

section \<open>Adding a head\<close>

definition push_heap where
  "push_heap hp a h q =
     (case q of None \<Rightarrow> hp | Some f \<Rightarrow> hp(f \<mapsto> (the (hp f))\<lparr>prevHead := Some a\<rparr>))(a \<mapsto> h\<lparr>nextHead := q\<rparr>)"

lemma push_heap_links:
  assumes seg: "lseg nextHead hp q as None" and hints: "back_hints prevHead hp None as"
    and a: "hp a = None" and h: "prevHead h = None"
  shows "lseg nextHead (push_heap hp a h q) (Some a) (a # as) None"
    and "back_hints prevHead (push_heap hp a h q) None (a # as)"
    and "b \<noteq> a \<Longrightarrow> map_option head_content (push_heap hp a h q b) = map_option head_content (hp b)"
    and "b \<noteq> a \<Longrightarrow> map_option headLock (push_heap hp a h q b) = map_option headLock (hp b)"
    and "b \<noteq> a \<Longrightarrow> b \<notin> set as \<Longrightarrow> push_heap hp a h q b = hp b"
proof -
  have first: "(case as of [] \<Rightarrow> q = None | f # _ \<Rightarrow> q = Some f \<and> (\<exists>n. hp f = Some n))"
    using seg by (cases as) auto
  have a_as: "a \<notin> set as" using lseg_alloc [OF seg, of a] a by auto
  let ?hp = "push_heap hp a h q"
  have "map_option nextHead (?hp b) = map_option nextHead (hp b)" if "b \<in> set as" for b
    using first that a_as by (auto simp: push_heap_def split: list.splits)
  then have "lseg nextHead ?hp q as None = lseg nextHead hp q as None" by (rule lseg_proj)
  with seg show "lseg nextHead ?hp (Some a) (a # as) None" by (simp add: push_heap_def)
  show "back_hints prevHead ?hp None (a # as)"
  proof (cases as)
    case (Cons f fs)
    then have "map_option prevHead (?hp b) = map_option prevHead (hp b)" if "b \<in> set fs" for b
      using first that a_as lseg_distinct [OF seg] by (auto simp: push_heap_def)
    then have "back_hints prevHead ?hp (Some f) fs = back_hints prevHead hp (Some f) fs"
      by (rule back_hints_cong)
    with Cons hints h first a_as show ?thesis by (simp add: push_heap_def)
  qed (simp add: h push_heap_def)
  show "map_option head_content (?hp b) = map_option head_content (hp b)"
    "map_option headLock (?hp b) = map_option headLock (hp b)"
    "b \<notin> set as \<Longrightarrow> ?hp b = hp b" if "b \<noteq> a"
    using first that by (auto simp: push_heap_def head_content_def split: list.splits)
qed

lemma bucket_ok_push:
  assumes ok: "bucket_ok m i as" and a: "heads m a = None" and num: "bucketNum m' = bucketNum m"
    and h: "i = key_slot m (key h)" "hashValue h = HashKey (key h)"
    and bkt: "bucket h = i" and ha: "heads m' a = Some (h\<lparr>nextHead := q\<rparr>)"
    and cont: "\<And>b. b \<noteq> a \<Longrightarrow> map_option head_content (heads m' b) = map_option head_content (heads m b)"
    and fresh: "\<And>b g. heads m b = Some g \<Longrightarrow> key g \<noteq> key h"
    and links: "lseg nextHead (heads m') (nodeList (bucketList m' ! i)) (a # as) None"
      "back_hints prevHead (heads m') None (a # as)"
  shows "bucket_ok m' i (a # as)"
proof -
  have a_as: "a \<notin> set as" using ok a by (auto simp: bucket_ok_def)
  have same: "(\<exists>h. heads m' b = Some h \<and> bucket h = i \<and> hashValue h = HashKey (key h) \<and>
      key_slot m' (key h) = i) \<and> key (the (heads m' b)) = key (the (heads m b)) \<and>
      key (the (heads m b)) \<noteq> key h" if "b \<in> set as" for b
  proof -
    from that a_as have "b \<noteq> a" by auto
    from cont [OF this] show ?thesis using ok that num fresh
      by (cases "heads m' b"; cases "heads m b")
        (auto simp: head_content_def bucket_ok_def key_slot_def)
  qed
  have "inj_on (\<lambda>b. key (the (heads m' b))) (set as) = inj_on (\<lambda>b. key (the (heads m b))) (set as)"
    by (intro inj_on_cong) (simp add: same)
  with ok have inj: "inj_on (\<lambda>b. key (the (heads m' b))) (set as)" by (simp add: bucket_ok_def)
  show ?thesis unfolding bucket_ok_def
  proof (intro conjI ballI links)
    fix b assume "b \<in> set (a # as)"
    then show "\<exists>h. heads m' b = Some h \<and> bucket h = i \<and> hashValue h = HashKey (key h) \<and>
        key_slot m' (key h) = i"
      using same [of b] ha h bkt num by (cases "b = a") (simp_all add: key_slot_def)
  next
    have "key h \<notin> (\<lambda>b. key (the (heads m' b))) ` set as" using same by fastforce
    with inj ha a_as show "inj_on (\<lambda>b. key (the (heads m' b))) (set (a # as))" by simp
  qed
qed

lemma push_head_ok:
  assumes ok: "hm_ok m" and a: "heads m a = None" and k: "locate m (key h) = None"
    and h: "bucket h = key_slot m (key h)" "hashValue h = HashKey (key h)" "prevHead h = None"
    and new: "head_ok (eles m) h []"
  obtains m' where "push_head a h m = Some m'" "hm_ok m'"
    "versions m' = (versions m)(key h \<mapsto> (head_entries h, replayedLsn h))"
    "bucket_locks m' = bucket_locks m" "head_locks m' = (head_locks m)(a \<mapsto> headLock h)"
    "length (bucketList m') = length (bucketList m)"
proof -
  let ?i = "bucket h" and ?q = "nodeList (bucketList m ! bucket h)"
  let ?hp = "push_heap (heads m) a h ?q"
  let ?m = "m\<lparr>heads := ?hp, bucketList := (bucketList m)[?i := (bucketList m ! ?i)\<lparr>nodeList := Some a\<rparr>]\<rparr>"
  let ?h = "h\<lparr>nextHead := ?q\<rparr>"
  have i: "?i < length (bucketList m)" using key_slot_bound [OF ok] h by simp
  note bok = hm_okD(3) [OF ok]
  have seg: "lseg nextHead (heads m) ?q (head_list m ?i) None"
    and hints: "back_hints prevHead (heads m) None (head_list m ?i)"
    using bok [OF i] by (auto simp: bucket_ok_def)
  note push = push_heap_links [OF seg hints a h(3)]
  have run: "push_head a h m = Some ?m"
    using i lseg_alloc [OF seg] seg
    by (cases "head_list m ?i")
      (auto simp: push_head_def get_bucket_def upd_bucket_def upd_head_def push_heap_def)
  have ha: "heads ?m a = Some ?h" by (simp add: push_heap_def)
  have un: "unchanged_but a m ?m" using push(3) by (simp add: unchanged_but_def)
  have new': "head_ok (eles ?m) ?h []" using new head_ok_content(1) [of ?h h] by (simp add: head_content_def)
  have bs: "\<exists>as. bucket_ok ?m j as \<and>
      set as = (if j = bucket ?h then insert a (set (head_list m j)) else set (head_list m j))"
    if j: "j < length (bucketList m)" for j
  proof (cases "j = ?i")
    case True
    have fresh: "heads m b = Some g \<Longrightarrow> key g \<noteq> key h" for b g
      using k locate_known [OF ok, of b g] by auto
    have "bucket_ok ?m ?i (a # head_list m ?i)"
      by (rule bucket_ok_push [OF bok [OF i] a _ h(1,2) refl ha]) (use push(1-3) i fresh in simp_all)
    with True show ?thesis by (intro exI [of _ "a # head_list m ?i"]) simp
  next
    case False
    then have "?hp b = heads m b" if "b \<in> set (head_list m j)" for b
      using that bucket_lists_disjoint [OF ok j i False] bok [OF j] a
      by (intro push(5)) (auto simp: bucket_ok_def)
    then have "bucket_ok ?m j (head_list m j)"
      using bok [OF j] False by (subst bucket_ok_cong [of _ m]) auto
    with False show ?thesis by auto
  qed
  have "\<exists>b g. b \<noteq> a \<and> heads m b = Some g \<and> x \<in> set (ele_list m g)" if "x \<in> dom (eles m)" for x
    using hm_okD(7) [OF ok that] a by (metis option.distinct(1))
  then have ok': "hm_ok ?m"
    by (intro hm_ok_update [OF ok un ha _ bs new']) (use i in simp_all)
  moreover have "versions ?m = (versions m)(key h \<mapsto> (head_entries h, replayedLsn h))"
    using versions_update [OF ok ok' un ha new'] a by (simp add: chain_def head_entries_def)
  moreover have "bucket_locks ?m = bucket_locks m" "head_locks ?m = (head_locks m)(a \<mapsto> headLock h)"
    using push(4) i by (auto simp: bucket_locks_def head_locks_def list_eq_iff_nth_eq nth_list_update
        push_heap_def fun_eq_iff)
  ultimately show thesis using run by (intro that [of ?m]) auto
qed

end
