(* ===== verification/VersionMap.thy ===== *)
theory VersionMap
  imports VersionStore
begin

text \<open>
  The operations of the page version map against their specification on \<open>versions\<close>. Every
  theorem is total: from a well-formed map with free locks the operation returns.
\<close>

section \<open>Appending to the chain of a head\<close>

text \<open>\<open>extends m a h blk l pn\<close>: the head and heap after the append, ready for \<open>chain_update\<close>.\<close>

definition extends where
  "extends m h blk l pn h' E es \<longleftrightarrow>
     head_index h' = head_index h \<and> headLock h' = headLock h \<and> replayedLsn h' = replayedLsn h \<and>
     head_ok E h' es \<and> chain E h' es = v_append (chain (eles m) h (ele_list m h)) l pn \<and>
     (\<forall>x. x \<notin> set es \<longrightarrow> E x = eles m x) \<and> set (ele_list m h) \<subseteq> set es \<and>
     set es \<subseteq> insert (blk_addr blk) (set (ele_list m h))"

lemma extendsI:
  assumes "head_ok E h' (ele_list m h)"
    and "chain E h' (ele_list m h) = v_append (chain (eles m) h (ele_list m h)) l pn"
    and "head_index h' = head_index h" "headLock h' = headLock h" "replayedLsn h' = replayedLsn h"
    and "\<And>x. x \<notin> set (ele_list m h) \<Longrightarrow> E x = eles m x"
  shows "extends m h blk l pn h' E (ele_list m h)"
  using assms by (auto simp: extends_def)

lemma append_newest:
  assumes ok: "hm_ok m" and h: "heads m a = Some h" and l: "l = maxLsn h"
  obtains h' E es where "extends m h blk l pn h' E es"
    "append_entry blk a l pn m = Some (m\<lparr>heads := (heads m)(a \<mapsto> h'), eles := E\<rparr>, True)"
proof (cases "ele_list m h = []")
  case True
  let ?n = "nat (entryNum h) - 1"
  let ?h = "h\<lparr>lsnEntry := (lsnEntry h)[?n := (lsnEntry h ! ?n)\<lparr>pageNum := pn\<rparr>]\<rparr>"
  have hok: "head_ok (eles m) h []" using hm_okD(4) [OF ok h] True by simp
  show thesis
  proof (rule that)
    show "extends m h blk l pn ?h (eles m) (ele_list m h)"
      using head_ok_repage_head [OF hok refl, of pn] True l
      by (intro extendsI) (simp_all add: head_index_def)
    show "append_entry blk a l pn m = Some (m\<lparr>heads := (heads m)(a \<mapsto> ?h), eles := eles m\<rparr>, True)"
      using hok h l by (auto simp: append_entry_def head_ok_def upd_head_def nat_diff_distrib)
  qed
next
  case False
  have hok: "head_ok (eles m) h (ele_list m h)" using hm_okD(4) [OF ok h] .
  then obtain bs t e where as: "ele_list m h = bs @ [t]" and t: "tailEle h = Some t" "eles m t = Some e"
    and eok: "ele_ok e" using False by (rule head_ok_tail)
  have hok': "head_ok (eles m) h (bs @ [t])" using hok as by simp
  let ?n = "nat (e_entryNum e) - 1"
  let ?e = "e\<lparr>e_lsnEntry := (e_lsnEntry e)[?n := (e_lsnEntry e ! ?n)\<lparr>pageNum := pn\<rparr>]\<rparr>"
  have "nextEle h \<noteq> None" using hok as by (cases bs) (auto simp: head_ok_def)
  show thesis
  proof (rule that)
    show "extends m h blk l pn h ((eles m)(t \<mapsto> ?e)) (ele_list m h)"
      using head_ok_repage_tail [OF hok' t(2) refl, of pn] as l by (intro extendsI) auto
    show "append_entry blk a l pn m =
        Some (m\<lparr>heads := (heads m)(a \<mapsto> h), eles := (eles m)(t \<mapsto> ?e)\<rparr>, True)"
      using hok h l t eok \<open>nextEle h \<noteq> None\<close>
      by (auto simp: append_entry_def ele_ok_def upd_ele_def nat_diff_distrib map_upd_triv)
  qed
qed

lemma append_in_head:
  assumes ok: "hm_ok m" and h: "heads m a = Some h" and l: "maxLsn h < l"
    and room: "entryNum h < HASH_HEAD_NUM"
  obtains h' where "extends m h blk l pn h' (eles m) (ele_list m h)"
    "append_entry blk a l pn m = Some (m\<lparr>heads := (heads m)(a \<mapsto> h'), eles := eles m\<rparr>, True)"
proof
  let ?h = "h\<lparr>lsnEntry := (lsnEntry h)[nat (entryNum h) := \<lparr>lsn = l, pageNum = pn\<rparr>],
    entryNum := entryNum h + 1, maxLsn := l\<rparr>"
  have hok: "head_ok (eles m) h (ele_list m h)" using hm_okD(4) [OF ok h] .
  show "extends m h blk l pn ?h (eles m) (ele_list m h)"
    using head_ok_append_head(1) [OF hok room l refl]
      head_ok_append_head(2,3) [OF hok room l refl, of pn]
    by (intro extendsI) (simp_all add: head_index_def)
  show "append_entry blk a l pn m = Some (m\<lparr>heads := (heads m)(a \<mapsto> ?h), eles := eles m\<rparr>, True)"
    using hok h l room by (auto simp: append_entry_def head_ok_def upd_head_def)
qed

lemma append_in_tail:
  assumes ok: "hm_ok m" and h: "heads m a = Some h" and l: "maxLsn h < l"
    and full: "\<not> entryNum h < HASH_HEAD_NUM"
    and t: "tailEle h = Some t" "eles m t = Some e" "e_entryNum e < HASH_ELEM_NUM"
  obtains h' E where "extends m h blk l pn h' E (ele_list m h)"
    "append_entry blk a l pn m = Some (m\<lparr>heads := (heads m)(a \<mapsto> h'), eles := E\<rparr>, True)"
proof
  let ?e = "e\<lparr>e_lsnEntry := (e_lsnEntry e)[nat (e_entryNum e) := \<lparr>lsn = l, pageNum = pn\<rparr>],
    e_entryNum := e_entryNum e + 1, e_maxLsn := l\<rparr>"
  have hok: "head_ok (eles m) h (ele_list m h)" using hm_okD(4) [OF ok h] .
  moreover have "ele_list m h \<noteq> []" using hok t by (auto simp: head_ok_def)
  ultimately obtain bs where as: "ele_list m h = bs @ [t]" and eok: "ele_ok e"
    using t by (elim head_ok_tail) auto
  have hok': "head_ok (eles m) h (bs @ [t])" using hok as by simp
  show "extends m h blk l pn (h\<lparr>maxLsn := l\<rparr>) ((eles m)(t \<mapsto> ?e)) (ele_list m h)"
    using head_ok_append_tail [OF hok' t(2,3) l refl, of pn] as
    by (intro extendsI) (auto simp: head_index_def)
  show "append_entry blk a l pn m =
      Some (m\<lparr>heads := (heads m)(a \<mapsto> h\<lparr>maxLsn := l\<rparr>), eles := (eles m)(t \<mapsto> ?e)\<rparr>, True)"
    using h l full t eok
    by (auto simp: append_entry_def ele_ok_def upd_ele_def upd_head_def tail_with_space_def)
qed

lemma append_in_new:
  assumes ok: "hm_ok m" and h: "heads m a = Some h" and l: "maxLsn h < l"
    and full: "\<not> entryNum h < HASH_HEAD_NUM" and none: "tail_with_space h m = Some None"
    and fresh: "eles m (blk_addr blk) = None"
  obtains h' E where "extends m h blk l pn h' E (ele_list m h @ [blk_addr blk])"
    "append_entry blk a l pn m = Some (m\<lparr>heads := (heads m)(a \<mapsto> h'), eles := E\<rparr>, True)"
proof
  let ?n = "blk_addr blk" and ?as = "ele_list m h"
  define e where "e = new_ele blk l pn (tailEle h)"
  define E where "E = (case tailEle h of None \<Rightarrow> (eles m)(?n \<mapsto> e)
      | Some t \<Rightarrow> (eles m)(?n \<mapsto> e, t \<mapsto> (the (eles m t))\<lparr>e_nextEle := Some ?n\<rparr>))"
  define h' where "h' = (if ?as = [] then h\<lparr>maxLsn := l, nextEle := Some ?n, tailEle := Some ?n\<rparr>
      else h\<lparr>maxLsn := l, tailEle := Some ?n\<rparr>)"
  have h'_eq: "h' = h\<lparr>maxLsn := l, nextEle := (if ?as = [] then Some ?n else nextEle h), tailEle := Some ?n\<rparr>"
    by (cases h) (simp add: h'_def)
  have hok: "head_ok (eles m) h ?as" using hm_okD(4) [OF ok h] .
  then have num: "entryNum h = HASH_HEAD_NUM" and tail: "tailEle h = (if ?as = [] then None else Some (last ?as))"
    and seg: "lseg e_nextEle (eles m) (nextEle h) ?as None"
    using full by (auto simp: head_ok_def)
  have "E x = eles m x" if "x \<notin> set (?as @ [?n])" for x
    using that tail by (auto simp: E_def)
  then show "extends m h blk l pn h' E (?as @ [?n])"
    using head_ok_new_tail [OF hok num l fresh e_def E_def h'_eq]
    by (auto simp: extends_def head_index_def h'_def)
  obtain et where "?as \<noteq> [] \<longrightarrow> eles m (last ?as) = Some et \<and> last ?as \<noteq> ?n"
    using lseg_alloc [OF seg, of "last ?as"] fresh by (cases "?as = []") (auto, metis option.distinct(1))
  then show "append_entry blk a l pn m = Some (m\<lparr>heads := (heads m)(a \<mapsto> h'), eles := E\<rparr>, True)"
    using h l full none tail
    by (auto simp: append_entry_def append_new_ele_def upd_head_def upd_ele_def Let_def
        E_def e_def h'_def split: if_splits)
qed

lemma append_newer:
  assumes ok: "hm_ok m" and h: "heads m a = Some h" and l: "maxLsn h < l"
    and fresh: "eles m (blk_addr blk) = None"
  obtains h' E es where "extends m h blk l pn h' E es"
    "append_entry blk a l pn m = Some (m\<lparr>heads := (heads m)(a \<mapsto> h'), eles := E\<rparr>, True)"
proof (cases "entryNum h < HASH_HEAD_NUM")
  case True
  with ok h l show thesis by (rule append_in_head) (rule that)
next
  case full: False
  have hok: "head_ok (eles m) h (ele_list m h)" using hm_okD(4) [OF ok h] .
  show thesis
  proof (cases "tail_with_space h m = Some None")
    case True
    with ok h l full show thesis using fresh by (rule append_in_new) (rule that)
  next
    case False
    then have ne: "ele_list m h \<noteq> []" using hok by (auto simp: tail_with_space_def head_ok_def)
    obtain t e where t: "tailEle h = Some t" "eles m t = Some e"
      using hok ne by (rule head_ok_tail)
    with False have "e_entryNum e < HASH_ELEM_NUM" by (auto simp: tail_with_space_def split: if_splits)
    with ok h l full t show thesis by (rule append_in_tail) (rule that)
  qed
qed

text \<open>The append as a whole: it always returns, and reports whether the LSN was accepted.\<close>

lemma append_entry_ok:
  assumes ok: "hm_ok m" and h: "heads m a = Some h" and fresh: "eles m (blk_addr blk) = None"
    and es: "es = chain (eles m) h (ele_list m h)"
  obtains m' where "append_entry blk a l pn m = Some (m', lsn (last es) \<le> l)" "hm_ok m'"
    "versions m' = (versions m)(key h \<mapsto> (v_append es l pn, replayedLsn h))"
    "bucket_locks m' = bucket_locks m" "head_locks m' = head_locks m"
    "length (bucketList m') = length (bucketList m)"
proof (cases "l < maxLsn h")
  case True
  have mx: "maxLsn h = lsn (last es)" using hm_okD(4) [OF ok h] es by (simp add: head_ok_def)
  have "versions m (key h) = Some (es, replayedLsn h)"
    using locate_known [OF ok h] h es by (simp add: versions_def head_version_def)
  with True ok h mx show thesis
    by (intro that [of m]) (auto simp: append_entry_def v_append_def not_le intro!: map_upd_triv [symmetric])
next
  case False
  have mx: "maxLsn h = lsn (last es)" using hm_okD(4) [OF ok h] es by (simp add: head_ok_def)
  obtain h' E bs where ext: "extends m h blk l pn h' E bs" and
    run: "append_entry blk a l pn m = Some (m\<lparr>heads := (heads m)(a \<mapsto> h'), eles := E\<rparr>, True)"
  proof (cases "l = maxLsn h")
    case True
    with append_newest [OF ok h] that show thesis by metis
  next
    case ne: False
    with False have "maxLsn h < l" by simp
    with append_newer [OF ok h _ fresh] that show thesis by metis
  qed
  let ?m = "m\<lparr>heads := (heads m)(a \<mapsto> h'), eles := E\<rparr>"
  have new_or_old: "x \<in> set (ele_list m h) \<or> eles m x = None" if "x \<in> set bs" for x
    using ext fresh that by (auto simp: extends_def)
  have "hm_ok ?m" "versions ?m = (versions m)(key h \<mapsto> (chain E h' bs, replayedLsn h'))"
    using chain_update [OF ok h, of h' E bs, OF _ _ _ new_or_old] ext by (auto simp: extends_def)
  moreover have "chain E h' bs = v_append es l pn" "replayedLsn h' = replayedLsn h" "headLock h' = headLock h"
    using ext es by (auto simp: extends_def)
  moreover have "lsn (last es) \<le> l" using False mx by simp
  ultimately show thesis using run h
    by (intro that [of ?m]) (auto simp: bucket_locks_def head_locks_def fun_eq_iff)
qed

section \<open>Lookups\<close>

text \<open>
  The lookup phase of the operations that take the bucket lock for reading: the map is unchanged
  and the head, if there is one, is found.
\<close>

lemma lock_triv:
  "bucketLock b = l \<Longrightarrow> b\<lparr>bucketLock := l\<rparr> = b" "headLock h = l \<Longrightarrow> h\<lparr>headLock := l\<rparr> = h"
  by auto

lemma slot_free: "hm_ok m \<Longrightarrow> locks_free m \<Longrightarrow> bucket_locks m ! key_slot m k = Unlocked"
  using key_slot_bound [of m k] nth_mem [of "key_slot m k" "bucket_locks m"]
  by (auto simp: locks_free_def bucket_locks_def image_subset_iff)

lemma read_search:
  assumes ok: "hm_ok m" and free: "bucket_locks m ! key_slot m k = Unlocked"
  obtains m1 where "lock_bucket rdlock (key_slot m k) m = Some m1"
    "bucket_search m1 (key_slot m k) k = Some (locate m k)"
    "lock_bucket unlock (key_slot m k) m1 = Some m"
proof -
  let ?i = "key_slot m k"
  note i = key_slot_bound [OF ok, of k]
  have lk: "bucketLock (bucketList m ! ?i) = Unlocked" using free i by (simp add: bucket_locks_def)
  obtain m1 where m1: "lock_bucket rdlock ?i m = Some m1" "hm_ok m1" "locate m1 = locate m"
    "bucketNum m1 = bucketNum m"
    using ok i by (rule lock_bucket_ok [where f = rdlock and l = "RdLocked 1"]) (auto simp: free)
  then have "bucket_search m1 ?i k = Some (locate m k)"
    using bucket_search_locate [OF m1(2), of k] by (simp add: key_slot_def)
  moreover have "lock_bucket unlock ?i m1 = Some m"
    using m1(1) i lk by (auto simp: lock_bucket_def get_bucket_def upd_bucket_def lock_triv)
  ultimately show thesis using that m1(1) by blast
qed

lemma versions_locate:
  assumes "hm_ok m" "heads m a = Some h"
  shows "versions m (key h) = Some (chain (eles m) h (ele_list m h), replayedLsn h)"
  using locate_known [OF assms] assms by (simp add: versions_def head_version_def)

lemma locate_cases:
  assumes ok: "hm_ok m"
  obtains "locate m k = None" "versions m k = None"
  | a h where "locate m k = Some a" "heads m a = Some h" "key h = k"
      "head_ok (eles m) h (ele_list m h)"
      "versions m k = Some (chain (eles m) h (ele_list m h), replayedLsn h)"
proof (cases "locate m k")
  case None
  with that(1) show thesis by (simp add: versions_def)
next
  case (Some a)
  then obtain h where "heads m a = Some h" "key h = k" by (rule locateD [OF ok])
  with that(2) [OF Some] versions_locate [OF ok] hm_okD(4) [OF ok] show thesis by metis
qed

lemma HashMapFindLowerBoundEntry_ok:
  assumes ok: "hm_ok m" and free: "locks_free m"
  shows "HashMapFindLowerBoundEntry m k t =
    Some (m, Option.bind (versions m k) (\<lambda>(es, r). v_lower_bound es t))"
proof -
  obtain m1 where m1: "lock_bucket rdlock (key_slot m k) m = Some m1"
    "bucket_search m1 (key_slot m k) k = Some (locate m k)"
    "lock_bucket unlock (key_slot m k) m1 = Some m"
    using read_search [OF ok slot_free [OF ok free]] by blast
  show ?thesis
    using ok
  proof (cases rule: locate_cases [of m k])
    case 1
    with m1 show ?thesis by (simp add: HashMapFindLowerBoundEntry_def bucketPos_ok [OF ok])
  next
    case (2 a h)
    have lk: "headLock h = Unlocked"
      using free 2 by (auto simp: locks_free_def head_locks_def ran_def)
    let ?h = "h\<lparr>headLock := RdLocked 1\<rparr>" and ?m = "m\<lparr>heads := (heads m)(a \<mapsto> h\<lparr>headLock := RdLocked 1\<rparr>)\<rparr>"
    have "head_ok (eles ?m) ?h (ele_list m h)" "chain (eles m) ?h (ele_list m h) = chain (eles m) h (ele_list m h)"
      using 2(4) head_ok_content [of ?h h] by (simp_all add: head_content_def)
    with lower_bound_of_head_spec [of ?m ?h "ele_list m h" t]
    have "lower_bound_of_head ?m ?h t = Some (v_lower_bound (chain (eles m) h (ele_list m h)) t)" by simp
    then show ?thesis using m1 2 lk
      by (simp add: HashMapFindLowerBoundEntry_def bucketPos_ok [OF ok] lock_head_def upd_head_def map_upd_triv lock_triv)
  qed
qed

section \<open>Insertion\<close>

text \<open>
  What the first insertion for a key stores: a page key gets an empty first slot (to be filled
  with the LSN of the base page), any other key the LSN itself. The page numbers of a page key
  are not initialised.
\<close>

definition v_first :: "malloc_block \<Rightarrow> KeyType \<Rightarrow> u64 \<Rightarrow> u32 \<Rightarrow> bool \<Rightarrow> LsnEntry list" where
  "v_first blk k l pn noEmptyFirstSlot =
     (if BlkNum k \<noteq> - 1 \<and> \<not> noEmptyFirstSlot
      then [(blk_uninit blk 0)\<lparr>lsn := 0\<rparr>, (blk_uninit blk 1)\<lparr>lsn := l\<rparr>]
      else [\<lparr>lsn = l, pageNum = pn\<rparr>])"

definition v_insert where
  "v_insert blk v k l pn noEmptyFirstSlot =
     (case v k of
        None \<Rightarrow> (v(k \<mapsto> (v_first blk k l pn noEmptyFirstSlot, 0)), True)
      | Some (es, r) \<Rightarrow> (v(k \<mapsto> (v_append es l pn, r)), lsn (last es) \<le> l))"

lemma new_head_ok:
  assumes l: "l \<noteq> 0"
  shows "head_ok E (new_head blk k pos l pn ne) []"
    and "head_entries (new_head blk k pos l pn ne) = v_first blk k l pn ne"
proof -
  show ents: "head_entries (new_head blk k pos l pn ne) = v_first blk k l pn ne"
    by (auto simp: head_entries_def new_head_def v_first_def Let_def upt_rec)
  show "head_ok E (new_head blk k pos l pn ne) []"
    using l unfolding head_ok_def chain_def ents
    by (auto simp: new_head_def v_first_def Let_def word_neq_0_conv)
qed

text \<open>The lookup phase of the operations that take the bucket lock for writing.\<close>

lemma write_search:
  assumes ok: "hm_ok m" and free: "locks_free m"
  obtains m1 where "lock_bucket wrlock (key_slot m k) m = Some m1"
    "bucket_search m1 (key_slot m k) k = Some (locate m k)" "hm_ok m1" "versions m1 = versions m"
    "locate m1 = locate m" "bucket_locks m1 = (bucket_locks m)[key_slot m k := WrLocked]"
    "head_locks m1 = head_locks m" "heads m1 = heads m" "eles m1 = eles m"
    "key_slot m1 k = key_slot m k" "key_slot m k < length (bucketList m1)"
proof -
  note i = key_slot_bound [OF ok, of k]
  have free_i: "bucket_locks m ! key_slot m k = Unlocked" by (rule slot_free [OF ok free])
  obtain m1 where m1: "lock_bucket wrlock (key_slot m k) m = Some m1" "hm_ok m1" "versions m1 = versions m"
    "locate m1 = locate m" "bucket_locks m1 = (bucket_locks m)[key_slot m k := WrLocked]"
    "head_locks m1 = head_locks m" "heads m1 = heads m" "eles m1 = eles m" "bucketNum m1 = bucketNum m"
    using ok i by (rule lock_bucket_ok [where f = wrlock and l = WrLocked]) (auto simp: free_i)
  then have "bucket_search m1 (key_slot m k) k = Some (locate m k)" "key_slot m1 k = key_slot m k"
    using bucket_search_locate [OF m1(2), of k] by (simp_all add: key_slot_def)
  with m1 key_slot_bound [OF m1(2), of k] show thesis by (intro that [of m1]) simp_all
qed

lemma write_unlock:
  assumes ok: "hm_ok m2" and i: "i < length (bucketList m2)"
    and lk: "bucket_locks m2 = ls[i := WrLocked]" "ls ! i = Unlocked"
  obtains m3 where "lock_bucket unlock i m2 = Some m3" "hm_ok m3" "versions m3 = versions m2"
    "locate m3 = locate m2" "bucket_locks m3 = ls" "head_locks m3 = head_locks m2"
    "heads m3 = heads m2" "eles m3 = eles m2" "length (bucketList m3) = length (bucketList m2)"
proof -
  have len: "length ls = length (bucketList m2)"
    using lk(1) by (metis bucket_locks_def length_list_update length_map)
  have "unlock (bucket_locks m2 ! i) = Some Unlocked" using lk i len by simp
  with ok i obtain m3 where m3: "lock_bucket unlock i m2 = Some m3" "hm_ok m3" "versions m3 = versions m2"
    "locate m3 = locate m2" "bucket_locks m3 = (bucket_locks m2)[i := Unlocked]"
    "head_locks m3 = head_locks m2" "heads m3 = heads m2" "eles m3 = eles m2"
    by (rule lock_bucket_ok)
  moreover have "ls[i := Unlocked] = ls" using lk(2) by (metis list_update_id)
  moreover have "length (bucketList m3) = length (bucketList m2)"
    using m3(5) by (metis bucket_locks_def length_list_update length_map)
  ultimately show thesis using lk(1) by (intro that [of m3]) simp_all
qed

text \<open>An existing head is moved to the front of its bucket and the bucket lock is released.\<close>

lemma front_phase:
  assumes ok: "hm_ok m" and free: "locks_free m" and a: "locate m k = Some a" "heads m a = Some h"
  obtains m1 m2 m3 h3 where "lock_bucket wrlock (key_slot m k) m = Some m1"
    "bucket_search m1 (key_slot m k) k = Some (Some a)"
    "move_to_front a m1 = Some m2" "lock_bucket unlock (key_slot m k) m2 = Some m3"
    "hm_ok m3" "versions m3 = versions m" "locate m3 = locate m" "locks_free m3" "eles m3 = eles m"
    "heads m3 a = Some h3" "head_content h3 = head_content h"
proof -
  let ?i = "key_slot m k"
  obtain m1 where m1: "lock_bucket wrlock ?i m = Some m1" "bucket_search m1 ?i k = Some (locate m k)"
    "hm_ok m1" "versions m1 = versions m" "locate m1 = locate m"
    "bucket_locks m1 = (bucket_locks m)[?i := WrLocked]" "head_locks m1 = head_locks m"
    "heads m1 = heads m" "eles m1 = eles m" "?i < length (bucketList m1)"
    by (rule write_search [OF ok free])
  obtain m2 h2 where m2: "move_to_front a m1 = Some m2" "hm_ok m2" "versions m2 = versions m1"
    "locate m2 = locate m1" "bucket_locks m2 = bucket_locks m1" "head_locks m2 = head_locks m1"
    "eles m2 = eles m1" "heads m2 a = Some h2" "head_content h2 = head_content h"
    "length (bucketList m2) = length (bucketList m1)"
    using move_to_front_ok [OF m1(3), of a h] m1(8) a(2) by metis
  have i2: "?i < length (bucketList m2)" using m1(10) m2(10) by simp
  have lk: "bucket_locks m2 = (bucket_locks m)[?i := WrLocked]" using m1(6) m2(5) by simp
  obtain m3 where m3: "lock_bucket unlock ?i m2 = Some m3" "hm_ok m3" "versions m3 = versions m2"
    "locate m3 = locate m2" "bucket_locks m3 = bucket_locks m" "head_locks m3 = head_locks m2"
    "heads m3 = heads m2" "eles m3 = eles m2"
    using write_unlock [OF m2(2) i2 lk slot_free [OF ok free]] by blast
  have "locks_free m3" using free m3 m2(6) m1(7) by (simp add: locks_free_def)
  then show thesis using m1 m2 m3 a by (intro that [of m1 m2 m3 h2]) simp_all
qed

lemma locks_free_head: "locks_free m \<Longrightarrow> heads m a = Some h \<Longrightarrow> head_locks m a = Some Unlocked"
  by (auto simp: locks_free_def head_locks_def ran_def)

lemma HashMapInsertKey_new:
  assumes ok: "hm_ok m" and free: "locks_free m" and l: "l \<noteq> 0"
    and fresh: "heads m (blk_addr blk) = None" and none: "locate m k = None"
  obtains m' where "HashMapInsertKey blk m k l pn ne = Some (m', True)" "hm_ok m'" "locks_free m'"
    "versions m' = (versions m)(k \<mapsto> (v_first blk k l pn ne, 0))"
proof -
  let ?i = "key_slot m k" and ?h = "new_head blk k (key_slot m k) l pn ne"
  obtain m1 where m1: "lock_bucket wrlock ?i m = Some m1" "bucket_search m1 ?i k = Some (locate m k)"
    "hm_ok m1" "versions m1 = versions m" "locate m1 = locate m"
    "bucket_locks m1 = (bucket_locks m)[?i := WrLocked]" "head_locks m1 = head_locks m"
    "heads m1 = heads m" "key_slot m1 k = ?i" "?i < length (bucketList m1)"
    by (rule write_search [OF ok free])
  have hd: "key ?h = k" "bucket ?h = ?i" "hashValue ?h = HashKey k" "prevHead ?h = None"
    "replayedLsn ?h = 0" "headLock ?h = Unlocked"
    by (simp_all add: new_head_def Let_def)
  obtain m2 where m2: "push_head (blk_addr blk) ?h m1 = Some m2" "hm_ok m2"
    "versions m2 = (versions m1)(k \<mapsto> (head_entries ?h, replayedLsn ?h))"
    "bucket_locks m2 = bucket_locks m1" "head_locks m2 = (head_locks m1)(blk_addr blk \<mapsto> headLock ?h)"
    "length (bucketList m2) = length (bucketList m1)"
    using push_head_ok [OF m1(3), of "blk_addr blk" ?h] m1 fresh none hd new_head_ok(1) [OF l] by metis
  have i2: "?i < length (bucketList m2)" using m1(10) m2(6) by simp
  have lk: "bucket_locks m2 = (bucket_locks m)[?i := WrLocked]" using m1(6) m2(4) by simp
  obtain m3 where m3: "lock_bucket unlock ?i m2 = Some m3" "hm_ok m3" "versions m3 = versions m2"
    "bucket_locks m3 = bucket_locks m" "head_locks m3 = head_locks m2"
    using write_unlock [OF m2(2) i2 lk slot_free [OF ok free]] by blast
  have "locks_free m3" using free m3 m2(5) m1(7) hd(6)
    by (auto simp: locks_free_def ran_def split: if_splits)
  with m1 m2 m3 none hd(5) new_head_ok(2) [OF l] show thesis
    by (intro that [of m3]) (simp_all add: HashMapInsertKey_def bucketPos_ok [OF ok])
qed

lemma HashMapInsertKey_old:
  assumes ok: "hm_ok m" and free: "locks_free m"
    and fresh: "eles m (blk_addr blk) = None" and a: "locate m k = Some a" "versions m k = Some (es, r)"
  obtains m' where "HashMapInsertKey blk m k l pn ne = Some (m', lsn (last es) \<le> l)" "hm_ok m'"
    "locks_free m'" "versions m' = (versions m)(k \<mapsto> (v_append es l pn, r))"
proof -
  obtain h where h: "heads m a = Some h" "key h = k" using locateD [OF ok a(1)] by blast
  obtain m1 m2 m3 h3 where run: "lock_bucket wrlock (key_slot m k) m = Some m1"
    "bucket_search m1 (key_slot m k) k = Some (Some a)"
    "move_to_front a m1 = Some m2" "lock_bucket unlock (key_slot m k) m2 = Some m3"
    and m3: "hm_ok m3" "versions m3 = versions m" "locate m3 = locate m" "locks_free m3" "eles m3 = eles m"
    and h3: "heads m3 a = Some h3" "head_content h3 = head_content h"
    by (rule front_phase [OF ok free a(1) h(1)])
  obtain m4 h4 where m4: "lock_head rdlock a m3 = Some m4" "hm_ok m4" "versions m4 = versions m3"
    "bucket_locks m4 = bucket_locks m3" "head_locks m4 = (head_locks m3)(a \<mapsto> RdLocked 1)"
    "heads m4 a = Some h4" "eles m4 = eles m3" "key h4 = key h3"
    by (rule lock_head_ok [OF m3(1) locks_free_head [OF m3(4) h3(1)], of rdlock "RdLocked 1"])
      (use h3 in \<open>auto intro: that\<close>)
  have k4: "key h4 = k" using m4(8) h3(2) h(2) by (simp add: head_content_def)
  have es: "es = chain (eles m4) h4 (ele_list m4 h4)" "r = replayedLsn h4"
    using versions_locate [OF m4(2,6)] k4 a(2) m4(3) m3(2) by auto
  have fresh4: "eles m4 (blk_addr blk) = None" using fresh m4(7) m3(5) by simp
  obtain m5 where m5: "append_entry blk a l pn m4 = Some (m5, lsn (last es) \<le> l)" "hm_ok m5"
    "versions m5 = (versions m4)(key h4 \<mapsto> (v_append es l pn, replayedLsn h4))"
    "bucket_locks m5 = bucket_locks m4" "head_locks m5 = head_locks m4"
    by (rule append_entry_ok [OF m4(2,6) fresh4 es(1)])
  have lk5: "head_locks m5 a = Some (RdLocked 1)" using m5(5) m4(5) by simp
  obtain m6 where m6: "lock_head unlock a m5 = Some m6" "hm_ok m6" "versions m6 = versions m5"
    "bucket_locks m6 = bucket_locks m5" "head_locks m6 = (head_locks m5)(a \<mapsto> Unlocked)"
    by (rule lock_head_ok [OF m5(2) lk5, of unlock Unlocked]) auto
  have "locks_free m6" using m3(4) m6(4,5) m5(4,5) m4(4,5)
    by (auto simp: locks_free_def ran_def split: if_splits)
  with run m4 m5 m6 es(2) k4 m3(2) show thesis
    by (intro that [of m6]) (simp_all add: HashMapInsertKey_def bucketPos_ok [OF ok])
qed

lemma HashMapInsertKey_spec:
  assumes ok: "hm_ok m" and free: "locks_free m" and l: "l \<noteq> 0"
    and fresh: "heads m (blk_addr blk) = None" "eles m (blk_addr blk) = None"
  shows "\<exists>m'. HashMapInsertKey blk m k l pn ne = Some (m', snd (v_insert blk (versions m) k l pn ne)) \<and>
    hm_ok m' \<and> locks_free m' \<and> versions m' = fst (v_insert blk (versions m) k l pn ne)"
  using ok
proof (cases rule: locate_cases [of m k])
  case 1
  with HashMapInsertKey_new [OF ok free l fresh(1)] show ?thesis
    by (simp add: v_insert_def) metis
next
  case (2 a h)
  with HashMapInsertKey_old [OF ok free fresh(2)] show ?thesis
    by (simp add: v_insert_def) metis
qed

section \<open>The records to replay\<close>

text \<open>
  \<open>held m k\<close>: the head of \<open>k\<close> is locked for writing and every other lock is free. This is how
  \<open>HashMapGetBlockReplayList\<close> leaves the map when there is something to replay, and what
  \<open>HashMapUpdateReplayedLsn\<close> expects when it is called with \<open>holdHeadLock\<close>.
\<close>

definition held :: "HashMap \<Rightarrow> KeyType \<Rightarrow> bool" where
  "held m k \<longleftrightarrow> (\<exists>a. locate m k = Some a \<and> head_locks m a = Some WrLocked \<and>
     ran ((head_locks m)(a := None)) \<subseteq> {Unlocked}) \<and> set (bucket_locks m) \<subseteq> {Unlocked}"

definition v_get_replay where
  "v_get_replay v k t = Option.bind (v k) (\<lambda>(es, r). v_replay_list es r t)"

definition to_replay :: "(u64 \<times> u64 list) option \<Rightarrow> bool" where
  "to_replay res \<longleftrightarrow> (case res of Some (_, _ # _) \<Rightarrow> True | _ \<Rightarrow> False)"

lemma locks_after_wrlock:
  assumes "locks_free m" "locate m' k = Some a"
    "bucket_locks m' = bucket_locks m" "head_locks m' = (head_locks m)(a \<mapsto> WrLocked)"
  shows "held m' k"
  using assms by (auto simp: held_def locks_free_def ran_def)

lemma HashMapGetBlockReplayList_spec:
  assumes ok: "hm_ok m" and free: "locks_free m"
  shows "\<exists>m'. HashMapGetBlockReplayList m k t = Some (m', v_get_replay (versions m) k t) \<and>
    hm_ok m' \<and> versions m' = versions m \<and>
    (if to_replay (v_get_replay (versions m) k t) then held m' k else locks_free m')"
  using ok
proof (cases rule: locate_cases [of m k])
  case 1
  obtain m1 where m1: "lock_bucket wrlock (key_slot m k) m = Some m1"
    "bucket_search m1 (key_slot m k) k = Some (locate m k)" "hm_ok m1" "versions m1 = versions m"
    "bucket_locks m1 = (bucket_locks m)[key_slot m k := WrLocked]" "head_locks m1 = head_locks m"
    "key_slot m k < length (bucketList m1)"
    by (rule write_search [OF ok free])
  obtain m2 where m2: "lock_bucket unlock (key_slot m k) m1 = Some m2" "hm_ok m2" "versions m2 = versions m1"
    "bucket_locks m2 = bucket_locks m" "head_locks m2 = head_locks m1"
    using write_unlock [OF m1(3,7,5) slot_free [OF ok free]] by blast
  with 1 m1 free show ?thesis
    by (simp add: HashMapGetBlockReplayList_def bucketPos_ok [OF ok] v_get_replay_def to_replay_def locks_free_def)
next
  case (2 a h)
  obtain m1 m2 m3 h3 where run: "lock_bucket wrlock (key_slot m k) m = Some m1"
    "bucket_search m1 (key_slot m k) k = Some (Some a)"
    "move_to_front a m1 = Some m2" "lock_bucket unlock (key_slot m k) m2 = Some m3"
    and m3: "hm_ok m3" "versions m3 = versions m" "locate m3 = locate m" "locks_free m3"
    and h3: "heads m3 a = Some h3" "head_content h3 = head_content h"
    by (rule front_phase [OF ok free 2(1,2)])
  obtain m4 h4 where m4: "lock_head wrlock a m3 = Some m4" "hm_ok m4" "versions m4 = versions m3"
    "locate m4 = locate m3" "bucket_locks m4 = bucket_locks m3" "head_locks m4 = (head_locks m3)(a \<mapsto> WrLocked)"
    "heads m4 a = Some h4" "key h4 = key h3"
    by (rule lock_head_ok [OF m3(1) locks_free_head [OF m3(4) h3(1)], of wrlock WrLocked])
      (use h3 in \<open>auto intro: that\<close>)
  have k4: "key h4 = k" using m4(8) h3(2) 2(3) by (simp add: head_content_def)
  let ?r = "v_get_replay (versions m) k t"
  have res: "replay_list_of_head m4 h4 t = Some ?r"
    using replay_list_of_head_spec [OF hm_okD(4) [OF m4(2,7)], of t] versions_locate [OF m4(2,7)] k4 m4(3) m3(2)
    by (simp add: v_get_replay_def)
  have held: "held m4 k" using locks_after_wrlock [OF m3(4) _ m4(5,6)] m4(4) m3(3) 2(1) by simp
  have lk4: "head_locks m4 a = Some WrLocked" using m4(6) by simp
  obtain m5 where m5: "lock_head unlock a m4 = Some m5" "hm_ok m5" "versions m5 = versions m4"
    "bucket_locks m5 = bucket_locks m4" "head_locks m5 = (head_locks m4)(a \<mapsto> Unlocked)"
    by (rule lock_head_ok [OF m4(2) lk4, of unlock Unlocked]) auto
  have "locks_free m5" using m3(4) m5(4,5) m4(5,6)
    by (auto simp: locks_free_def ran_def split: if_splits)
  with run m4 m5 res held m3(2) show ?thesis
    by (cases "to_replay ?r")
      (auto simp: HashMapGetBlockReplayList_def bucketPos_ok [OF ok] to_replay_def
        split: option.splits list.splits prod.splits)
qed

text \<open>Recording that the page is replayed up to \<open>l\<close>; the head lock is released.\<close>

definition v_replayed where
  "v_replayed v k l =
     (case v k of None \<Rightarrow> (v, False)
      | Some (es, r) \<Rightarrow> (v(k \<mapsto> (es, max r l)), r < l))"

lemma replayed_update:
  assumes ok: "hm_ok m" and h: "heads m a = Some h"
  shows "hm_ok (m\<lparr>heads := (heads m)(a \<mapsto> h\<lparr>replayedLsn := l\<rparr>)\<rparr>)"
    and "versions (m\<lparr>heads := (heads m)(a \<mapsto> h\<lparr>replayedLsn := l\<rparr>)\<rparr>) =
      (versions m)(key h \<mapsto> (chain (eles m) h (ele_list m h), l))"
proof -
  have "head_ok (eles m) (h\<lparr>replayedLsn := l\<rparr>) (ele_list m h)"
    "chain (eles m) (h\<lparr>replayedLsn := l\<rparr>) (ele_list m h) = chain (eles m) h (ele_list m h)"
    using hm_okD(4) [OF ok h] by (simp_all add: head_ok_def chain_def head_entries_def)
  then show "hm_ok (m\<lparr>heads := (heads m)(a \<mapsto> h\<lparr>replayedLsn := l\<rparr>)\<rparr>)"
    "versions (m\<lparr>heads := (heads m)(a \<mapsto> h\<lparr>replayedLsn := l\<rparr>)\<rparr>) =
      (versions m)(key h \<mapsto> (chain (eles m) h (ele_list m h), l))"
    using chain_update [OF ok h, of "h\<lparr>replayedLsn := l\<rparr>" "eles m" "ele_list m h"]
    by (simp_all add: head_index_def)
qed

text \<open>The part of \<open>HashMapUpdateReplayedLsn\<close> that runs with the head lock held.\<close>

lemma replayed_locked:
  assumes ok: "hm_ok m" and hld: "held m k" and v: "versions m k = Some (es, r)"
    and a: "locate m k = Some a"
  obtains m' where "do { h \<leftarrow> heads m a;
        (if replayedLsn h < l then do {
           m \<leftarrow> upd_head a (\<lambda>h. h\<lparr>replayedLsn := l\<rparr>) m;
           m \<leftarrow> lock_head unlock a m;
           Some (m, True) }
         else do { m \<leftarrow> lock_head unlock a m; Some (m, False) }) } = Some (m', r < l)"
    "hm_ok m'" "locks_free m'" "versions m' = (versions m)(k \<mapsto> (es, max r l))"
proof -
  obtain h where h: "heads m a = Some h" "key h = k" using locateD [OF ok a] by blast
  have er: "es = chain (eles m) h (ele_list m h)" "r = replayedLsn h"
    using versions_locate [OF ok h(1)] h(2) v by auto
  have lk: "head_locks m a = Some WrLocked" "ran ((head_locks m)(a := None)) \<subseteq> {Unlocked}"
    "set (bucket_locks m) \<subseteq> {Unlocked}"
    using hld a by (auto simp: held_def)
  define m1 where "m1 = (if r < l then m\<lparr>heads := (heads m)(a \<mapsto> h\<lparr>replayedLsn := l\<rparr>)\<rparr> else m)"
  have m1: "hm_ok m1" "versions m1 = (versions m)(k \<mapsto> (es, max r l))"
    "head_locks m1 = head_locks m" "bucket_locks m1 = bucket_locks m"
    using replayed_update [OF ok h(1), of l] ok h er v
    by (auto simp: m1_def head_locks_def bucket_locks_def fun_eq_iff max_def not_less map_upd_triv)
  have lk1: "head_locks m1 a = Some WrLocked" using lk m1(3) by simp
  obtain m2 where m2: "lock_head unlock a m1 = Some m2" "hm_ok m2" "versions m2 = versions m1"
    "bucket_locks m2 = bucket_locks m1" "head_locks m2 = (head_locks m1)(a \<mapsto> Unlocked)"
    by (rule lock_head_ok [OF m1(1) lk1, of unlock Unlocked]) auto
  have "locks_free m2" using lk m1(3,4) m2(4,5) by (auto simp: locks_free_def ran_def split: if_splits)
  with m2 m1 h er show thesis
    by (intro that [of m2]) (auto simp: m1_def upd_head_def split: if_splits)
qed

lemma slot_free_held: "hm_ok m \<Longrightarrow> held m k' \<Longrightarrow> bucket_locks m ! key_slot m k = Unlocked"
  using key_slot_bound [of m k] nth_mem [of "key_slot m k" "bucket_locks m"]
  by (auto simp: held_def bucket_locks_def image_subset_iff)

lemma HashMapUpdateReplayedLsn_held:
  assumes ok: "hm_ok m" and hld: "held m k"
  shows "\<exists>m'. HashMapUpdateReplayedLsn m k l True = Some (m', snd (v_replayed (versions m) k l)) \<and>
    hm_ok m' \<and> locks_free m' \<and> versions m' = fst (v_replayed (versions m) k l)"
proof -
  obtain m1 where m1: "lock_bucket rdlock (key_slot m k) m = Some m1"
    "bucket_search m1 (key_slot m k) k = Some (locate m k)"
    "lock_bucket unlock (key_slot m k) m1 = Some m"
    using read_search [OF ok slot_free_held [OF ok hld]] by blast
  show ?thesis
    using ok
  proof (cases rule: locate_cases [of m k])
    case 1
    with hld show ?thesis by (simp add: held_def)
  next
    case (2 a h)
    show ?thesis
      by (rule replayed_locked [OF ok hld 2(5,1), of l])
        (use m1 2 in \<open>simp add: HashMapUpdateReplayedLsn_def bucketPos_ok [OF ok] v_replayed_def\<close>)
  qed
qed

lemma HashMapUpdateReplayedLsn_free:
  assumes ok: "hm_ok m" and free: "locks_free m"
  shows "\<exists>m'. HashMapUpdateReplayedLsn m k l False = Some (m', snd (v_replayed (versions m) k l)) \<and>
    hm_ok m' \<and> locks_free m' \<and> versions m' = fst (v_replayed (versions m) k l)"
proof -
  obtain m1 where m1: "lock_bucket rdlock (key_slot m k) m = Some m1"
    "bucket_search m1 (key_slot m k) k = Some (locate m k)"
    "lock_bucket unlock (key_slot m k) m1 = Some m"
    using read_search [OF ok slot_free [OF ok free]] by blast
  show ?thesis
    using ok
  proof (cases rule: locate_cases [of m k])
    case 1
    with m1 ok free show ?thesis
      by (simp add: HashMapUpdateReplayedLsn_def bucketPos_ok [OF ok] v_replayed_def)
  next
    case (2 a h)
    obtain m2 where m2: "lock_head wrlock a m = Some m2" "hm_ok m2" "versions m2 = versions m"
      "locate m2 = locate m" "bucket_locks m2 = bucket_locks m" "head_locks m2 = (head_locks m)(a \<mapsto> WrLocked)"
      by (rule lock_head_ok [OF ok locks_free_head [OF free 2(2)], of wrlock WrLocked]) auto
    have hld: "held m2 k" using locks_after_wrlock [OF free _ m2(5,6)] m2(4) 2(1) by simp
    have v2: "versions m2 k = Some (chain (eles m) h (ele_list m h), replayedLsn h)" "locate m2 k = Some a"
      using 2 m2(3,4) by simp_all
    show ?thesis
      by (rule replayed_locked [OF m2(2) hld v2, of l])
        (rule exI, use m1 2 m2(1,3) in \<open>auto simp: HashMapUpdateReplayedLsn_def
          bucketPos_ok [OF ok] v_replayed_def split: if_splits\<close>)
  qed
qed

section \<open>The LSN of the base page\<close>

text \<open>
  \<open>HashMapUpdateFirstEmptySlot\<close> fills the empty first slot of a page key with the LSN of the base
  page. The chain stays sorted when that LSN is below the first record of the page.
\<close>

definition v_fill_first where
  "v_fill_first v k l =
     (case v k of None \<Rightarrow> (v, False)
      | Some (es, r) \<Rightarrow>
          (if lsn (hd es) = 0 then (v(k \<mapsto> ((hd es)\<lparr>lsn := l\<rparr> # tl es, max r l)), True) else (v, False)))"

definition base_below :: "(KeyType \<rightharpoonup> LsnEntry list \<times> u64) \<Rightarrow> KeyType \<Rightarrow> u64 \<Rightarrow> bool" where
  "base_below v k l \<longleftrightarrow> (\<forall>es r. v k = Some (es, r) \<longrightarrow> 1 < length es \<and> l < lsn (es ! 1))"

lemma lsorted_new_first: "lsorted (x # y # zs) \<Longrightarrow> l < lsn y \<Longrightarrow> lsorted (x\<lparr>lsn := l\<rparr> # y # zs)"
  by (auto intro: less_trans)

lemma head_ok_fill_first:
  assumes ok: "head_ok E h as" and len: "1 < length (chain E h as)" and l: "l < lsn (chain E h as ! 1)"
    and h': "h' = h\<lparr>lsnEntry := (lsnEntry h)[0 := (lsnEntry h ! 0)\<lparr>lsn := l\<rparr>], replayedLsn := r\<rparr>"
  shows "head_ok E h' as" and "chain E h' as = (hd (chain E h as))\<lparr>lsn := l\<rparr> # tl (chain E h as)"
proof -
  have two: "2 \<le> entryNum h"
  proof (rule ccontr)
    assume "\<not> 2 \<le> entryNum h"
    with ok have "as = []" "nat (entryNum h) = 1" by (auto simp: head_ok_def)
    with len show False by (simp add: chain_def head_entries_def)
  qed
  with ok obtain x y zs where xs: "lsnEntry h = x # y # zs"
    by (cases "lsnEntry h"; cases "tl (lsnEntry h)") (auto simp: head_ok_def)
  have "2 \<le> nat (entryNum h)" using two by simp
  then obtain n where n: "nat (entryNum h) = Suc (Suc n)" by (metis add_2_eq_Suc le_Suc_ex)
  have ch: "chain E h as = x # y # take n zs @ eles_entries E as"
    "chain E h' as = x\<lparr>lsn := l\<rparr> # y # take n zs @ eles_entries E as"
    by (simp_all add: chain_def head_entries_def xs n h')
  then show "chain E h' as = (hd (chain E h as))\<lparr>lsn := l\<rparr> # tl (chain E h as)" by simp
  have "lsorted (chain E h' as)"
    using lsorted_new_first [of x y "take n zs @ eles_entries E as" l] ok l
    unfolding ch head_ok_def by simp
  moreover have "last (chain E h' as) = last (chain E h as)" by (simp add: ch)
  ultimately show "head_ok E h' as" using ok by (simp add: head_ok_def h')
qed

lemma HashMapUpdateFirstEmptySlot_spec:
  assumes ok: "hm_ok m" and free: "locks_free m" and below: "base_below (versions m) k l"
  shows "\<exists>m'. HashMapUpdateFirstEmptySlot m k l = Some (m', snd (v_fill_first (versions m) k l)) \<and>
    hm_ok m' \<and> locks_free m' \<and> versions m' = fst (v_fill_first (versions m) k l)"
proof -
  obtain m1 where m1: "lock_bucket rdlock (key_slot m k) m = Some m1"
    "bucket_search m1 (key_slot m k) k = Some (locate m k)"
    "lock_bucket unlock (key_slot m k) m1 = Some m"
    using read_search [OF ok slot_free [OF ok free]] by blast
  show ?thesis
    using ok
  proof (cases rule: locate_cases [of m k])
    case 1
    with m1 ok free show ?thesis
      by (simp add: HashMapUpdateFirstEmptySlot_def bucketPos_ok [OF ok] v_fill_first_def)
  next
    case (2 a h)
    let ?es = "chain (eles m) h (ele_list m h)" and ?r = "max (replayedLsn h) l"
    let ?h = "h\<lparr>lsnEntry := (lsnEntry h)[0 := (lsnEntry h ! 0)\<lparr>lsn := l\<rparr>], replayedLsn := ?r\<rparr>"
    let ?m = "m\<lparr>heads := (heads m)(a \<mapsto> ?h)\<rparr>"
    have hd: "hd ?es = lsnEntry h ! 0" and get: "arr_get (lsnEntry h) 0 = Some (lsnEntry h ! 0)"
      "arr_upd (lsnEntry h) 0 f = Some ((lsnEntry h)[0 := f (lsnEntry h ! 0)])" for f
      using 2(4) by (cases "lsnEntry h"; auto simp: head_ok_def chain_def head_entries_def)+
    have "1 < length ?es" "l < lsn (?es ! 1)" using below 2(5) by (auto simp: base_below_def)
    note fill = head_ok_fill_first [OF 2(4) this refl, of ?r]
    have upd: "hm_ok ?m" "versions ?m = (versions m)(k \<mapsto> ((hd ?es)\<lparr>lsn := l\<rparr> # tl ?es, ?r))"
      using chain_update [OF ok 2(2), of ?h "eles m" "ele_list m h"] fill 2(3) by (simp_all add: head_index_def)
    have "head_locks ?m = head_locks m" "bucket_locks ?m = bucket_locks m"
      using 2(2) by (auto simp: bucket_locks_def head_locks_def fun_eq_iff)
    with free have "locks_free ?m" by (simp add: locks_free_def)
    moreover have "(if replayedLsn h < l then l else replayedLsn h) = ?r" by (auto simp: max_def)
    ultimately show ?thesis using m1 2 upd hd get ok free
      by (simp add: HashMapUpdateFirstEmptySlot_def bucketPos_ok [OF ok] v_fill_first_def upd_head_def)
  qed
qed

section \<open>Creating the map\<close>

lemma HashMapInit_fields [simp]:
  "bucketNum (HashMapInit n) = n" "heads (HashMapInit n) = Map.empty" "eles (HashMapInit n) = Map.empty"
  "length (bucketList (HashMapInit n)) = nat (sint n)"
  "i < nat (sint n) \<Longrightarrow> nodeList (bucketList (HashMapInit n) ! i) = None"
  "bucket_locks (HashMapInit n) = replicate (nat (sint n)) Unlocked"
  by (simp_all add: HashMapInit_def bucket_locks_def)

lemma sint_nonneg:
  assumes "0 \<le> sint (n :: u32)"
  shows "nat (sint n) = unat n"
proof -
  have s: "sint n = signed_take_bit 31 (uint n)" by (simp add: sint_uint)
  with assms have nb: "\<not> bit (uint n) 31" by (simp only: signed_take_bit_nonnegative_iff not_False_eq_True)
  have "take_bit 32 (uint n) = uint n" by (rule bintr_uint) simp
  then have "take_bit 31 (uint n) = uint n"
    using nb take_bit_Suc_from_most [of 31 "uint n"] by simp
  then have "sint n = uint n" using s signed_take_bit_eq_if_positive [OF nb] by (simp only:)
  then have "nat (sint n) = nat (uint n)" by (rule arg_cong)
  then show ?thesis by (simp only: unat_eq_nat_uint)
qed

lemma HashMapInit_ok:
  assumes "0 < sint n"
  shows "hm_ok (HashMapInit n)" "locks_free (HashMapInit n)" "versions (HashMapInit n) = Map.empty"
proof -
  show ok: "hm_ok (HashMapInit n)"
  proof (rule hm_okI)
    fix i assume "i < length (bucketList (HashMapInit n))"
    then have "bucket_ok (HashMapInit n) i []" by (simp add: bucket_ok_def)
    then show "\<exists>as. bucket_ok (HashMapInit n) i as" by blast
  qed (use assms sint_nonneg [of n] in auto)
  show "locks_free (HashMapInit n)"
    by (auto simp: locks_free_def head_locks_def ran_def)
  have "versions (HashMapInit n) k \<noteq> Some v" for k v by (simp add: versions_iff [OF ok])
  then show "versions (HashMapInit n) = Map.empty" by (intro ext) (rule option_eqI, simp)
qed

end
