(* ===== verification/VersionIndex.thy ===== *)
theory VersionIndex
  imports VersionMap
begin

text \<open>
  The contract between the page version map and its clients (the WAL parser that inserts, the
  page server that asks what to replay), as a locale, and what clients get from it. The locale is
  interpreted on the operations of \<open>logindex_hashmap.cpp\<close>.
\<close>

section \<open>Clients\<close>

text \<open>Inserting the LSNs of a key one after another; \<open>alloc\<close> is the allocator.\<close>

primrec run_inserts ::
    "(malloc_block \<Rightarrow> 's \<Rightarrow> KeyType \<Rightarrow> u64 \<Rightarrow> u32 \<Rightarrow> bool \<Rightarrow> ('s \<times> bool) option) \<Rightarrow>
     ('s \<Rightarrow> malloc_block) \<Rightarrow> KeyType \<Rightarrow> bool \<Rightarrow> 's \<Rightarrow> (u64 \<times> u32) list \<Rightarrow> 's option" where
  "run_inserts ins alloc k ne s [] = Some s"
| "run_inserts ins alloc k ne s (x # xs) =
     do { (s', r) \<leftarrow> ins (alloc s) s k (fst x) (snd x) ne; run_inserts ins alloc k ne s' xs }"

text \<open>
  Asking for the records up to \<open>t\<close>, replaying them, and recording the last one as replayed: the
  way \<open>ReadBufferCommon\<close> and the vacuumer use the map.
\<close>

definition catch_up ::
    "('s \<Rightarrow> KeyType \<Rightarrow> u64 \<Rightarrow> ('s \<times> (u64 \<times> u64 list) option) option) \<Rightarrow>
     ('s \<Rightarrow> KeyType \<Rightarrow> u64 \<Rightarrow> ('s \<times> bool) option) \<Rightarrow>
     's \<Rightarrow> KeyType \<Rightarrow> u64 \<Rightarrow> ('s \<times> u64 list) option" where
  "catch_up replay mark s k t =
     do { (s, res) \<leftarrow> replay s k t;
          (case res of
             Some (r, x # xs) \<Rightarrow> do { (s, _) \<leftarrow> mark s k (last (x # xs)); Some (s, x # xs) }
           | _ \<Rightarrow> Some (s, [])) }"

text \<open>The window of a sorted chain ends at the newest version: nothing is left behind it.\<close>

lemma window_bounds: "x \<in> set (window r t es) \<Longrightarrow> r < x \<and> x \<le> t"
  by auto

lemma window_exhausted:
  assumes "lsorted es" "window r t es \<noteq> []"
  shows "window (last (window r t es)) t es = []"
proof -
  let ?f = "filter (\<lambda>e. r < lsn e \<and> lsn e \<le> t) es"
  have ne: "?f \<noteq> []" using assms(2) by simp
  have srt: "lsorted ?f" using assms(1) by (simp add: sorted_wrt_map sorted_wrt_filter)
  have "lsn e \<le> lsn (last ?f)" if "e \<in> set es" "lsn e \<le> t" for e
  proof (cases "r < lsn e")
    case True
    with that lsorted_last [OF srt, of e] show ?thesis by simp
  next
    case False
    with ne last_in_set [OF ne] show ?thesis by force
  qed
  then show ?thesis using ne by (auto simp: last_map filter_empty_conv not_less)
qed

section \<open>The contract\<close>

locale version_index =
  fixes ok :: "'s \<Rightarrow> bool"
    and busy :: "'s \<Rightarrow> KeyType \<Rightarrow> bool"
    and view :: "'s \<Rightarrow> KeyType \<rightharpoonup> LsnEntry list \<times> u64"
    and fresh :: "malloc_block \<Rightarrow> 's \<Rightarrow> bool"
    and ins :: "malloc_block \<Rightarrow> 's \<Rightarrow> KeyType \<Rightarrow> u64 \<Rightarrow> u32 \<Rightarrow> bool \<Rightarrow> ('s \<times> bool) option"
    and lower :: "'s \<Rightarrow> KeyType \<Rightarrow> u64 \<Rightarrow> ('s \<times> (u64 \<times> u32) option) option"
    and replay :: "'s \<Rightarrow> KeyType \<Rightarrow> u64 \<Rightarrow> ('s \<times> (u64 \<times> u64 list) option) option"
    and mark :: "'s \<Rightarrow> KeyType \<Rightarrow> u64 \<Rightarrow> ('s \<times> bool) option"
  assumes chain_law: "ok s \<Longrightarrow> view s k = Some (es, r) \<Longrightarrow> lsorted es \<and> es \<noteq> []"
    and ins_law: "ok s \<Longrightarrow> fresh blk s \<Longrightarrow> l \<noteq> 0 \<Longrightarrow>
      \<exists>s'. ins blk s k l pn ne = Some (s', snd (v_insert blk (view s) k l pn ne)) \<and> ok s' \<and>
        view s' = fst (v_insert blk (view s) k l pn ne)"
    and lower_law: "ok s \<Longrightarrow>
      lower s k t = Some (s, Option.bind (view s k) (\<lambda>(es, r). v_lower_bound es t))"
    and replay_law: "ok s \<Longrightarrow>
      \<exists>s'. replay s k t = Some (s', v_get_replay (view s) k t) \<and> view s' = view s \<and>
        (if to_replay (v_get_replay (view s) k t) then busy s' k else ok s')"
    and mark_law: "busy s k \<Longrightarrow>
      \<exists>s'. mark s k l = Some (s', snd (v_replayed (view s) k l)) \<and> ok s' \<and>
        view s' = fst (v_replayed (view s) k l)"
begin

lemma inserts_append:
  assumes alloc: "\<And>s. ok s \<Longrightarrow> fresh (alloc s) s"
    and "ok s" "view s k = Some (es, r)" "sorted_wrt (<) (lsn (last es) # map fst xs)"
  shows "\<exists>s'. run_inserts ins alloc k ne s xs = Some s' \<and> ok s' \<and>
    view s' = (view s)(k \<mapsto> (es @ map (\<lambda>(l, pn). \<lparr>lsn = l, pageNum = pn\<rparr>) xs, r))"
  using assms(2-)
proof (induction xs arbitrary: s es)
  case Nil
  then show ?case by (simp add: map_upd_triv)
next
  case (Cons x xs)
  obtain l pn where x: "x = (l, pn)" by (cases x)
  from Cons.prems x have gt: "lsn (last es) < l" by simp
  then have "l \<noteq> 0" by auto
  from ins_law [OF Cons.prems(1) alloc [OF Cons.prems(1)] this, of k pn ne]
  obtain s1 where s1: "ins (alloc s) s k l pn ne = Some (s1, lsn (last es) \<le> l)" "ok s1"
    "view s1 = (view s)(k \<mapsto> (es @ [\<lparr>lsn = l, pageNum = pn\<rparr>], r))"
    using Cons.prems(2) by (auto simp: v_insert_def v_append_newer [OF gt])
  have "\<exists>s'. run_inserts ins alloc k ne s1 xs = Some s' \<and> ok s' \<and>
      view s' = (view s1)(k \<mapsto> ((es @ [\<lparr>lsn = l, pageNum = pn\<rparr>]) @
        map (\<lambda>(l, pn). \<lparr>lsn = l, pageNum = pn\<rparr>) xs, r))"
    using s1 Cons.prems x by (intro Cons.IH) auto
  with s1 x show ?case by auto
qed

text \<open>Everything that was inserted and is not above the target is handed out, in order, once.\<close>

lemma index_then_replay:
  assumes alloc: "\<And>s. ok s \<Longrightarrow> fresh (alloc s) s"
    and s: "ok s" "view s k = None" and xs: "xs \<noteq> []" "sorted_wrt (<) (0 # map fst xs)"
  shows "\<exists>s1 s2. run_inserts ins alloc k ne s xs = Some s1 \<and> ok s1 \<and>
    replay s1 k t = Some (s2, Some (0, filter (\<lambda>l. l \<le> t) (map fst xs)))"
proof -
  obtain l pn ys where xs_eq: "xs = (l, pn) # ys" using xs(1) by (cases xs) auto
  with xs have l: "l \<noteq> 0" and pos: "\<forall>x \<in> set (map fst xs). 0 < x" by auto
  define es where "es = v_first (alloc s) k l pn ne"
  from ins_law [OF s(1) alloc [OF s(1)] l, of k pn ne] s(2)
  obtain s1 where s1: "ins (alloc s) s k l pn ne = Some (s1, True)" "ok s1" "view s1 = (view s)(k \<mapsto> (es, 0))"
    by (auto simp: v_insert_def es_def)
  have es: "lsn (last es) = l" "map lsn (filter (\<lambda>e. 0 < lsn e) es) = [l]"
    using l by (auto simp: es_def v_first_def word_neq_0_conv)
  let ?zs = "map (\<lambda>(l, pn). \<lparr>lsn = l, pageNum = pn\<rparr>) ys"
  obtain s2 where s2: "run_inserts ins alloc k ne s1 ys = Some s2" "ok s2"
    "view s2 = (view s1)(k \<mapsto> (es @ ?zs, 0))"
    using inserts_append [OF alloc s1(2), of k es 0 ys ne] s1(3) xs xs_eq es(1) by auto
  have ys: "map lsn ?zs = map fst ys" by (induction ys) auto
  have "window 0 t (es @ ?zs) = filter (\<lambda>l. l \<le> t) (map lsn (filter (\<lambda>e. 0 < lsn e) (es @ ?zs)))"
    by (simp add: filter_map comp_def conj_commute)
  also have "filter (\<lambda>e. 0 < lsn e) ?zs = ?zs" using pos xs_eq by (auto simp: filter_id_conv)
  then have "map lsn (filter (\<lambda>e. 0 < lsn e) (es @ ?zs)) = map fst xs"
    using es(2) ys xs_eq by simp
  finally have "v_get_replay (view s2) k t = Some (0, filter (\<lambda>l. l \<le> t) (map fst xs))"
    using s2(3) by (simp add: v_get_replay_def v_replay_list_def)
  with replay_law [OF s2(2), of k t] s1 s2 xs_eq show ?thesis by auto
qed

lemma catch_up_once:
  assumes s: "ok s" "view s k = Some (es, r)" "r \<le> t"
  shows "\<exists>s'. catch_up replay mark s k t = Some (s', window r t es) \<and> ok s' \<and>
    view s' = (view s)(k \<mapsto> (es, if window r t es = [] then r else last (window r t es)))"
proof -
  have v: "v_get_replay (view s) k t = Some (r, window r t es)"
    using s(2,3) by (auto simp: v_get_replay_def v_replay_list_def)
  from replay_law [OF s(1), of k t] v obtain s1 where s1: "replay s k t = Some (s1, Some (r, window r t es))"
    "view s1 = view s" "if window r t es \<noteq> [] then busy s1 k else ok s1"
    by (auto simp: to_replay_def split: list.splits)
  show ?thesis
  proof (cases "window r t es")
    case Nil
    with s1 s show ?thesis by (auto simp: catch_up_def map_upd_triv)
  next
    case (Cons x xs)
    have "r < last (window r t es)"
      using Cons by (intro conjunct1 [OF window_bounds [OF last_in_set]]) simp
    then have "max r (last (window r t es)) = last (window r t es)" by (rule max_absorb2 [OF less_imp_le])
    with mark_law [of s1 k "last (window r t es)"] s1 s Cons show ?thesis
      by (auto simp: catch_up_def v_replayed_def)
  qed
qed

text \<open>A second request for the same target has nothing to do.\<close>

lemma catch_up_twice:
  assumes s: "ok s" "view s k = Some (es, r)" "r \<le> t"
  shows "\<exists>s1 s2. catch_up replay mark s k t = Some (s1, window r t es) \<and>
    catch_up replay mark s1 k t = Some (s2, []) \<and> ok s2 \<and> view s2 = view s1"
proof -
  let ?w = "window r t es" and ?r = "if window r t es = [] then r else last (window r t es)"
  obtain s1 where s1: "catch_up replay mark s k t = Some (s1, ?w)" "ok s1" "view s1 = (view s)(k \<mapsto> (es, ?r))"
    using catch_up_once [OF s] by blast
  have w: "window ?r t es = []"
    using window_exhausted [of es r t] chain_law [OF s(1,2)] by auto
  have "?r \<le> t" using s(3) last_in_set [of ?w] by auto
  then have "\<exists>s'. catch_up replay mark s1 k t = Some (s', window ?r t es) \<and> ok s' \<and>
      view s' = (view s1)(k \<mapsto> (es, if window ?r t es = [] then ?r else last (window ?r t es)))"
    using s1 by (intro catch_up_once) auto
  then obtain s2 where "catch_up replay mark s1 k t = Some (s2, [])" "ok s2" "view s2 = view s1"
    using w s1(3) by auto
  with s1 show ?thesis by blast
qed

end

section \<open>The version map satisfies the contract\<close>

definition hm_free :: "HashMap \<Rightarrow> bool" where
  "hm_free m \<longleftrightarrow> hm_ok m \<and> locks_free m"

definition hm_held :: "HashMap \<Rightarrow> KeyType \<Rightarrow> bool" where
  "hm_held m k \<longleftrightarrow> hm_ok m \<and> held m k"

definition fresh_block :: "malloc_block \<Rightarrow> HashMap \<Rightarrow> bool" where
  "fresh_block blk m \<longleftrightarrow> heads m (blk_addr blk) = None \<and> eles m (blk_addr blk) = None"

interpretation hm: version_index hm_free hm_held versions fresh_block
  HashMapInsertKey HashMapFindLowerBoundEntry HashMapGetBlockReplayList
  "\<lambda>m k l. HashMapUpdateReplayedLsn m k l True"
proof
  show "lsorted es \<and> es \<noteq> []" if "hm_free m" "versions m k = Some (es, r)" for m k es r
    using that versions_iff [of m k "(es, r)"] hm_okD(4) [of m] chain_nonempty
    by (auto simp: hm_free_def head_version_def head_ok_def)
next
  show "\<exists>m'. HashMapInsertKey blk m k l pn ne = Some (m', snd (v_insert blk (versions m) k l pn ne)) \<and>
      hm_free m' \<and> versions m' = fst (v_insert blk (versions m) k l pn ne)"
    if "hm_free m" "fresh_block blk m" "l \<noteq> 0" for m blk k l pn ne
    using HashMapInsertKey_spec [of m l blk k pn ne] that by (auto simp: hm_free_def fresh_block_def)
next
  show "HashMapFindLowerBoundEntry m k t =
      Some (m, Option.bind (versions m k) (\<lambda>(es, r). v_lower_bound es t))" if "hm_free m" for m k t
    using HashMapFindLowerBoundEntry_ok that by (simp add: hm_free_def)
next
  show "\<exists>m'. HashMapGetBlockReplayList m k t = Some (m', v_get_replay (versions m) k t) \<and>
      versions m' = versions m \<and>
      (if to_replay (v_get_replay (versions m) k t) then hm_held m' k else hm_free m')"
    if "hm_free m" for m k t
    using HashMapGetBlockReplayList_spec [of m k t] that by (auto simp: hm_free_def hm_held_def)
next
  show "\<exists>m'. HashMapUpdateReplayedLsn m k l True = Some (m', snd (v_replayed (versions m) k l)) \<and>
      hm_free m' \<and> versions m' = fst (v_replayed (versions m) k l)" if "hm_held m k" for m k l
    using HashMapUpdateReplayedLsn_held [of m k l] that by (auto simp: hm_free_def hm_held_def)
qed

end
