(* ===== verification/VersionDestroy.thy ===== *)
theory VersionDestroy
  imports VersionStore
begin

text \<open>
  Destroying the page version map: the three nested loops of \<open>HashMapDestroy\<close> end, never follow a
  freed pointer, and free every node of a well-formed map exactly once.
\<close>

section \<open>Element nodes\<close>

lemma free_eles_unfold:
  "heads m a = Some h \<Longrightarrow> nextEle h = None \<Longrightarrow> free_eles a m = Some m"
  "heads m a = Some h \<Longrightarrow> nextEle h = Some x \<Longrightarrow> eles m x = Some e \<Longrightarrow>
   free_eles a m = free_eles a (m\<lparr>heads := (heads m)(a \<mapsto> h\<lparr>nextEle := e_nextEle e\<rparr>),
     eles := (eles m)(x := None)\<rparr>)"
  by (subst free_eles.simps, simp add: upd_head_def)+

lemma free_eles_ok:
  assumes "heads m a = Some h" "lseg e_nextEle (eles m) (nextEle h) es None"
  shows "free_eles a m = Some (m\<lparr>heads := (heads m)(a \<mapsto> h\<lparr>nextEle := None\<rparr>),
    eles := eles m |` (- set es)\<rparr>)"
  using assms
proof (induction es arbitrary: m h)
  case Nil
  then have "h\<lparr>nextEle := None\<rparr> = h" by simp
  with Nil show ?case by (simp add: free_eles_unfold(1) map_upd_triv)
next
  case (Cons x es)
  then obtain e where x: "nextEle h = Some x" "eles m x = Some e"
    and seg: "lseg e_nextEle (eles m) (e_nextEle e) es None" by auto
  from lseg_distinct [OF Cons.prems(2)] have "x \<notin> set es" by simp
  let ?h = "h\<lparr>nextEle := e_nextEle e\<rparr>"
  let ?m = "m\<lparr>heads := (heads m)(a \<mapsto> ?h), eles := (eles m)(x := None)\<rparr>"
  have "lseg e_nextEle (eles ?m) (nextEle ?h) es None"
    using seg \<open>x \<notin> set es\<close> by (simp add: heap_simps)
  then have "free_eles a ?m = Some (?m\<lparr>heads := (heads ?m)(a \<mapsto> ?h\<lparr>nextEle := None\<rparr>),
      eles := eles ?m |` (- set es)\<rparr>)"
    by (rule Cons.IH [rotated]) simp
  moreover have "(eles m)(x := None) |` (- set es) = eles m |` (- set (x # es))"
    by (auto simp: restrict_map_def fun_eq_iff)
  ultimately have "free_eles a ?m = Some (m\<lparr>heads := (heads m)(a \<mapsto> h\<lparr>nextEle := None\<rparr>),
      eles := eles m |` (- set (x # es))\<rparr>)" by simp
  then show ?case by (simp only: free_eles_unfold(2) [OF Cons.prems(1) x])
qed

section \<open>Head nodes of a bucket\<close>

text \<open>\<open>owned hp E as L\<close>: each head of \<open>as\<close> owns the element nodes \<open>L a\<close>, and no two share one.\<close>

definition owned where
  "owned hp E as L \<longleftrightarrow>
     (\<forall>a \<in> as. lseg e_nextEle E (nextEle (the (hp a))) (L a) None) \<and>
     (\<forall>a \<in> as. \<forall>b \<in> as. a \<noteq> b \<longrightarrow> set (L a) \<inter> set (L b) = {})"

lemma owned_cong:
  assumes "owned hp E as L" "bs \<subseteq> as"
    and "\<And>a. a \<in> bs \<Longrightarrow> hp' a = hp a" "\<And>a x. a \<in> bs \<Longrightarrow> x \<in> set (L a) \<Longrightarrow> E' x = E x"
  shows "owned hp' E' bs L"
proof -
  have "lseg e_nextEle E' p (L a) None = lseg e_nextEle E p (L a) None" if "a \<in> bs" for a p
    using assms(4) [OF that] by (rule lseg_cong)
  with assms(1-3) show ?thesis unfolding owned_def by (simp add: subset_iff)
qed

lemma free_heads_unfold:
  "i < length (bucketList m) \<Longrightarrow> nodeList (bucketList m ! i) = None \<Longrightarrow> free_heads i m = Some m"
  "i < length (bucketList m) \<Longrightarrow> nodeList (bucketList m ! i) = Some a \<Longrightarrow> free_eles a m = Some m1 \<Longrightarrow>
   heads m1 a = Some h \<Longrightarrow> bucketList m1 = bucketList m \<Longrightarrow>
   free_heads i m = free_heads i (m1\<lparr>bucketList := (bucketList m)[i := (bucketList m ! i)\<lparr>nodeList := nextHead h\<rparr>],
     heads := (heads m1)(a := None)\<rparr>)"
  by (subst free_heads.simps, simp add: get_bucket_def upd_bucket_def)+

lemma free_heads_ok:
  assumes "i < length (bucketList m)"
    and "lseg nextHead (heads m) (nodeList (bucketList m ! i)) as None"
    and "owned (heads m) (eles m) (set as) L"
  shows "free_heads i m = Some (m\<lparr>heads := heads m |` (- set as),
    eles := eles m |` (- (\<Union>a \<in> set as. set (L a))),
    bucketList := (bucketList m)[i := (bucketList m ! i)\<lparr>nodeList := None\<rparr>]\<rparr>)"
  using assms
proof (induction as arbitrary: m)
  case Nil
  then have "(bucketList m)[i := (bucketList m ! i)\<lparr>nodeList := None\<rparr>] = bucketList m"
    by (intro nth_equalityI) (auto simp: nth_list_update)
  with Nil show ?case by (simp add: free_heads_unfold(1))
next
  case (Cons a as)
  then obtain h where a: "nodeList (bucketList m ! i) = Some a" "heads m a = Some h"
    and seg: "lseg nextHead (heads m) (nextHead h) as None" by auto
  from lseg_distinct [OF Cons.prems(2)] have a_as: "a \<notin> set as" by simp
  have el: "lseg e_nextEle (eles m) (nextEle h) (L a) None"
    using Cons.prems(3) a by (simp add: owned_def)
  let ?m1 = "m\<lparr>heads := (heads m)(a \<mapsto> h\<lparr>nextEle := None\<rparr>), eles := eles m |` (- set (L a))\<rparr>"
  let ?m = "?m1\<lparr>bucketList := (bucketList m)[i := (bucketList m ! i)\<lparr>nodeList := nextHead h\<rparr>],
     heads := (heads ?m1)(a := None)\<rparr>"
  have own: "owned (heads ?m) (eles ?m) (set as) L"
  proof (rule owned_cong [OF Cons.prems(3)])
    fix b x assume b: "b \<in> set as" and x: "x \<in> set (L b)"
    from a_as b have "b \<noteq> a" by auto
    with Cons.prems(3) b x have "x \<notin> set (L a)" by (auto simp: owned_def)
    then show "eles ?m x = eles m x" by simp
  qed (use a_as in auto)
  have step: "free_heads i m = free_heads i ?m"
    using free_heads_unfold(2) [OF Cons.prems(1) a(1) free_eles_ok [OF a(2) el]] by simp
  also have "\<dots> = Some (?m\<lparr>heads := heads ?m |` (- set as), eles := eles ?m |` (- (\<Union>a \<in> set as. set (L a))),
      bucketList := (bucketList ?m)[i := (bucketList ?m ! i)\<lparr>nodeList := None\<rparr>]\<rparr>)"
  proof (rule Cons.IH [OF _ _ own])
    have "lseg nextHead ((heads m)(a := None)) (nextHead h) as None"
      by (rule iffD2 [OF lseg_other [OF a_as] seg])
    then show "lseg nextHead (heads ?m) (nodeList (bucketList ?m ! i)) as None"
      using Cons.prems(1) by simp
  qed (use Cons.prems(1) in simp)
  also have "heads ?m |` (- set as) = heads m |` (- set (a # as))"
    by (auto simp: restrict_map_def fun_eq_iff)
  also have "eles ?m |` (- (\<Union>a \<in> set as. set (L a))) = eles m |` (- (\<Union>a \<in> set (a # as). set (L a)))"
    by (auto simp: restrict_map_def fun_eq_iff)
  finally show ?case using Cons.prems(1) by simp
qed

section \<open>All buckets\<close>

lemma free_buckets_ok:
  assumes "distinct is" "\<forall>i \<in> set is. i < length (bucketList m)"
    and "\<forall>i \<in> set is. lseg nextHead (heads m) (nodeList (bucketList m ! i)) (H i) None"
    and "\<forall>i \<in> set is. \<forall>j \<in> set is. i \<noteq> j \<longrightarrow> set (H i) \<inter> set (H j) = {}"
    and "owned (heads m) (eles m) (\<Union>i \<in> set is. set (H i)) L"
  shows "\<exists>bl. free_buckets is m = Some (m\<lparr>heads := heads m |` (- (\<Union>i \<in> set is. set (H i))),
    eles := eles m |` (- (\<Union>i \<in> set is. \<Union>a \<in> set (H i). set (L a))), bucketList := bl\<rparr>)"
  using assms
proof (induction "is" arbitrary: m)
  case Nil
  show ?case by (intro exI [of _ "bucketList m"]) simp
next
  case (Cons i "is")
  let ?m = "m\<lparr>heads := heads m |` (- set (H i)), eles := eles m |` (- (\<Union>a \<in> set (H i). set (L a))),
    bucketList := (bucketList m)[i := (bucketList m ! i)\<lparr>nodeList := None\<rparr>]\<rparr>"
  have "owned (heads m) (eles m) (set (H i)) L"
    using Cons.prems(5) by (auto simp: owned_def)
  with Cons.prems(2,3) have run: "free_heads i m = Some ?m" by (intro free_heads_ok) auto
  have disj: "set (H i) \<inter> set (H j) = {}" if "j \<in> set is" for j
    using Cons.prems(1,4) that by auto
  have "lseg nextHead (heads ?m) p (H j) None = lseg nextHead (heads m) p (H j) None" if "j \<in> set is" for j p
    using disj [OF that] by (intro lseg_cong) (auto simp: restrict_map_def)
  then have segs: "\<forall>j \<in> set is. lseg nextHead (heads ?m) (nodeList (bucketList ?m ! j)) (H j) None"
    using Cons.prems(1-3) by (auto simp: nth_list_update)
  have own: "owned (heads ?m) (eles ?m) (\<Union>j \<in> set is. set (H j)) L"
  proof (rule owned_cong [OF Cons.prems(5)])
    fix a x assume a: "a \<in> (\<Union>j \<in> set is. set (H j))" and x: "x \<in> set (L a)"
    have "x \<notin> set (L b)" if "b \<in> set (H i)" for b
    proof -
      from a that disj have "a \<noteq> b" by auto
      moreover from Cons.prems(5) have "\<forall>a \<in> (\<Union>j \<in> set (i # is). set (H j)).
          \<forall>b \<in> (\<Union>j \<in> set (i # is). set (H j)). a \<noteq> b \<longrightarrow> set (L a) \<inter> set (L b) = {}"
        unfolding owned_def by (rule conjunct2)
      ultimately have "set (L a) \<inter> set (L b) = {}" using a that by auto
      with x show ?thesis by blast
    qed
    then show "eles ?m x = eles m x" by simp
  qed (use disj in \<open>auto simp: restrict_map_def\<close>)
  obtain bl where "free_buckets is ?m = Some (?m\<lparr>heads := heads ?m |` (- (\<Union>i \<in> set is. set (H i))),
      eles := eles ?m |` (- (\<Union>i \<in> set is. \<Union>a \<in> set (H i). set (L a))), bucketList := bl\<rparr>)"
    using Cons.IH [of ?m] Cons.prems segs own by auto
  moreover have "heads ?m |` (- (\<Union>i \<in> set is. set (H i))) = heads m |` (- (\<Union>i \<in> set (i # is). set (H i)))"
    "eles ?m |` (- (\<Union>i \<in> set is. \<Union>a \<in> set (H i). set (L a))) =
      eles m |` (- (\<Union>i \<in> set (i # is). \<Union>a \<in> set (H i). set (L a)))"
    by (auto simp: restrict_map_def fun_eq_iff)
  ultimately show ?case using run by auto
qed

lemma HashMapDestroy_ok:
  assumes ok: "hm_ok m"
  shows "\<exists>m'. HashMapDestroy m = Some m' \<and> heads m' = Map.empty \<and> eles m' = Map.empty \<and> bucketList m' = []"
proof -
  let ?is = "[0..<unat (bucketNum m)]" and ?L = "\<lambda>a. ele_list m (the (heads m a))"
  have len: "length (bucketList m) = unat (bucketNum m)" by (rule hm_okD(2) [OF ok])
  note bok = hm_okD(3) [OF ok]
  have heads_in: "\<exists>h. heads m a = Some h" if "i < length (bucketList m)" "a \<in> set (head_list m i)" for i a
    using bok [OF that(1)] that(2) by (auto simp: bucket_ok_def)
  have own: "owned (heads m) (eles m) (\<Union>i \<in> set ?is. set (head_list m i)) ?L"
    unfolding owned_def
  proof (intro conjI ballI impI)
    fix a assume "a \<in> (\<Union>i \<in> set ?is. set (head_list m i))"
    then obtain h where "heads m a = Some h" using heads_in len by force
    with hm_okD(4) [OF ok this] show "lseg e_nextEle (eles m) (nextEle (the (heads m a))) (?L a) None"
      by (simp add: head_ok_def)
  next
    fix a b assume ab: "a \<in> (\<Union>i \<in> set ?is. set (head_list m i))" "b \<in> (\<Union>i \<in> set ?is. set (head_list m i))" "a \<noteq> b"
    then obtain h g where "heads m a = Some h" "heads m b = Some g" using heads_in len by force
    with hm_okD(8) [OF ok this] ab(3) show "set (?L a) \<inter> set (?L b) = {}" by simp
  qed
  have "\<exists>bl. free_buckets ?is m = Some (m\<lparr>heads := heads m |` (- (\<Union>i \<in> set ?is. set (head_list m i))),
      eles := eles m |` (- (\<Union>i \<in> set ?is. \<Union>a \<in> set (head_list m i). set (?L a))), bucketList := bl\<rparr>)"
    using own bok len bucket_lists_disjoint [OF ok]
    by (intro free_buckets_ok) (auto simp: bucket_ok_def)
  moreover have "a \<in> (\<Union>i \<in> set ?is. set (head_list m i))" if "heads m a = Some h" for a h
    using hm_okD(5,6) [OF ok that] len by auto
  then have "heads m |` (- (\<Union>i \<in> set ?is. set (head_list m i))) = Map.empty"
    by (auto simp: restrict_map_def fun_eq_iff) (metis option.exhaust)
  moreover have "eles m |` (- (\<Union>i \<in> set ?is. \<Union>a \<in> set (head_list m i). set (?L a))) = Map.empty"
    using hm_okD(7) [OF ok] \<open>\<And>h a. heads m a = Some h \<Longrightarrow> _\<close>
    by (auto simp: restrict_map_def fun_eq_iff) (metis option.exhaust option.sel domI)
  ultimately show ?thesis by (auto simp: HashMapDestroy_def)
qed

end
