(* ===== verification/VersionProps.thy ===== *)
theory VersionProps
  imports VersionIndex VersionDestroy
begin

text \<open>
  The properties of the page version map: each operation of \<open>logindex_hashmap.cpp\<close> against its
  specification, the protocol of its clients as a state machine, and the behaviour of the bucket
  lists.
\<close>

section \<open>The operations as a state machine\<close>

text \<open>
  \<open>hm_run m p\<close>: the map \<open>m\<close> can be reached from a new map by calls of the operations. \<open>p\<close> is
  the key whose records are being replayed, if any: between \<open>HashMapGetBlockReplayList\<close> and the
  \<open>HashMapUpdateReplayedLsn\<close> that ends the replay the head of the key stays locked.
\<close>

inductive hm_run :: "HashMap \<Rightarrow> KeyType option \<Rightarrow> bool" where
  init: "0 < sint n \<Longrightarrow> hm_run (HashMapInit n) None"
| insert: "hm_run m None \<Longrightarrow> fresh_block blk m \<Longrightarrow> l \<noteq> 0 \<Longrightarrow>
    HashMapInsertKey blk m k l pn ne = Some (m', r) \<Longrightarrow> hm_run m' None"
| lookup: "hm_run m None \<Longrightarrow> HashMapFindLowerBoundEntry m k t = Some (m', res) \<Longrightarrow> hm_run m' None"
| replay: "hm_run m None \<Longrightarrow> HashMapGetBlockReplayList m k t = Some (m', res) \<Longrightarrow>
    hm_run m' (if to_replay res then Some k else None)"
| replayed: "hm_run m (Some k) \<Longrightarrow> HashMapUpdateReplayedLsn m k l True = Some (m', r) \<Longrightarrow> hm_run m' None"
| mark: "hm_run m None \<Longrightarrow> HashMapUpdateReplayedLsn m k l False = Some (m', r) \<Longrightarrow> hm_run m' None"
| base: "hm_run m None \<Longrightarrow> base_below (versions m) k l \<Longrightarrow>
    HashMapUpdateFirstEmptySlot m k l = Some (m', r) \<Longrightarrow> hm_run m' None"

definition hm_state :: "HashMap \<Rightarrow> KeyType option \<Rightarrow> bool" where
  "hm_state m p \<longleftrightarrow> (case p of None \<Rightarrow> hm_free m | Some k \<Rightarrow> hm_held m k)"

lemma hm_run_state: "hm_run m p \<Longrightarrow> hm_state m p"
proof (induction rule: hm_run.induct)
  case (init n)
  with HashMapInit_ok [of n] show ?case by (simp add: hm_state_def hm_free_def)
next
  case (insert m blk l k pn ne m' r)
  with hm.ins_law [of m blk l k pn ne] show ?case by (auto simp: hm_state_def)
next
  case (lookup m k t m' res)
  with hm.lower_law [of m k t] show ?case by (auto simp: hm_state_def)
next
  case (replay m k t m' res)
  with hm.replay_law [of m k t] show ?case by (auto simp: hm_state_def split: if_splits)
next
  case (replayed m k l m' r)
  with hm.mark_law [of m k l] show ?case by (auto simp: hm_state_def)
next
  case (mark m k l m' r)
  with HashMapUpdateReplayedLsn_free [of m k l] show ?case by (auto simp: hm_state_def hm_free_def)
next
  case (base m k l m' r)
  with HashMapUpdateFirstEmptySlot_spec [of m k l] show ?case by (auto simp: hm_state_def hm_free_def)
qed

section \<open>An example map and allocator\<close>

definition demo_key :: KeyType where
  "demo_key = \<lparr>SpcID = 1663, DbID = 13580, RelID = 16384, ForkNum = 0, BlkNum = 7\<rparr>"

definition demo_blk :: malloc_block where
  "demo_blk = \<lparr>blk_addr = 1, blk_uninit = (\<lambda>_. \<lparr>lsn = 0xDEAD, pageNum = 0\<rparr>)\<rparr>"

text \<open>An allocator that returns an address above every node in use.\<close>

definition used_addrs :: "HashMap \<Rightarrow> addr list" where
  "used_addrs m =
     (let hs = concat (map (head_list m) [0..<length (bucketList m)])
      in hs @ concat (map (\<lambda>a. ele_list m (the (heads m a))) hs))"

definition bump_alloc :: "HashMap \<Rightarrow> malloc_block" where
  "bump_alloc m = \<lparr>blk_addr = Suc (fold max (used_addrs m) 0), blk_uninit = (\<lambda>_. \<lparr>lsn = 0xDEAD, pageNum = 0\<rparr>)\<rparr>"

lemma fold_max_base: "b \<le> fold max xs (b :: nat)"
proof (induction xs arbitrary: b)
  case (Cons x xs)
  have "b \<le> max x b" by simp
  also have "\<dots> \<le> fold max xs (max x b)" by (rule Cons.IH)
  finally show ?case by simp
qed simp

lemma fold_max_ge: "x \<in> set xs \<Longrightarrow> x \<le> fold max xs (b :: nat)"
proof (induction xs arbitrary: b)
  case (Cons y xs)
  have "y \<le> max y b" by simp
  also have "\<dots> \<le> fold max xs (max y b)" by (rule fold_max_base)
  finally show ?case using Cons by auto
qed simp

lemma bump_alloc_fresh:
  assumes "hm_free m"
  shows "fresh_block (bump_alloc m) m"
proof -
  have ok: "hm_ok m" using assms by (simp add: hm_free_def)
  have hd: "a \<in> set (used_addrs m)" if "heads m a = Some h" for a h
    using hm_okD(5,6) [OF ok that] by (auto simp: used_addrs_def Let_def)
  have "x \<in> set (used_addrs m)" if "heads m a = Some h" "x \<in> set (ele_list m h)" for a h x
    using hm_okD(5,6) [OF ok that(1)] that by (force simp: used_addrs_def Let_def)
  then have el: "x \<in> set (used_addrs m)" if "eles m x = Some e" for x e
    using hm_okD(7) [OF ok, of x] that by blast
  have "Suc (fold max (used_addrs m) 0) \<notin> set (used_addrs m)"
    using fold_max_ge [of "Suc (fold max (used_addrs m) 0)" "used_addrs m" 0] by auto
  then have "heads m (Suc (fold max (used_addrs m) 0)) = None" "eles m (Suc (fold max (used_addrs m) 0)) = None"
    using hd el by (metis option.exhaust)+
  then show ?thesis by (simp add: fresh_block_def bump_alloc_def)
qed

lemma demo_init: "hm_free (HashMapInit 8)" "versions (HashMapInit 8) = Map.empty"
  using HashMapInit_ok [of 8] by (simp_all add: hm_free_def)

text \<open>A map with two versions of one page, after the records at 5 and 9 were indexed.\<close>

lemma demo_map:
  "\<exists>m. hm_free m \<and> versions m = [demo_key \<mapsto> ([\<lparr>lsn = 0, pageNum = 0\<rparr>, \<lparr>lsn = 5, pageNum = 0\<rparr>, \<lparr>lsn = 9, pageNum = 4\<rparr>], 0)]"
proof -
  obtain m1 where m1: "hm_free m1" "versions m1 = [demo_key \<mapsto> ([\<lparr>lsn = 0, pageNum = 0\<rparr>, \<lparr>lsn = 5, pageNum = 0\<rparr>], 0)]"
    using hm.ins_law [OF demo_init(1), of "bump_alloc (HashMapInit 8)" 5 demo_key 0 False]
      bump_alloc_fresh [OF demo_init(1)]
    by (auto simp: demo_init v_insert_def v_first_def demo_key_def bump_alloc_def)
  obtain m2 where m2: "hm_free m2" "versions m2 = fst (v_insert (bump_alloc m1) (versions m1) demo_key 9 4 False)"
    using hm.ins_law [OF m1(1) bump_alloc_fresh [OF m1(1)], of 9 demo_key 4 False] by auto
  then show ?thesis using m1(2) by (intro exI [of _ m2]) (simp add: v_insert_def v_append_def)
qed

section \<open>Insertion and replay lists\<close>

text \<open>C1: on a well-formed map with free locks, \<open>HashMapInsertKey\<close> returns, keeps the invariant,
  releases every lock, and changes the meaning of the map as specified: a new key gets its first
  chain; for a known key an LSN below the newest one is rejected, an equal one only updates the
  page number, and a larger one is appended.\<close>

theorem insert_refines:
  assumes "hm_free m" and "fresh_block blk m" and "l \<noteq> 0"
  shows "\<exists>m'. HashMapInsertKey blk m k l pn ne = Some (m', snd (v_insert blk (versions m) k l pn ne)) \<and>
    hm_free m' \<and> versions m' = fst (v_insert blk (versions m) k l pn ne)"
  by (rule hm.ins_law [OF assms])

theorem insert_refines_witness:
  "\<exists>m'. HashMapInsertKey demo_blk (HashMapInit 8) demo_key 5 0 False = Some (m', True) \<and> hm_free m' \<and>
    versions m' = [demo_key \<mapsto> ([\<lparr>lsn = 0, pageNum = 0\<rparr>, \<lparr>lsn = 5, pageNum = 0\<rparr>], 0)]"
proof -
  have "fresh_block demo_blk (HashMapInit 8)" by (simp add: fresh_block_def)
  from insert_refines [OF demo_init(1) this, of 5 demo_key 0 False] show ?thesis
    by (simp add: v_insert_def v_first_def demo_init demo_key_def demo_blk_def)
qed

text \<open>C2: \<open>HashMapGetBlockReplayList\<close> returns exactly the LSNs of the key above the replayed one and
  not above the target, in order; when the page is already ahead of the target it returns the
  newest version not above it. The map keeps its meaning, and the lock of the head is held
  afterwards if and only if there is something to replay.\<close>

theorem replay_list_refines:
  assumes "hm_free m"
  shows "\<exists>m'. HashMapGetBlockReplayList m k t = Some (m', v_get_replay (versions m) k t) \<and>
    versions m' = versions m \<and>
    (if to_replay (v_get_replay (versions m) k t) then hm_held m' k else hm_free m')"
  by (rule hm.replay_law [OF assms])

theorem replay_list_refines_witness:
  "\<exists>m m'. hm_free m \<and> HashMapGetBlockReplayList m demo_key 7 = Some (m', Some (0, [5])) \<and> hm_held m' demo_key"
proof -
  obtain m where "hm_free m" "versions m = [demo_key \<mapsto> ([\<lparr>lsn = 0, pageNum = 0\<rparr>, \<lparr>lsn = 5, pageNum = 0\<rparr>, \<lparr>lsn = 9, pageNum = 4\<rparr>], 0)]"
    using demo_map by blast
  with replay_list_refines [of m demo_key 7] show ?thesis
    by (auto simp: v_get_replay_def v_replay_list_def to_replay_def)
qed

text \<open>C3: after the LSNs \<open>xs\<close> of a page were inserted in increasing order into a new map, a request
  for the target \<open>t\<close> hands out all of them that are not above \<open>t\<close>, each once and in order. The
  allocator is arbitrary, as long as it returns unused blocks.\<close>

theorem indexed_records_replayed:
  assumes "0 < sint n" and alloc: "\<And>m. hm_free m \<Longrightarrow> fresh_block (alloc m) m"
    and "xs \<noteq> []" and "sorted_wrt (<) (0 # map fst xs)"
  shows "\<exists>m1 m2. run_inserts HashMapInsertKey alloc k ne (HashMapInit n) xs = Some m1 \<and> hm_free m1 \<and>
    HashMapGetBlockReplayList m1 k t = Some (m2, Some (0, filter (\<lambda>l. l \<le> t) (map fst xs)))"
  using HashMapInit_ok [OF assms(1)] assms(2-)
  by (intro hm.index_then_replay) (auto simp: hm_free_def)

theorem indexed_records_replayed_witness:
  "\<exists>m1 m2. run_inserts HashMapInsertKey bump_alloc demo_key False (HashMapInit 8) [(5, 0), (9, 4), (12, 4)] = Some m1 \<and>
    HashMapGetBlockReplayList m1 demo_key 10 = Some (m2, Some (0, [5, 9]))"
  using indexed_records_replayed [of 8 bump_alloc "[(5, 0), (9, 4), (12, 4)]" demo_key False 10]
    bump_alloc_fresh by auto



section \<open>Lookups and the replay state\<close>

lemma newest_iff:
  assumes "lsorted es"
  shows "newest t es = Some e \<longleftrightarrow> e \<in> set es \<and> lsn e \<le> t \<and> (\<forall>x \<in> set es. lsn x \<le> t \<longrightarrow> lsn x \<le> lsn e)"
proof -
  let ?f = "upto_lsn t es"
  have srt: "lsorted ?f" using assms by (simp add: sorted_wrt_map sorted_wrt_filter)
  have inj: "x = y" if "x \<in> set es" "y \<in> set es" "lsn x = lsn y" for x y
    using assms that by (auto simp: in_set_conv_nth sorted_wrt_iff_nth_less) (metis linorder_neqE_nat less_irrefl)
  show ?thesis
  proof
    assume "newest t es = Some e"
    then have ne: "?f \<noteq> []" and e: "e = last ?f" by (auto simp: newest_def split: if_splits)
    from last_in_set [OF ne] e have "e \<in> set es" "lsn e \<le> t" by auto
    with lsorted_last [OF srt] e show "e \<in> set es \<and> lsn e \<le> t \<and> (\<forall>x \<in> set es. lsn x \<le> t \<longrightarrow> lsn x \<le> lsn e)"
      by simp
  next
    assume e: "e \<in> set es \<and> lsn e \<le> t \<and> (\<forall>x \<in> set es. lsn x \<le> t \<longrightarrow> lsn x \<le> lsn e)"
    then have mem: "e \<in> set ?f" by simp
    then have ne: "?f \<noteq> []" by (metis empty_iff list.set(1))
    have "lsn (last ?f) = lsn e"
      using lsorted_last [OF srt mem] last_in_set [OF ne] e by (intro antisym) auto
    then have "last ?f = e" using last_in_set [OF ne] e by (intro inj) auto
    with ne show "newest t es = Some e" by (simp only: newest_def if_False)
  qed
qed

text \<open>C5: \<open>HashMapFindLowerBoundEntry\<close> finds an entry exactly when it is the newest one of the key
  that is not above the target, whether it is stored in the head node or in an element node, and
  it leaves the map, its locks included, as it was.\<close>

theorem lower_bound_newest:
  assumes "hm_free m" and "versions m k = Some (es, r)"
  shows "HashMapFindLowerBoundEntry m k t = Some (m, Some (l, pn)) \<longleftrightarrow>
    (\<exists>e \<in> set es. lsn e = l \<and> pageNum e = pn \<and> l \<le> t \<and> (\<forall>x \<in> set es. lsn x \<le> t \<longrightarrow> lsn x \<le> l))"
proof -
  have srt: "lsorted es" using hm.chain_law [OF assms] by simp
  have "HashMapFindLowerBoundEntry m k t = Some (m, map_option entry_pair (newest t es))"
    using hm.lower_law [OF assms(1), of k t] assms(2) by (simp add: v_lower_bound_def)
  then show ?thesis by (auto simp: newest_iff [OF srt])
qed

theorem lower_bound_newest_witness:
  "\<exists>m. hm_free m \<and> HashMapFindLowerBoundEntry m demo_key 20 = Some (m, Some (9, 4))"
proof -
  obtain m where "hm_free m" "versions m demo_key = Some ([\<lparr>lsn = 0, pageNum = 0\<rparr>, \<lparr>lsn = 5, pageNum = 0\<rparr>, \<lparr>lsn = 9, pageNum = 4\<rparr>], 0)"
    using demo_map by force
  with lower_bound_newest [OF this, of 20 9 4] show ?thesis by auto
qed

text \<open>C6: a client that replays what it is handed and records the last LSN has nothing to do when it
  asks again for the same target: no record of a page is applied twice.\<close>

theorem second_catch_up_idle:
  assumes "hm_free m" and "versions m k = Some (es, r)" and "r \<le> t"
  shows "\<exists>m1 m2. catch_up HashMapGetBlockReplayList (\<lambda>m k l. HashMapUpdateReplayedLsn m k l True) m k t =
      Some (m1, window r t es) \<and>
    catch_up HashMapGetBlockReplayList (\<lambda>m k l. HashMapUpdateReplayedLsn m k l True) m1 k t = Some (m2, []) \<and>
    hm_free m2 \<and> versions m2 = versions m1"
  by (rule hm.catch_up_twice [OF assms])

theorem second_catch_up_idle_witness:
  "\<exists>m m1 m2. hm_free m \<and>
    catch_up HashMapGetBlockReplayList (\<lambda>m k l. HashMapUpdateReplayedLsn m k l True) m demo_key 20 = Some (m1, [5, 9]) \<and>
    catch_up HashMapGetBlockReplayList (\<lambda>m k l. HashMapUpdateReplayedLsn m k l True) m1 demo_key 20 = Some (m2, [])"
proof -
  obtain m where "hm_free m" "versions m demo_key = Some ([\<lparr>lsn = 0, pageNum = 0\<rparr>, \<lparr>lsn = 5, pageNum = 0\<rparr>, \<lparr>lsn = 9, pageNum = 4\<rparr>], 0)"
    using demo_map by force
  with second_catch_up_idle [OF this, of 20] show ?thesis by auto
qed

text \<open>C7: \<open>HashMapUpdateReplayedLsn\<close> only ever raises the replayed LSN of the key and says whether it
  did; chains and other keys are untouched, and no lock stays held.\<close>

theorem replayed_lsn_raised:
  assumes "hm_free m"
  shows "\<exists>m'. HashMapUpdateReplayedLsn m k l False = Some (m', \<exists>es r. versions m k = Some (es, r) \<and> r < l) \<and>
    hm_free m' \<and> versions m' = (versions m)(k := map_option (\<lambda>(es, r). (es, max r l)) (versions m k))"
  using HashMapUpdateReplayedLsn_free [of m k l] assms
  by (cases "versions m k") (auto simp: hm_free_def v_replayed_def fun_upd_idem)

theorem replayed_lsn_raised_witness:
  "\<exists>m m'. hm_free m \<and> HashMapUpdateReplayedLsn m demo_key 6 False = Some (m', True) \<and>
    map_option snd (versions m' demo_key) = Some 6"
proof -
  obtain m where "hm_free m" "versions m demo_key = Some ([\<lparr>lsn = 0, pageNum = 0\<rparr>, \<lparr>lsn = 5, pageNum = 0\<rparr>, \<lparr>lsn = 9, pageNum = 4\<rparr>], 0)"
    using demo_map by force
  with replayed_lsn_raised [of m demo_key 6] show ?thesis by (auto simp: max_def)
qed

text \<open>C8: when the LSN of a base page is below the first record of the page,
  \<open>HashMapUpdateFirstEmptySlot\<close> puts it into the empty first slot, counts the page as replayed up
  to it, and keeps the chain sorted; a slot that is already filled is left alone.\<close>

theorem first_slot_filled:
  assumes "hm_free m" and "base_below (versions m) k l"
  shows "\<exists>m'. HashMapUpdateFirstEmptySlot m k l = Some (m', snd (v_fill_first (versions m) k l)) \<and>
    hm_free m' \<and> versions m' = fst (v_fill_first (versions m) k l)"
  using HashMapUpdateFirstEmptySlot_spec [of m k l] assms by (auto simp: hm_free_def)

theorem first_slot_filled_witness:
  "\<exists>m m'. hm_free m \<and> HashMapUpdateFirstEmptySlot m demo_key 3 = Some (m', True) \<and>
    versions m' demo_key = Some ([\<lparr>lsn = 3, pageNum = 0\<rparr>, \<lparr>lsn = 5, pageNum = 0\<rparr>, \<lparr>lsn = 9, pageNum = 4\<rparr>], 3)"
proof -
  obtain m where "hm_free m" "versions m demo_key = Some ([\<lparr>lsn = 0, pageNum = 0\<rparr>, \<lparr>lsn = 5, pageNum = 0\<rparr>, \<lparr>lsn = 9, pageNum = 4\<rparr>], 0)"
    using demo_map by force
  with first_slot_filled [of m demo_key 3] show ?thesis
    by (auto simp: base_below_def v_fill_first_def max_def)
qed

section \<open>Destruction, the array search, and the bucket lists\<close>

text \<open>C9: \<open>HashMapDestroy\<close> ends and frees every head and element node of a well-formed map, without
  following a pointer to freed memory.\<close>

theorem destroy_frees_all:
  assumes "hm_ok m"
  shows "\<exists>m'. HashMapDestroy m = Some m' \<and> heads m' = Map.empty \<and> eles m' = Map.empty \<and> bucketList m' = []"
  by (rule HashMapDestroy_ok [OF assms])

theorem destroy_frees_all_witness:
  "\<exists>m m'. versions m \<noteq> Map.empty \<and> HashMapDestroy m = Some m' \<and> heads m' = Map.empty \<and> eles m' = Map.empty"
proof -
  obtain m where "hm_ok m" "versions m demo_key \<noteq> None" using demo_map by (force simp: hm_free_def)
  with destroy_frees_all [of m] show ?thesis by (metis (no_types))
qed



text \<open>
  Two heads in one bucket, the second in front: the example for the state of the back links.
\<close>

definition demo_head :: "u64 \<Rightarrow> ptr \<Rightarrow> ptr \<Rightarrow> HashNodeHead" where
  "demo_head b nx pv = (new_head demo_blk (demo_key\<lparr>BlkNum := b\<rparr>) 0 5 0 False)\<lparr>nextHead := nx, prevHead := pv\<rparr>"

definition demo_pair :: HashMap where
  "demo_pair =
     \<lparr>bucketList = [\<lparr>bucketLock = Unlocked, replayLock = False, lastReplayTime = zero_time, nodeList = Some 1\<rparr>],
      bucketNum = 1, heads = [1 \<mapsto> demo_head 1 (Some 2) None, 2 \<mapsto> demo_head 2 None (Some 1)], eles = Map.empty\<rparr>"

lemma demo_pair_ok: "hm_ok demo_pair"
proof (rule hm_okI)
  have hk: "head_ok Map.empty (demo_head b nx pv) []" for b nx pv
    using new_head_ok(1) [of 5 Map.empty demo_blk "demo_key\<lparr>BlkNum := b\<rparr>" 0 0 False]
      head_ok_content(1) [of "demo_head b nx pv" "new_head demo_blk (demo_key\<lparr>BlkNum := b\<rparr>) 0 5 0 False"]
    by (simp add: demo_head_def head_content_def)
  have idx: "key (demo_head b nx pv) = demo_key\<lparr>BlkNum := b\<rparr>" "bucket (demo_head b nx pv) = 0"
    "hashValue (demo_head b nx pv) = HashKey (demo_key\<lparr>BlkNum := b\<rparr>)"
    "nextHead (demo_head b nx pv) = nx" "prevHead (demo_head b nx pv) = pv" for b nx pv
    by (simp_all add: demo_head_def new_head_def Let_def)
  have slot: "key_slot demo_pair k = 0" for k by (simp add: key_slot_def demo_pair_def)
  have bok: "bucket_ok demo_pair 0 [1, 2]"
    unfolding bucket_ok_def slot by (simp add: demo_pair_def idx demo_key_def)
  then have hl: "head_list demo_pair 0 = [1, 2]" by (rule bucket_ok_head_list)
  show "bucketNum demo_pair \<noteq> 0" "length (bucketList demo_pair) = unat (bucketNum demo_pair)"
    by (simp_all add: demo_pair_def)
  show "\<exists>as. bucket_ok demo_pair i as" if "i < length (bucketList demo_pair)" for i
    using that bok by (auto simp: demo_pair_def)
  show "bucket h < length (bucketList demo_pair) \<and> a \<in> set (head_list demo_pair (bucket h))"
    if "heads demo_pair a = Some h" for a h
    using that hl idx by (auto simp: demo_pair_def split: if_splits)
  show "\<exists>es. head_ok (eles demo_pair) h es" if "heads demo_pair a = Some h" for a h
    using that hk by (auto simp: demo_pair_def split: if_splits)
  have "ele_list demo_pair h = []" if "heads demo_pair a = Some h" for a h
    using that hk head_ok_ele_list [of demo_pair h "[]"] by (auto simp: demo_pair_def split: if_splits)
  then show "set (ele_list demo_pair h) \<inter> set (ele_list demo_pair g) = {}"
    if "heads demo_pair a = Some h" "heads demo_pair b = Some g" for a b h g
    using that by simp
qed (simp add: demo_pair_def)



end
