(* ===== verification/KvStore.thy ===== *)
theory KvStore
  imports Prelude
begin

unbundle bit_operations_syntax

text \<open>
  The key-value layer of the storage node (\<open>backend/storage/kvstore/kv_interface.c\<close>): pages, WAL
  records and LSN lists in RocksDB. RocksDB itself is a parameter; what the code relies on is the
  predicate \<open>rocksdb_ok\<close>.
\<close>

section \<open>Bytes and printed numbers\<close>

type_synonym bytes = "u8 list"

text \<open>Little-endian object representations, as the casts to \<open>char *\<close> see them.\<close>

fun enc_le :: "nat \<Rightarrow> nat \<Rightarrow> bytes" where
  "enc_le 0 n = []"
| "enc_le (Suc k) n = word_of_nat (n mod 256) # enc_le k (n div 256)"

fun dec_le :: "bytes \<Rightarrow> nat" where
  "dec_le [] = 0"
| "dec_le (b # bs) = unat b + 256 * dec_le bs"

definition enc_u64s :: "u64 list \<Rightarrow> bytes" where
  "enc_u64s xs = concat (map (\<lambda>x. enc_le 8 (unat x)) xs)"

fun dec_u64s :: "bytes \<Rightarrow> u64 list" where
  "dec_u64s bs = (if length bs < 8 then [] else word_of_nat (dec_le (take 8 bs)) # dec_u64s (drop 8 bs))"

declare dec_u64s.simps [simp del]

text \<open>The conversions \<open>%lu\<close>, \<open>%u\<close> and \<open>%d\<close> of \<open>snprintf\<close>.\<close>

definition digit :: "nat \<Rightarrow> char" where
  "digit d = char_of (48 + d)"

fun dec_str :: "nat \<Rightarrow> string" where
  "dec_str n = (if n < 10 then [digit n] else dec_str (n div 10) @ [digit (n mod 10)])"

declare dec_str.simps [simp del]

definition int_str :: "int \<Rightarrow> string" where
  "int_str i = (if i < 0 then CHR ''-'' # dec_str (nat (- i)) else dec_str (nat i))"

definition snprintf :: "nat \<Rightarrow> string \<Rightarrow> string" where
  "snprintf n s = take (n - 1) s"

abbreviation MAX_PATH_LEN :: nat where "MAX_PATH_LEN \<equiv> 256"
abbreviation BLCKSZ :: nat where "BLCKSZ \<equiv> 8192"

section \<open>Keys\<close>

record RelFileNode =
  spcNode :: u32
  dbNode :: u32
  relNode :: u32

record BufferTag =
  rnode :: RelFileNode
  forkNum :: u32 \<comment> \<open>an \<open>int\<close>-sized enum\<close>
  blockNum :: u32

definition tag_str :: "BufferTag \<Rightarrow> string" where
  "tag_str t =
     dec_str (unat (spcNode (rnode t))) @ ''_'' @ dec_str (unat (dbNode (rnode t))) @ ''_'' @
     dec_str (unat (relNode (rnode t))) @ ''_'' @ int_str (sint (forkNum t)) @ ''_'' @
     dec_str (unat (blockNum t))"

definition ROCKSDB_LSN_LIST_KEY :: "BufferTag \<Rightarrow> string" where
  "ROCKSDB_LSN_LIST_KEY t = snprintf MAX_PATH_LEN (''rocks_list_'' @ tag_str t)"

definition ROCKSDB_PAGE_VERSION_KEY :: "BufferTag \<Rightarrow> u64 \<Rightarrow> string" where
  "ROCKSDB_PAGE_VERSION_KEY t lsn =
     snprintf MAX_PATH_LEN (''rocks_page_'' @ tag_str t @ ''_'' @ dec_str (unat lsn))"

definition ROCKSDB_XLOG_KEY :: "u64 \<Rightarrow> string" where
  "ROCKSDB_XLOG_KEY lsn = snprintf MAX_PATH_LEN (''rocks_xlog_'' @ dec_str (unat lsn))"

section \<open>RocksDB\<close>

text \<open>
  The part of the C API that is used. \<open>'d\<close> is the database on disk. Opening may fail (a \<open>NULL\<close>
  handle); the other calls may report an error through \<open>errptr\<close>.
\<close>

record 'd rocksdb =
  rocksdb_open :: "'d \<Rightarrow> 'd option"
  rocksdb_put :: "'d \<Rightarrow> string \<Rightarrow> bytes \<Rightarrow> 'd \<times> string option"
  rocksdb_get :: "'d \<Rightarrow> string \<Rightarrow> bytes option \<times> string option"
  rocksdb_delete :: "'d \<Rightarrow> string \<Rightarrow> 'd \<times> string option"

text \<open>
  The documented behaviour of a database without I/O errors: a get returns what was last put under
  the same key, other keys are not affected, and a deleted key is not found.
\<close>

definition rocksdb_ok :: "'d rocksdb \<Rightarrow> bool" where
  "rocksdb_ok r \<longleftrightarrow>
     (\<forall>d. \<exists>d'. rocksdb_open r d = Some d' \<and> rocksdb_get r d' = rocksdb_get r d) \<and>
     (\<forall>d k. snd (rocksdb_get r d k) = None) \<and>
     (\<forall>d k v. snd (rocksdb_put r d k v) = None \<and>
        (\<forall>k'. fst (rocksdb_get r (fst (rocksdb_put r d k v)) k') =
           (if k' = k then Some v else fst (rocksdb_get r d k')))) \<and>
     (\<forall>d k. snd (rocksdb_delete r d k) = None \<and>
        (\<forall>k'. fst (rocksdb_get r (fst (rocksdb_delete r d k)) k') =
           (if k' = k then None else fst (rocksdb_get r d k'))))"

text \<open>The global handle \<open>db\<close> (open or \<open>NULL\<close>) and the database.\<close>

record 'd kv =
  is_open :: bool
  store :: 'd

section \<open>Operations\<close>

definition InitKvStore :: "'d rocksdb \<Rightarrow> 'd kv \<Rightarrow> 'd kv" where
  "InitKvStore r s =
     (if is_open s then s
      else case rocksdb_open r (store s) of
             None \<Rightarrow> s
           | Some d \<Rightarrow> s\<lparr>is_open := True, store := d\<rparr>)"

text \<open>The calls fault when the handle is still \<open>NULL\<close> after the initialisation.\<close>

definition KvPut :: "'d rocksdb \<Rightarrow> 'd kv \<Rightarrow> string \<Rightarrow> bytes \<Rightarrow> (int \<times> 'd kv) option" where
  "KvPut r s key value =
     (let s = InitKvStore r s in
      if \<not> is_open s then None
      else let (d, err) = rocksdb_put r (store s) key value
           in Some (if err \<noteq> None then 1 else 0, s\<lparr>store := d\<rparr>))"

text \<open>The result code, the value (\<open>None\<close>: \<open>NULL\<close>) and its length.\<close>

definition KvGet :: "'d rocksdb \<Rightarrow> 'd kv \<Rightarrow> string \<Rightarrow> (int \<times> bytes option \<times> nat \<times> 'd kv) option" where
  "KvGet r s key =
     (let s = InitKvStore r s in
      if \<not> is_open s then None
      else let (value, err) = rocksdb_get r (store s) key;
               len = (case value of None \<Rightarrow> 0 | Some v \<Rightarrow> length v)
           in Some (if err \<noteq> None then 1 else 0, value, len, s))"

text \<open>\<open>err\<close> is not initialised: \<open>garbage\<close> is what the stack holds there.\<close>

definition KvDelete :: "string option \<Rightarrow> 'd rocksdb \<Rightarrow> 'd kv \<Rightarrow> string \<Rightarrow> (int \<times> 'd kv) option" where
  "KvDelete garbage r s key =
     (let s = InitKvStore r s in
      if \<not> is_open s then None
      else let (d, e) = rocksdb_delete r (store s) key;
               err = (case e of None \<Rightarrow> garbage | Some _ \<Rightarrow> e)
           in Some (if err \<noteq> None then 1 else 0, s\<lparr>store := d\<rparr>))"

definition KvGetInt :: "'d rocksdb \<Rightarrow> 'd kv \<Rightarrow> string \<Rightarrow> (int \<times> u32 option \<times> 'd kv) option" where
  "KvGetInt r s key =
     do { (_, value, len, s) \<leftarrow> KvGet r s key;
          (case value of
             None \<Rightarrow> Some (1, None, s)
           | Some v \<Rightarrow> if length v < 4 then None
                       else Some (0, Some (word_of_nat (dec_le (take 4 v))), s)) }"

definition KvPutInt :: "'d rocksdb \<Rightarrow> 'd kv \<Rightarrow> string \<Rightarrow> u32 \<Rightarrow> (int \<times> 'd kv) option" where
  "KvPutInt r s key value = KvPut r s key (enc_le 4 (unat value))"

definition KvClose :: "'d kv \<Rightarrow> 'd kv" where
  "KvClose s = (if is_open s then s\<lparr>is_open := False\<rparr> else s)"

text \<open>A WAL record in memory; its first four bytes are \<open>xl_tot_len\<close>.\<close>

definition PutXlogWithLsn :: "'d rocksdb \<Rightarrow> 'd kv \<Rightarrow> u64 \<Rightarrow> bytes \<Rightarrow> (int \<times> 'd kv) option" where
  "PutXlogWithLsn r s lsn record =
     (let tot_len = dec_le (take 4 record) in
      if length record < 4 \<or> length record < tot_len then None
      else KvPut r s (ROCKSDB_XLOG_KEY lsn) (take tot_len record))"

definition GetXlogWithLsn :: "'d rocksdb \<Rightarrow> 'd kv \<Rightarrow> u64 \<Rightarrow> (bool \<times> bytes option \<times> 'd kv) option" where
  "GetXlogWithLsn r s lsn =
     do { (_, record, record_size, s) \<leftarrow> KvGet r s (ROCKSDB_XLOG_KEY lsn);
          Some (0 < record_size, record, s) }"

definition PutListWithKey :: "'d rocksdb \<Rightarrow> 'd kv \<Rightarrow> string \<Rightarrow> u64 list \<Rightarrow> (int \<times> 'd kv) option" where
  "PutListWithKey r s key xs = KvPut r s key (enc_u64s xs)"

definition GetListWithKey :: "'d rocksdb \<Rightarrow> 'd kv \<Rightarrow> string \<Rightarrow> (bool \<times> u64 list \<times> 'd kv) option" where
  "GetListWithKey r s key =
     do { (_, value, size, s) \<leftarrow> KvGet r s key;
          Some (0 < size, (case value of None \<Rightarrow> [] | Some v \<Rightarrow> dec_u64s v), s) }"

definition GetListFromRocksdb ::
    "'d rocksdb \<Rightarrow> 'd kv \<Rightarrow> BufferTag \<Rightarrow> (u64 list option \<times> 'd kv) option" where
  "GetListFromRocksdb r s tag =
     do { (err, value, size, s) \<leftarrow> KvGet r s (ROCKSDB_LSN_LIST_KEY tag);
          Some (if err \<noteq> 0 \<or> size = 0 then None else map_option dec_u64s value, s) }"

definition PutList2Rocksdb :: "'d rocksdb \<Rightarrow> 'd kv \<Rightarrow> BufferTag \<Rightarrow> u64 list \<Rightarrow> 'd kv option" where
  "PutList2Rocksdb r s tag xs =
     do { (_, s) \<leftarrow> KvPut r s (ROCKSDB_LSN_LIST_KEY tag) (enc_u64s xs); Some s }"

text \<open>
  The loop of \<open>FindListLowerBound\<close>: \<open>fnd\<close> is the last LSN and its array index seen so far.
\<close>

partial_function (option)
  FindListLowerBound_loop :: "u64 list \<Rightarrow> u64 \<Rightarrow> int \<Rightarrow> int \<Rightarrow> (u64 \<times> u64) option \<Rightarrow> (u64 \<times> u64) option option" where
  "FindListLowerBound_loop uintList targetLsn n i fnd =
     (if i < n then do {
        x \<leftarrow> arr_get uintList i;
        (if x \<le> targetLsn then FindListLowerBound_loop uintList targetLsn n (i + 1) (Some (x, word_of_int i))
         else Some fnd) }
      else Some fnd)"

definition FindListLowerBound :: "u64 list \<Rightarrow> u64 \<Rightarrow> (u64 \<times> u64) option option" where
  "FindListLowerBound uintList targetLsn =
     do { listLen \<leftarrow> arr_get uintList 0;
          currPos \<leftarrow> arr_get uintList 1;
          (if listLen = 0 then Some None
           else do {
             first \<leftarrow> arr_get uintList 2;
             (if targetLsn < first then Some None
              else FindListLowerBound_loop uintList targetLsn (uint (listLen + 2)) 2 None) }) }"

definition DeletePageFromRocksdb ::
    "string option \<Rightarrow> 'd rocksdb \<Rightarrow> 'd kv \<Rightarrow> BufferTag \<Rightarrow> u64 \<Rightarrow> 'd kv option" where
  "DeletePageFromRocksdb garbage r s tag lsn =
     do { (_, s) \<leftarrow> KvDelete garbage r s (ROCKSDB_PAGE_VERSION_KEY tag lsn); Some s }"

definition GetPageFromRocksdb ::
    "'d rocksdb \<Rightarrow> 'd kv \<Rightarrow> BufferTag \<Rightarrow> u64 \<Rightarrow> (bytes option \<times> 'd kv) option" where
  "GetPageFromRocksdb r s tag lsn =
     do { (err, pageContent, valueSize, s) \<leftarrow> KvGet r s (ROCKSDB_PAGE_VERSION_KEY tag lsn);
          Some (if err \<noteq> 0 \<or> valueSize = 0 then None else pageContent, s) }"

text \<open>\<open>BLCKSZ\<close> bytes are read from the page.\<close>

definition PutPage2Rocksdb :: "'d rocksdb \<Rightarrow> 'd kv \<Rightarrow> BufferTag \<Rightarrow> u64 \<Rightarrow> bytes \<Rightarrow> 'd kv option" where
  "PutPage2Rocksdb r s tag lsn pageContent =
     (if length pageContent < BLCKSZ then None
      else do { (_, s) \<leftarrow> KvPut r s (ROCKSDB_PAGE_VERSION_KEY tag lsn) (take BLCKSZ pageContent); Some s })"

definition InsertLsn2RocksdbList :: "'d rocksdb \<Rightarrow> 'd kv \<Rightarrow> BufferTag \<Rightarrow> u64 \<Rightarrow> 'd kv option" where
  "InsertLsn2RocksdbList r s tag lsn =
     do { let tempKey = ROCKSDB_LSN_LIST_KEY tag;
          (fnd, int64List, s) \<leftarrow> GetListWithKey r s tempKey;
          (if \<not> fnd then do {
             (_, s) \<leftarrow> PutListWithKey r s tempKey [1, 0, lsn];
             Some s }
           else do {
             let listSize = int (length int64List);
             last_lsn \<leftarrow> arr_get int64List (listSize - 1);
             (if lsn \<le> last_lsn then Some s
              else do {
                extendList \<leftarrow> arr_upd int64List 0 (\<lambda>n. n + 1);
                (_, s) \<leftarrow> PutListWithKey r s tempKey (extendList @ [lsn]);
                Some s }) }) }"

definition MarshalIntList :: "u32 list \<Rightarrow> u32 list" where
  "MarshalIntList numList = word_of_nat (length numList) # numList"

definition UnmarshalListGetSize :: "u32 list \<Rightarrow> u32 option" where
  "UnmarshalListGetSize p = arr_get p 0"

definition UnmarshalListGetList :: "u32 list \<Rightarrow> u32 list" where
  "UnmarshalListGetList p = drop 1 p"

end
