(* ===== verification/KvLaws.thy ===== *)
theory KvLaws
  imports KvStore
begin

text \<open>
  What the key-value layer guarantees on a working RocksDB: keys never collide and are never cut
  off, so that pages, WAL records and LSN lists are independent maps; encodings round trip; and
  the LSN lists stay sorted.
\<close>

section \<open>Encodings\<close>

lemma length_enc_le [simp]: "length (enc_le k n) = k"
  by (induction k arbitrary: n) auto

lemma dec_enc_le: "n < 256 ^ k \<Longrightarrow> dec_le (enc_le k n) = n"
proof (induction k arbitrary: n)
  case (Suc k)
  then have "n div 256 < 256 ^ k" by (simp add: less_mult_imp_div_less mult.commute)
  from Suc.IH [OF this] show ?case by (simp add: unat_word_ariths unat_of_nat)
qed simp

lemma dec_enc_u64 [simp]: "word_of_nat (dec_le (enc_le 8 (unat x))) = (x :: u64)"
proof -
  have "unat x < 2 ^ LENGTH(64)" by (rule unsigned_less)
  then have "unat x < 256 ^ 8" by simp
  then show ?thesis by (simp add: dec_enc_le)
qed

lemma dec_enc_u64s [simp]: "dec_u64s (enc_u64s xs) = xs"
proof (induction xs)
  case Nil
  then show ?case by (simp add: enc_u64s_def dec_u64s.simps)
next
  case (Cons x xs)
  have "enc_u64s (x # xs) = enc_le 8 (unat x) @ enc_u64s xs" by (simp add: enc_u64s_def)
  with Cons show ?case by (simp add: dec_u64s.simps [of "enc_le 8 (unat x) @ enc_u64s xs"])
qed

lemma length_enc_u64s [simp]: "length (enc_u64s xs) = 8 * length xs"
  by (induction xs) (simp_all add: enc_u64s_def)

section \<open>Printed numbers\<close>

definition str_val :: "string \<Rightarrow> nat" where
  "str_val s = foldl (\<lambda>a c. 10 * a + (of_char c - 48)) 0 s"

lemma of_char_digit: "d < 10 \<Longrightarrow> of_char (digit d) = 48 + d"
  by (simp add: digit_def)

lemma str_val_dec: "str_val (dec_str n) = n"
proof (induction n rule: dec_str.induct)
  case (1 n)
  show ?case
  proof (cases "n < 10")
    case True
    then show ?thesis by (subst dec_str.simps) (simp add: str_val_def of_char_digit)
  next
    case False
    with 1 have "str_val (dec_str (n div 10)) = n div 10" by simp
    with False show ?thesis
      by (subst dec_str.simps) (simp add: str_val_def of_char_digit)
  qed
qed

lemma dec_str_inject [simp]: "dec_str m = dec_str n \<longleftrightarrow> m = n"
  by (metis str_val_dec)

lemma dec_str_chars: "c \<in> set (dec_str n) \<Longrightarrow> \<exists>d < 10. c = digit d"
proof (induction n rule: dec_str.induct)
  case (1 n)
  have "\<exists>d < 10. digit (n mod 10) = digit d" by (intro exI [of _ "n mod 10"]) simp
  with 1 show ?case
    by (subst (asm) dec_str.simps) (auto split: if_splits)
qed

lemma digit_not_sep: "d < 10 \<Longrightarrow> digit d \<noteq> CHR ''_'' \<and> digit d \<noteq> CHR ''-''"
proof -
  assume "d < 10"
  then have "of_char (digit d) \<noteq> (95 :: nat)" "of_char (digit d) \<noteq> (45 :: nat)"
    by (auto simp: of_char_digit)
  then show ?thesis by auto
qed

lemma dec_str_no_sep [simp]: "CHR ''_'' \<notin> set (dec_str n)" "CHR ''-'' \<notin> set (dec_str n)"
  using dec_str_chars digit_not_sep by metis+

lemma int_str_no_sep [simp]: "CHR ''_'' \<notin> set (int_str i)"
  by (simp add: int_str_def)

lemma int_str_inject [simp]: "int_str i = int_str j \<longleftrightarrow> i = j"
proof -
  have "dec_str m \<noteq> CHR ''-'' # xs" "CHR ''-'' # xs \<noteq> dec_str m" for m xs
    using dec_str_no_sep(2) [of m] by (metis list.set_intros(1))+
  then show ?thesis by (auto simp: int_str_def)
qed

lemma dec_str_length: "0 < k \<Longrightarrow> n < 10 ^ k \<Longrightarrow> length (dec_str n) \<le> k"
proof (induction k arbitrary: n)
  case (Suc k)
  show ?case
  proof (cases "n < 10")
    case True
    then show ?thesis by (subst dec_str.simps) simp
  next
    case False
    with Suc.prems have "0 < k" by (cases k) auto
    moreover from Suc.prems have "n div 10 < 10 ^ k" by (simp add: less_mult_imp_div_less mult.commute)
    ultimately have "length (dec_str (n div 10)) \<le> k" by (rule Suc.IH)
    with False show ?thesis by (subst dec_str.simps) simp
  qed
qed simp

section \<open>Keys\<close>

lemma split_at_sep:
  assumes "CHR ''_'' \<notin> set xs" "CHR ''_'' \<notin> set ys"
    and "xs @ CHR ''_'' # r = ys @ CHR ''_'' # r'"
  shows "xs = ys \<and> r = r'"
  using assms
proof (induction xs arbitrary: ys)
  case Nil
  then show ?case by (cases ys) auto
next
  case (Cons x xs)
  then show ?case by (cases ys) auto
qed

lemma dec_str_sep [simp]:
  "dec_str m @ CHR ''_'' # r = dec_str n @ CHR ''_'' # r' \<longleftrightarrow> m = n \<and> r = r'"
  using split_at_sep [of "dec_str m" "dec_str n" r r'] by auto

lemma int_str_sep [simp]:
  "int_str i @ CHR ''_'' # r = int_str j @ CHR ''_'' # r' \<longleftrightarrow> i = j \<and> r = r'"
  using split_at_sep [of "int_str i" "int_str j" r r'] by auto

lemma tag_str_inject: "tag_str t = tag_str t' \<longleftrightarrow> t = t'"
  by (cases t; cases t'; cases "rnode t"; cases "rnode t'") (auto simp: tag_str_def signed_word_eqI simp flip: word_unat_eq_iff)

lemma tag_str_sep: "tag_str t @ CHR ''_'' # r = tag_str t' @ CHR ''_'' # r' \<longleftrightarrow> t = t' \<and> r = r'"
  by (cases t; cases t'; cases "rnode t"; cases "rnode t'") (auto simp: tag_str_def signed_word_eqI simp flip: word_unat_eq_iff)

lemma u32_str_length: "length (dec_str (unat (x :: u32))) \<le> 10"
proof -
  have "unat x < 2 ^ LENGTH(32)" by (rule unsigned_less)
  then show ?thesis by (intro dec_str_length) simp_all
qed

lemma u64_str_length: "length (dec_str (unat (x :: u64))) \<le> 20"
proof -
  have "unat x < 2 ^ LENGTH(64)" by (rule unsigned_less)
  then show ?thesis by (intro dec_str_length) simp_all
qed

lemma fork_str_length: "length (int_str (sint (x :: u32))) \<le> 11"
proof -
  have "- (2 ^ 31) \<le> sint x" "sint x < 2 ^ 31" using sint_ge [of x] sint_lt [of x] by simp_all
  then have "length (dec_str (nat (- sint x))) \<le> 10" "length (dec_str (nat (sint x))) \<le> 10"
    by (auto intro!: dec_str_length)
  then show ?thesis by (simp add: int_str_def)
qed

lemma tag_str_length: "length (tag_str t) \<le> 55"
  using u32_str_length [of "spcNode (rnode t)"] u32_str_length [of "dbNode (rnode t)"]
    u32_str_length [of "relNode (rnode t)"] u32_str_length [of "blockNum t"]
    fork_str_length [of "forkNum t"]
  by (simp add: tag_str_def)

text \<open>The buffer of \<open>MAX_PATH_LEN\<close> bytes is always large enough.\<close>

lemma keys_not_cut:
  "ROCKSDB_LSN_LIST_KEY t = ''rocks_list_'' @ tag_str t"
  "ROCKSDB_PAGE_VERSION_KEY t l = ''rocks_page_'' @ tag_str t @ ''_'' @ dec_str (unat l)"
  "ROCKSDB_XLOG_KEY l = ''rocks_xlog_'' @ dec_str (unat l)"
  using tag_str_length [of t] u64_str_length [of l]
  by (simp_all add: ROCKSDB_LSN_LIST_KEY_def ROCKSDB_PAGE_VERSION_KEY_def ROCKSDB_XLOG_KEY_def snprintf_def)

lemma keys_inject [simp]:
  "ROCKSDB_LSN_LIST_KEY t = ROCKSDB_LSN_LIST_KEY t' \<longleftrightarrow> t = t'"
  "ROCKSDB_PAGE_VERSION_KEY t l = ROCKSDB_PAGE_VERSION_KEY t' l' \<longleftrightarrow> t = t' \<and> l = l'"
  "ROCKSDB_XLOG_KEY l = ROCKSDB_XLOG_KEY l' \<longleftrightarrow> l = l'"
  "ROCKSDB_LSN_LIST_KEY t \<noteq> ROCKSDB_PAGE_VERSION_KEY t' l'"
  "ROCKSDB_LSN_LIST_KEY t \<noteq> ROCKSDB_XLOG_KEY l'"
  "ROCKSDB_PAGE_VERSION_KEY t l \<noteq> ROCKSDB_XLOG_KEY l'"
  "ROCKSDB_PAGE_VERSION_KEY t' l' \<noteq> ROCKSDB_LSN_LIST_KEY t"
  "ROCKSDB_XLOG_KEY l' \<noteq> ROCKSDB_LSN_LIST_KEY t"
  "ROCKSDB_XLOG_KEY l' \<noteq> ROCKSDB_PAGE_VERSION_KEY t l"
  by (auto simp: keys_not_cut tag_str_inject tag_str_sep simp flip: word_unat_eq_iff)

section \<open>The operations on a working database\<close>

text \<open>
  The contents as the code sees them: the value under each key, whether or not the database is
  open yet.
\<close>

definition kv_map :: "'d rocksdb \<Rightarrow> 'd kv \<Rightarrow> string \<rightharpoonup> bytes" where
  "kv_map r s k = fst (rocksdb_get r (store s) k)"

lemma InitKvStore_ok:
  assumes "rocksdb_ok r"
  shows "is_open (InitKvStore r s)" "kv_map r (InitKvStore r s) = kv_map r s"
proof -
  obtain d where "rocksdb_open r (store s) = Some d" "rocksdb_get r d = rocksdb_get r (store s)"
    using assms unfolding rocksdb_ok_def by meson
  then show "is_open (InitKvStore r s)" "kv_map r (InitKvStore r s) = kv_map r s"
    by (auto simp: InitKvStore_def kv_map_def)
qed

lemma KvPut_ok:
  assumes ok: "rocksdb_ok r"
  shows "\<exists>s'. KvPut r s k v = Some (0, s') \<and> kv_map r s' = (kv_map r s)(k \<mapsto> v)"
proof -
  let ?s = "InitKvStore r s"
  let ?s' = "?s\<lparr>store := fst (rocksdb_put r (store ?s) k v)\<rparr>"
  have "snd (rocksdb_put r (store ?s) k v) = None"
    "\<And>k'. fst (rocksdb_get r (fst (rocksdb_put r (store ?s) k v)) k') =
      (if k' = k then Some v else fst (rocksdb_get r (store ?s) k'))"
    using ok unfolding rocksdb_ok_def by blast+
  then have "KvPut r s k v = Some (0, ?s')" "kv_map r ?s' = (kv_map r ?s)(k \<mapsto> v)"
    using InitKvStore_ok(1) [OF ok, of s]
    by (auto simp: KvPut_def kv_map_def Let_def fun_eq_iff split: prod.splits)
  then show ?thesis using InitKvStore_ok(2) [OF ok, of s] by auto
qed

lemma KvGet_ok:
  assumes ok: "rocksdb_ok r"
  shows "\<exists>s'. KvGet r s k = Some (0, kv_map r s k, (case kv_map r s k of None \<Rightarrow> 0 | Some v \<Rightarrow> length v), s') \<and>
    kv_map r s' = kv_map r s"
proof -
  let ?s = "InitKvStore r s"
  have "snd (rocksdb_get r (store ?s) k) = None" using ok unfolding rocksdb_ok_def by blast
  then have "KvGet r s k = Some (0, kv_map r ?s k, (case kv_map r ?s k of None \<Rightarrow> 0 | Some v \<Rightarrow> length v), ?s)"
    using InitKvStore_ok(1) [OF ok, of s] by (auto simp: KvGet_def kv_map_def Let_def split: prod.splits)
  then show ?thesis using InitKvStore_ok(2) [OF ok, of s] by auto
qed

lemma KvDelete_ok:
  assumes ok: "rocksdb_ok r"
  shows "\<exists>s'. KvDelete g r s k = Some (if g = None then 0 else 1, s') \<and> kv_map r s' = (kv_map r s)(k := None)"
proof -
  let ?s = "InitKvStore r s"
  let ?s' = "?s\<lparr>store := fst (rocksdb_delete r (store ?s) k)\<rparr>"
  have "snd (rocksdb_delete r (store ?s) k) = None"
    "\<And>k'. fst (rocksdb_get r (fst (rocksdb_delete r (store ?s) k)) k') =
      (if k' = k then None else fst (rocksdb_get r (store ?s) k'))"
    using ok unfolding rocksdb_ok_def by blast+
  then have "KvDelete g r s k = Some (if g = None then 0 else 1, ?s')"
    "kv_map r ?s' = (kv_map r ?s)(k := None)"
    using InitKvStore_ok(1) [OF ok, of s]
    by (auto simp: KvDelete_def kv_map_def Let_def fun_eq_iff split: prod.splits)
  then show ?thesis using InitKvStore_ok(2) [OF ok, of s] by auto
qed

section \<open>Pages, WAL records and LSN lists as independent maps\<close>

definition page_map :: "'d rocksdb \<Rightarrow> 'd kv \<Rightarrow> BufferTag \<times> u64 \<rightharpoonup> bytes" where
  "page_map r s x = kv_map r s (ROCKSDB_PAGE_VERSION_KEY (fst x) (snd x))"

definition xlog_map :: "'d rocksdb \<Rightarrow> 'd kv \<Rightarrow> u64 \<rightharpoonup> bytes" where
  "xlog_map r s l = kv_map r s (ROCKSDB_XLOG_KEY l)"

definition list_map :: "'d rocksdb \<Rightarrow> 'd kv \<Rightarrow> BufferTag \<rightharpoonup> u64 list" where
  "list_map r s t = map_option dec_u64s (kv_map r s (ROCKSDB_LSN_LIST_KEY t))"

lemma page_key_upd:
  assumes "kv_map r s' = (kv_map r s)(ROCKSDB_PAGE_VERSION_KEY t l := v)"
  shows "page_map r s' = (page_map r s)((t, l) := v)" "xlog_map r s' = xlog_map r s"
    "list_map r s' = list_map r s"
  using assms by (auto simp: page_map_def xlog_map_def list_map_def fun_eq_iff)

lemma xlog_key_upd:
  assumes "kv_map r s' = (kv_map r s)(ROCKSDB_XLOG_KEY l := v)"
  shows "page_map r s' = page_map r s" "xlog_map r s' = (xlog_map r s)(l := v)"
    "list_map r s' = list_map r s"
  using assms by (auto simp: page_map_def xlog_map_def list_map_def fun_eq_iff)

lemma list_key_upd:
  assumes "kv_map r s' = (kv_map r s)(ROCKSDB_LSN_LIST_KEY t := v)"
  shows "page_map r s' = page_map r s" "xlog_map r s' = xlog_map r s"
    "list_map r s' = (list_map r s)(t := map_option dec_u64s v)"
  using assms by (auto simp: page_map_def xlog_map_def list_map_def fun_eq_iff)

lemma PutPage2Rocksdb_ok:
  assumes "rocksdb_ok r" "length p = BLCKSZ"
  obtains s' where "PutPage2Rocksdb r s t l p = Some s'" "page_map r s' = (page_map r s)((t, l) \<mapsto> p)"
    "xlog_map r s' = xlog_map r s" "list_map r s' = list_map r s"
proof -
  obtain s' where s': "KvPut r s (ROCKSDB_PAGE_VERSION_KEY t l) p = Some (0, s')"
    "kv_map r s' = (kv_map r s)(ROCKSDB_PAGE_VERSION_KEY t l \<mapsto> p)"
    using KvPut_ok [OF assms(1)] by blast
  with assms(2) page_key_upd [OF s'(2)] show thesis
    by (intro that [of s']) (simp_all add: PutPage2Rocksdb_def)
qed

lemma GetPageFromRocksdb_ok:
  assumes "rocksdb_ok r" "page_map r s (t, l) \<noteq> Some []"
  obtains s' where "GetPageFromRocksdb r s t l = Some (page_map r s (t, l), s')" "kv_map r s' = kv_map r s"
proof -
  obtain s' where s': "KvGet r s (ROCKSDB_PAGE_VERSION_KEY t l) = Some (0, page_map r s (t, l),
      (case page_map r s (t, l) of None \<Rightarrow> 0 | Some v \<Rightarrow> length v), s')" "kv_map r s' = kv_map r s"
    using KvGet_ok [OF assms(1), of s "ROCKSDB_PAGE_VERSION_KEY t l"] by (auto simp: page_map_def)
  with assms(2) show thesis
    by (intro that [of s']) (auto simp: GetPageFromRocksdb_def split: option.splits)
qed

lemma DeletePageFromRocksdb_ok:
  assumes "rocksdb_ok r"
  obtains s' where "DeletePageFromRocksdb g r s t l = Some s'"
    "page_map r s' = (page_map r s)((t, l) := None)"
    "xlog_map r s' = xlog_map r s" "list_map r s' = list_map r s"
proof -
  obtain s' where s': "KvDelete g r s (ROCKSDB_PAGE_VERSION_KEY t l) = Some (if g = None then 0 else 1, s')"
    "kv_map r s' = (kv_map r s)(ROCKSDB_PAGE_VERSION_KEY t l := None)"
    using KvDelete_ok [OF assms] by blast
  with page_key_upd [OF s'(2)] show thesis
    by (intro that [of s']) (simp_all add: DeletePageFromRocksdb_def)
qed

lemma PutXlogWithLsn_ok:
  assumes "rocksdb_ok r" "4 \<le> length rec" "dec_le (take 4 rec) \<le> length rec"
  obtains s' where "PutXlogWithLsn r s l rec = Some (0, s')"
    "xlog_map r s' = (xlog_map r s)(l \<mapsto> take (dec_le (take 4 rec)) rec)"
    "page_map r s' = page_map r s" "list_map r s' = list_map r s"
proof -
  obtain s' where s': "KvPut r s (ROCKSDB_XLOG_KEY l) (take (dec_le (take 4 rec)) rec) = Some (0, s')"
    "kv_map r s' = (kv_map r s)(ROCKSDB_XLOG_KEY l \<mapsto> take (dec_le (take 4 rec)) rec)"
    using KvPut_ok [OF assms(1)] by blast
  with xlog_key_upd [OF s'(2)] assms(2,3) show thesis
    by (intro that [of s']) (simp_all add: PutXlogWithLsn_def Let_def not_less)
qed

lemma GetXlogWithLsn_ok:
  assumes "rocksdb_ok r"
  obtains s' where "GetXlogWithLsn r s l = Some (xlog_map r s l \<notin> {None, Some []}, xlog_map r s l, s')"
    "kv_map r s' = kv_map r s"
proof -
  obtain s' where s': "KvGet r s (ROCKSDB_XLOG_KEY l) = Some (0, xlog_map r s l,
      (case xlog_map r s l of None \<Rightarrow> 0 | Some v \<Rightarrow> length v), s')" "kv_map r s' = kv_map r s"
    using KvGet_ok [OF assms(1), of s "ROCKSDB_XLOG_KEY l"] by (auto simp: xlog_map_def)
  then show thesis
    by (intro that [of s']) (auto simp: GetXlogWithLsn_def split: option.splits)
qed

section \<open>LSN lists\<close>

text \<open>The stored format: the number of LSNs, a position that is always 0, and the LSNs, ascending.\<close>

definition lsn_list :: "u64 list \<Rightarrow> u64 list" where
  "lsn_list ls = word_of_nat (length ls) # 0 # ls"

lemma GetListWithKey_ok:
  assumes "rocksdb_ok r" "kv_map r s k = map_option enc_u64s xs"
  obtains s' where "GetListWithKey r s k = Some (xs \<notin> {None, Some []}, (case xs of None \<Rightarrow> [] | Some ys \<Rightarrow> ys), s')"
    "kv_map r s' = kv_map r s"
proof -
  obtain s' where s': "KvGet r s k = Some (0, kv_map r s k, (case kv_map r s k of None \<Rightarrow> 0 | Some v \<Rightarrow> length v), s')"
    "kv_map r s' = kv_map r s"
    using KvGet_ok [OF assms(1), of s k] by blast
  with assms(2) show thesis
    by (intro that [of s']) (auto simp: GetListWithKey_def split: option.splits)
qed

text \<open>What the insertion does with the LSNs of a page: it ignores those that are not newer.\<close>

definition list_insert :: "u64 list option \<Rightarrow> u64 \<Rightarrow> u64 list" where
  "list_insert ls l =
     (case ls of None \<Rightarrow> [l] | Some ys \<Rightarrow> if l \<le> last ys then ys else ys @ [l])"

lemma InsertLsn2RocksdbList_ok:
  assumes ok: "rocksdb_ok r" and ls: "ls \<noteq> Some []"
    and stored: "kv_map r s (ROCKSDB_LSN_LIST_KEY t) = map_option (\<lambda>ys. enc_u64s (lsn_list ys)) ls"
  obtains s' where "InsertLsn2RocksdbList r s t l = Some s'"
    "kv_map r s' = (kv_map r s)(ROCKSDB_LSN_LIST_KEY t \<mapsto> enc_u64s (lsn_list (list_insert ls l)))"
proof -
  let ?k = "ROCKSDB_LSN_LIST_KEY t"
  obtain s1 where s1: "GetListWithKey r s ?k = Some (ls \<noteq> None, (case ls of None \<Rightarrow> [] | Some ys \<Rightarrow> lsn_list ys), s1)"
    "kv_map r s1 = kv_map r s"
    by (rule GetListWithKey_ok [OF ok, where s = s and k = ?k and xs = "map_option lsn_list ls"])
      (use stored in \<open>cases ls; auto simp: lsn_list_def intro: that\<close>)+
  obtain s2 where s2: "PutListWithKey r s1 ?k (lsn_list (list_insert ls l)) = Some (0, s2)"
    "kv_map r s2 = (kv_map r s)(?k \<mapsto> enc_u64s (lsn_list (list_insert ls l)))"
    using KvPut_ok [OF ok, of s1 ?k "enc_u64s (lsn_list (list_insert ls l))"] s1(2)
    by (auto simp: PutListWithKey_def)
  show thesis
  proof (cases ls)
    case None
    with s1 s2 that [of s2] show thesis
      by (simp add: InsertLsn2RocksdbList_def list_insert_def lsn_list_def)
  next
    case (Some ys)
    with ls have "ys \<noteq> []" by simp
    moreover have "nat (1 + int (length ys)) = Suc (length ys)" by linarith
    ultimately have last: "arr_get (lsn_list ys) (int (length (lsn_list ys)) - 1) = Some (last ys)"
      by (simp add: lsn_list_def arr_get_def nat_diff_distrib last_conv_nth)
    show thesis
    proof (cases "l \<le> last ys")
      case True
      with Some s1 last stored that [of s1] show thesis
        by (simp add: InsertLsn2RocksdbList_def list_insert_def Let_def map_upd_triv)
    next
      case False
      have "(lsn_list ys)[0 := lsn_list ys ! 0 + 1] @ [l] = lsn_list (list_insert ls l)"
        using False Some by (simp add: lsn_list_def list_insert_def add.commute)
      with False Some s1 s2 last that [of s2] show thesis
        by (simp add: InsertLsn2RocksdbList_def Let_def arr_upd_def lsn_list_def)
    qed
  qed
qed

text \<open>The linear search over a stored list.\<close>

lemma list_loop:
  assumes "i \<le> length ls" "length ls < 2 ^ 63"
    and "fnd = (if i = 0 then None else Some (ls ! (i - 1), word_of_nat (i + 1)))"
    and "\<forall>j < i. ls ! j \<le> t"
  shows "FindListLowerBound_loop (lsn_list ls) t (int (length ls) + 2) (int i + 2) fnd =
    Some (let n = length (takeWhile (\<lambda>x. x \<le> t) ls)
          in if n = 0 then None else Some (ls ! (n - 1), word_of_nat (n + 1)))"
  using assms
proof (induction "length ls - i" arbitrary: i fnd)
  case 0
  then have i: "i = length ls" by simp
  then have "takeWhile (\<lambda>x. x \<le> t) ls = ls" using 0 by (auto simp: takeWhile_eq_all_conv in_set_conv_nth)
  then have "length (takeWhile (\<lambda>x. x \<le> t) ls) = length ls" by (rule arg_cong)
  then have "(let n = length (takeWhile (\<lambda>x. x \<le> t) ls)
      in if n = 0 then None else Some (ls ! (n - 1), word_of_nat (n + 1))) = fnd"
    using 0 i by (simp only: Let_def)
  with i show ?case by (simp add: FindListLowerBound_loop.simps)
next
  case (Suc k)
  then have i: "i < length ls" by simp
  have nati: "nat (int i + 2) = Suc (Suc i)" by linarith
  then have get: "arr_get (lsn_list ls) (int i + 2) = Some (ls ! i)"
    using i by (simp add: arr_get_def lsn_list_def)
  note step = FindListLowerBound_loop.simps [of "lsn_list ls" t "int (length ls) + 2" "int i + 2"]
  show ?case
  proof (cases "ls ! i \<le> t")
    case True
    have "word_of_int (int i + 2) = (word_of_nat (Suc i + 1) :: u64)" by simp
    moreover have "\<forall>j < Suc i. ls ! j \<le> t" using Suc.prems(4) True less_Suc_eq by auto
    then have "FindListLowerBound_loop (lsn_list ls) t (int (length ls) + 2) (int (Suc i) + 2)
        (Some (ls ! i, word_of_nat (Suc i + 1))) =
      Some (let n = length (takeWhile (\<lambda>x. x \<le> t) ls)
          in if n = 0 then None else Some (ls ! (n - 1), word_of_nat (n + 1)))"
      using Suc i by (intro Suc.hyps(1)) auto
    ultimately show ?thesis using True get i step by (simp add: algebra_simps)
  next
    case False
    have "takeWhile (\<lambda>x. x \<le> t) ls = take i ls"
      using Suc.prems(4) False by (intro takeWhile_eq_take_P_nth) auto
    then have "length (takeWhile (\<lambda>x. x \<le> t) ls) = i" using i by simp
    with False get i step Suc.prems(3) show ?thesis by (simp add: Let_def)
  qed
qed

lemma FindListLowerBound_ok:
  assumes "sorted_wrt (<) ls" "ls \<noteq> []" "length ls < 2 ^ 63"
  shows "FindListLowerBound (lsn_list ls) t =
    Some (let n = length (filter (\<lambda>x. x \<le> t) ls)
          in if n = 0 then None else Some (ls ! (n - 1), word_of_nat (n + 1)))"
proof -
  have tw: "takeWhile (\<lambda>x. x \<le> t) ls = filter (\<lambda>x. x \<le> t) ls"
    using assms(1)
  proof (induction ls)
    case (Cons x xs)
    then have "filter (\<lambda>x. x \<le> t) xs = []" if "t < x" using that by (force simp: filter_empty_conv)
    with Cons show ?case by auto
  qed simp
  have "unat (word_of_nat (length ls) :: u64) = length ls"
    using assms(3) by (simp add: unat_of_nat)
  moreover have "unat (word_of_nat (length ls) + 2 :: u64) = length ls + 2"
    using assms(3) by (simp add: unat_word_ariths unat_of_nat)
  ultimately have nz: "(word_of_nat (length ls) :: u64) \<noteq> 0"
    and bound: "uint (word_of_nat (length ls) + 2 :: u64) = int (length ls) + 2"
    using assms(2) by (auto simp: uint_nat simp del: of_nat_unat)
  obtain x xs where ls: "ls = x # xs" using assms(2) by (cases ls) auto
  have gets: "arr_get (lsn_list ls) 0 = Some (word_of_nat (length ls))" "arr_get (lsn_list ls) 1 = Some 0"
    "arr_get (lsn_list ls) 2 = Some x"
    by (simp_all add: arr_get_def lsn_list_def ls)
  show ?thesis
  proof (cases "t < x")
    case True
    then have "takeWhile (\<lambda>x. x \<le> t) ls = []" by (simp add: ls not_le)
    then have "filter (\<lambda>x. x \<le> t) ls = []" by (simp only: tw)
    with True gets nz show ?thesis by (simp add: FindListLowerBound_def)
  next
    case False
    then have "FindListLowerBound (lsn_list ls) t =
        FindListLowerBound_loop (lsn_list ls) t (int (length ls) + 2) 2 None"
      using gets nz bound by (simp add: FindListLowerBound_def)
    also have "\<dots> = Some (let n = length (takeWhile (\<lambda>x. x \<le> t) ls)
        in if n = 0 then None else Some (ls ! (n - 1), word_of_nat (n + 1)))"
      using list_loop [of 0 ls None t] assms(3) by simp
    finally show ?thesis by (simp only: tw)
  qed
qed

end
