(* ===== verification/PageStore.thy ===== *)
theory PageStore
  imports KvLaws
begin

text \<open>
  The contract of the page store with its clients (the page server and the vacuumer), as a locale:
  materialised page versions as a map from page and LSN to contents. It is interpreted on the page
  operations of \<open>kv_interface.c\<close>. Then the properties of the key-value layer.
\<close>

section \<open>The contract\<close>

text \<open>Replacing one version of a page by a newer one, the way its clients do it.\<close>

definition replace_version ::
    "('e \<Rightarrow> 's \<Rightarrow> BufferTag \<Rightarrow> u64 \<Rightarrow> bytes \<Rightarrow> 's option) \<Rightarrow> ('e \<Rightarrow> 's \<Rightarrow> BufferTag \<Rightarrow> u64 \<Rightarrow> 's option) \<Rightarrow>
     'e \<Rightarrow> 's \<Rightarrow> BufferTag \<Rightarrow> u64 \<Rightarrow> u64 \<Rightarrow> bytes \<Rightarrow> 's option" where
  "replace_version put del e s t old new p = do { s \<leftarrow> put e s t new p; del e s t old }"

definition full_pages :: "(BufferTag \<times> u64 \<rightharpoonup> bytes) \<Rightarrow> bool" where
  "full_pages m \<longleftrightarrow> (\<forall>p \<in> ran m. length p = BLCKSZ)"

lemma full_pages_upd [simp]:
  "full_pages m \<Longrightarrow> length p = BLCKSZ \<Longrightarrow> full_pages (m(x \<mapsto> p))"
  "full_pages m \<Longrightarrow> full_pages (m(x := None))"
  by (auto simp: full_pages_def ran_def)

lemma full_pages_nonempty: "full_pages m \<Longrightarrow> m x \<noteq> Some []"
proof
  assume "full_pages m" "m x = Some []"
  then have "length ([] :: bytes) = BLCKSZ" unfolding full_pages_def by (blast intro: ranI)
  then show False by simp
qed

locale page_store =
  fixes env :: "'e \<Rightarrow> bool"
    and pages :: "'e \<Rightarrow> 's \<Rightarrow> BufferTag \<times> u64 \<rightharpoonup> bytes"
    and put :: "'e \<Rightarrow> 's \<Rightarrow> BufferTag \<Rightarrow> u64 \<Rightarrow> bytes \<Rightarrow> 's option"
    and get :: "'e \<Rightarrow> 's \<Rightarrow> BufferTag \<Rightarrow> u64 \<Rightarrow> (bytes option \<times> 's) option"
    and del :: "'e \<Rightarrow> 's \<Rightarrow> BufferTag \<Rightarrow> u64 \<Rightarrow> 's option"
  assumes put_law: "env e \<Longrightarrow> length p = BLCKSZ \<Longrightarrow>
      \<exists>s'. put e s t l p = Some s' \<and> pages e s' = (pages e s)((t, l) \<mapsto> p)"
    and get_law: "env e \<Longrightarrow> full_pages (pages e s) \<Longrightarrow>
      \<exists>s'. get e s t l = Some (pages e s (t, l), s') \<and> pages e s' = pages e s"
    and del_law: "env e \<Longrightarrow> \<exists>s'. del e s t l = Some s' \<and> pages e s' = (pages e s)((t, l) := None)"
begin

lemma replace_ok:
  assumes "env e" "length p = BLCKSZ" "old \<noteq> new"
  shows "\<exists>s'. replace_version put del e s t old new p = Some s' \<and>
    pages e s' = (pages e s)((t, old) := None, (t, new) \<mapsto> p)"
proof -
  obtain s1 where s1: "put e s t new p = Some s1" "pages e s1 = (pages e s)((t, new) \<mapsto> p)"
    using put_law assms by blast
  obtain s2 where s2: "del e s1 t old = Some s2" "pages e s2 = (pages e s1)((t, old) := None)"
    using del_law assms by blast
  from s1 s2 assms(3) show ?thesis by (auto simp: replace_version_def fun_upd_twist)
qed

lemma put_get:
  assumes "env e" "full_pages (pages e s)" "length p = BLCKSZ"
  shows "\<exists>s1 s2. put e s t l p = Some s1 \<and> get e s1 t l = Some (Some p, s2) \<and> pages e s2 = (pages e s)((t, l) \<mapsto> p)"
proof -
  obtain s1 where s1: "put e s t l p = Some s1" "pages e s1 = (pages e s)((t, l) \<mapsto> p)"
    using put_law assms by blast
  with assms have "full_pages (pages e s1)" by simp
  from get_law [OF assms(1) this, of t l] s1 show ?thesis by auto
qed

end

text \<open>The environment is RocksDB and the uninitialised \<open>err\<close> of \<open>KvDelete\<close>.\<close>

interpretation rocks: page_store "\<lambda>(g, r). rocksdb_ok r" "\<lambda>(g, r). page_map r"
  "\<lambda>(g, r). PutPage2Rocksdb r" "\<lambda>(g, r). GetPageFromRocksdb r" "\<lambda>(g, r). DeletePageFromRocksdb g r"
proof (unfold_locales, unfold case_prod_beta)
  fix e :: "string option \<times> 'a rocksdb" and s t l p
  assume ok: "rocksdb_ok (snd e)"
  show "\<exists>s'. PutPage2Rocksdb (snd e) s t l p = Some s' \<and> page_map (snd e) s' = (page_map (snd e) s)((t, l) \<mapsto> p)"
    if "length p = BLCKSZ"
    by (rule PutPage2Rocksdb_ok [OF ok that]) blast
  show "\<exists>s'. GetPageFromRocksdb (snd e) s t l = Some (page_map (snd e) s (t, l), s') \<and> page_map (snd e) s' = page_map (snd e) s"
    if "full_pages (page_map (snd e) s)"
    by (rule GetPageFromRocksdb_ok [OF ok full_pages_nonempty [OF that], of t l]) (auto simp: page_map_def fun_eq_iff)
  show "\<exists>s'. DeletePageFromRocksdb (fst e) (snd e) s t l = Some s' \<and> page_map (snd e) s' = (page_map (snd e) s)((t, l) := None)"
    by (rule DeletePageFromRocksdb_ok [OF ok]) blast
qed

section \<open>An example database\<close>

text \<open>A database in memory, on an association list.\<close>

definition mem_db :: "(string \<times> bytes) list rocksdb" where
  "mem_db = \<lparr>rocksdb_open = Some, rocksdb_put = (\<lambda>d k v. ((k, v) # d, None)),
     rocksdb_get = (\<lambda>d k. (map_of d k, None)), rocksdb_delete = (\<lambda>d k. (filter (\<lambda>x. fst x \<noteq> k) d, None))\<rparr>"

definition mem_kv :: "(string \<times> bytes) list kv" where
  "mem_kv = \<lparr>is_open = False, store = []\<rparr>"

lemma map_of_delete: "map_of (filter (\<lambda>x. fst x \<noteq> k) d) k' = (if k' = k then None else map_of d k')"
  by (induction d) auto

lemma mem_db_ok: "rocksdb_ok mem_db"
  by (simp add: rocksdb_ok_def mem_db_def map_of_delete)

lemma mem_kv_empty: "kv_map mem_db mem_kv = Map.empty"
  by (simp add: kv_map_def mem_db_def mem_kv_def fun_eq_iff)

lemma mem_kv_views:
  "page_map mem_db mem_kv = Map.empty" "xlog_map mem_db mem_kv = Map.empty" "list_map mem_db mem_kv = Map.empty"
  by (simp_all add: page_map_def xlog_map_def list_map_def mem_kv_empty fun_eq_iff)

definition demo_tag :: BufferTag where
  "demo_tag = \<lparr>rnode = \<lparr>spcNode = 1663, dbNode = 13580, relNode = 16384\<rparr>, forkNum = 0, blockNum = 7\<rparr>"

section \<open>Properties\<close>

text \<open>Sequences of page operations.\<close>

datatype page_op = Put BufferTag u64 bytes | Get BufferTag u64 | Delete BufferTag u64

primrec run_page_op :: "string option \<Rightarrow> 'd rocksdb \<Rightarrow> 'd kv \<Rightarrow> page_op \<Rightarrow> 'd kv option" where
  "run_page_op g r s (Put t l p) = PutPage2Rocksdb r s t l p"
| "run_page_op g r s (Get t l) = map_option snd (GetPageFromRocksdb r s t l)"
| "run_page_op g r s (Delete t l) = DeletePageFromRocksdb g r s t l"

primrec page_op_spec :: "page_op \<Rightarrow> (BufferTag \<times> u64 \<rightharpoonup> bytes) \<Rightarrow> (BufferTag \<times> u64 \<rightharpoonup> bytes)" where
  "page_op_spec (Put t l p) m = m((t, l) \<mapsto> p)"
| "page_op_spec (Get t l) m = m"
| "page_op_spec (Delete t l) m = m((t, l) := None)"

primrec page_op_ok :: "page_op \<Rightarrow> bool" where
  "page_op_ok (Put t l p) = (length p = BLCKSZ)"
| "page_op_ok (Get t l) = True"
| "page_op_ok (Delete t l) = True"

primrec run_page_ops :: "string option \<Rightarrow> 'd rocksdb \<Rightarrow> 'd kv \<Rightarrow> page_op list \<Rightarrow> 'd kv option" where
  "run_page_ops g r s [] = Some s"
| "run_page_ops g r s (x # xs) = do { s \<leftarrow> run_page_op g r s x; run_page_ops g r s xs }"

lemma page_op_step:
  assumes "rocksdb_ok r" "full_pages (page_map r s)" "page_op_ok x"
  obtains s' where "run_page_op g r s x = Some s'" "page_map r s' = page_op_spec x (page_map r s)"
    "full_pages (page_map r s')" "xlog_map r s' = xlog_map r s" "list_map r s' = list_map r s"
proof (cases x)
  case (Put t l p)
  with assms have len: "length p = BLCKSZ" by simp
  obtain s' where "PutPage2Rocksdb r s t l p = Some s'" "page_map r s' = (page_map r s)((t, l) \<mapsto> p)"
    "xlog_map r s' = xlog_map r s" "list_map r s' = list_map r s"
    by (rule PutPage2Rocksdb_ok [OF assms(1) len])
  with Put len assms(2) show thesis by (intro that [of s']) simp_all
next
  case (Get t l)
  obtain s' where "GetPageFromRocksdb r s t l = Some (page_map r s (t, l), s')" "kv_map r s' = kv_map r s"
    by (rule GetPageFromRocksdb_ok [OF assms(1) full_pages_nonempty [OF assms(2)]])
  with Get assms(2) show thesis
    by (intro that [of s']) (simp_all add: page_map_def xlog_map_def list_map_def fun_eq_iff full_pages_def ran_def)
next
  case (Delete t l)
  obtain s' where "DeletePageFromRocksdb g r s t l = Some s'" "page_map r s' = (page_map r s)((t, l) := None)"
    "xlog_map r s' = xlog_map r s" "list_map r s' = list_map r s"
    by (rule DeletePageFromRocksdb_ok [OF assms(1)])
  with Delete assms(2) show thesis by (intro that [of s']) simp_all
qed

lemma page_ops_run:
  assumes "rocksdb_ok r" "full_pages (page_map r s)" "list_all page_op_ok xs"
  shows "\<exists>s'. run_page_ops g r s xs = Some s' \<and> page_map r s' = fold page_op_spec xs (page_map r s) \<and>
    full_pages (page_map r s') \<and> xlog_map r s' = xlog_map r s \<and> list_map r s' = list_map r s"
  using assms(2,3)
proof (induction xs arbitrary: s)
  case (Cons x xs)
  from Cons.prems(2) have x: "page_op_ok x" by simp
  obtain s1 where s1: "run_page_op g r s x = Some s1" "page_map r s1 = page_op_spec x (page_map r s)"
    "full_pages (page_map r s1)" "xlog_map r s1 = xlog_map r s" "list_map r s1 = list_map r s"
    by (rule page_op_step [OF assms(1) Cons.prems(1) x])
  from Cons.IH [OF s1(3)] Cons.prems(2) s1 show ?case by auto
qed simp

text \<open>C12: on a working database, whatever page versions are put, read and deleted, no call faults, and
  afterwards \<open>GetPageFromRocksdb\<close> returns for every page and LSN what a map from pages and LSNs to
  contents would hold. WAL records and LSN lists stored beside the pages are not touched.\<close>

theorem page_ops_refine:
  assumes "rocksdb_ok r" and "full_pages (page_map r s)" and "list_all page_op_ok xs"
  shows "\<exists>s' s''. run_page_ops g r s xs = Some s' \<and>
    GetPageFromRocksdb r s' t l = Some (fold page_op_spec xs (page_map r s) (t, l), s'') \<and>
    xlog_map r s' = xlog_map r s \<and> list_map r s' = list_map r s"
proof -
  obtain s' where s': "run_page_ops g r s xs = Some s'" "page_map r s' = fold page_op_spec xs (page_map r s)"
    "full_pages (page_map r s')" "xlog_map r s' = xlog_map r s" "list_map r s' = list_map r s"
    using page_ops_run [OF assms] by blast
  obtain s'' where "GetPageFromRocksdb r s' t l = Some (page_map r s' (t, l), s'')"
    by (rule GetPageFromRocksdb_ok [OF assms(1) full_pages_nonempty [OF s'(3)]])
  with s' show ?thesis by auto
qed

theorem page_ops_refine_witness:
  "\<exists>s' s''. run_page_ops None mem_db mem_kv
      [Put demo_tag 5 (replicate BLCKSZ 1), Put demo_tag 9 (replicate BLCKSZ 2), Delete demo_tag 5] = Some s' \<and>
    GetPageFromRocksdb mem_db s' demo_tag 9 = Some (Some (replicate BLCKSZ 2), s'') \<and>
    xlog_map mem_db s' = Map.empty \<and> list_map mem_db s' = Map.empty"
proof -
  have "full_pages (page_map mem_db mem_kv)" by (simp add: mem_kv_views full_pages_def)
  from page_ops_refine [OF mem_db_ok this, of
      "[Put demo_tag 5 (replicate BLCKSZ 1), Put demo_tag 9 (replicate BLCKSZ 2), Delete demo_tag 5]" None demo_tag 9]
  show ?thesis by (simp add: mem_kv_views)
qed

text \<open>C13: the keys of page versions, WAL records and LSN lists are never cut off by the key buffer of
  \<open>MAX_PATH_LEN\<close> bytes, and two keys are equal only when they are of the same kind and for the same
  page and LSN, whatever the numbers are.\<close>

theorem keys_distinct:
  "(ROCKSDB_PAGE_VERSION_KEY t l = ROCKSDB_PAGE_VERSION_KEY t' l' \<longleftrightarrow> t = t' \<and> l = l') \<and>
   (ROCKSDB_XLOG_KEY l = ROCKSDB_XLOG_KEY l' \<longleftrightarrow> l = l') \<and>
   (ROCKSDB_LSN_LIST_KEY t = ROCKSDB_LSN_LIST_KEY t' \<longleftrightarrow> t = t') \<and>
   ROCKSDB_PAGE_VERSION_KEY t l \<noteq> ROCKSDB_XLOG_KEY l' \<and> ROCKSDB_PAGE_VERSION_KEY t l \<noteq> ROCKSDB_LSN_LIST_KEY t' \<and>
   ROCKSDB_XLOG_KEY l \<noteq> ROCKSDB_LSN_LIST_KEY t \<and>
   length (ROCKSDB_PAGE_VERSION_KEY t l) < MAX_PATH_LEN \<and>
   ROCKSDB_PAGE_VERSION_KEY t l = ''rocks_page_'' @ tag_str t @ ''_'' @ dec_str (unat l)"
proof -
  have "length (ROCKSDB_PAGE_VERSION_KEY t l) < MAX_PATH_LEN"
    using tag_str_length [of t] u64_str_length [of l] by (simp add: keys_not_cut(2))
  then show ?thesis by (intro conjI keys_inject keys_not_cut(2))
qed



text \<open>The LSN list of a page, after any sequence of insertions.\<close>

primrec run_lsn_inserts :: "'d rocksdb \<Rightarrow> 'd kv \<Rightarrow> BufferTag \<Rightarrow> u64 list \<Rightarrow> 'd kv option" where
  "run_lsn_inserts r s t [] = Some s"
| "run_lsn_inserts r s t (l # ls) = do { s \<leftarrow> InsertLsn2RocksdbList r s t l; run_lsn_inserts r s t ls }"

definition list_inserts :: "u64 list option \<Rightarrow> u64 list \<Rightarrow> u64 list option" where
  "list_inserts ys xs = fold (\<lambda>l ls. Some (list_insert ls l)) xs ys"

lemma list_inserts_simps [simp]:
  "list_inserts ys [] = ys" "list_inserts ys (x # xs) = list_inserts (Some (list_insert ys x)) xs"
  by (simp_all add: list_inserts_def)

lemma list_insert_ne [simp]: "ys \<noteq> Some [] \<Longrightarrow> list_insert ys x \<noteq> []"
  by (auto simp: list_insert_def split: option.splits)

lemma run_lsn_inserts_ok:
  assumes "rocksdb_ok r" "ls \<noteq> Some []"
    and "kv_map r s (ROCKSDB_LSN_LIST_KEY t) = map_option (\<lambda>ys. enc_u64s (lsn_list ys)) ls"
  shows "\<exists>s'. run_lsn_inserts r s t xs = Some s' \<and> page_map r s' = page_map r s \<and>
    kv_map r s' (ROCKSDB_LSN_LIST_KEY t) = map_option (\<lambda>ys. enc_u64s (lsn_list ys)) (list_inserts ls xs)"
  using assms(2,3)
proof (induction xs arbitrary: s ls)
  case (Cons x xs)
  obtain s1 where s1: "InsertLsn2RocksdbList r s t x = Some s1"
    "kv_map r s1 = (kv_map r s)(ROCKSDB_LSN_LIST_KEY t \<mapsto> enc_u64s (lsn_list (list_insert ls x)))"
    by (rule InsertLsn2RocksdbList_ok [OF assms(1) Cons.prems])
  with Cons.IH [of "Some (list_insert ls x)" s1] Cons.prems list_key_upd(1) [OF s1(2)] show ?case by auto
qed simp

lemma sorted_snoc: "sorted_wrt (<) (ys @ [x :: u64]) \<longleftrightarrow> sorted_wrt (<) ys \<and> (ys = [] \<or> last ys < x)"
  by (induction ys rule: rev_induct) (auto simp: sorted_wrt_append)

lemma list_insert_sorted:
  "sorted_wrt (<) ys \<Longrightarrow> ys \<noteq> [] \<Longrightarrow>
    sorted_wrt (<) (list_insert (Some ys) x) \<and> last (list_insert (Some ys) x) = max (last ys) x \<and>
    set (list_insert (Some ys) x) \<subseteq> insert x (set ys) \<and> length (list_insert (Some ys) x) \<le> Suc (length ys)"
  by (auto simp: list_insert_def sorted_snoc max_def)

lemma list_inserts_ok:
  assumes "sorted_wrt (<) ys" "ys \<noteq> []"
  shows "\<exists>zs. list_inserts (Some ys) xs = Some zs \<and> zs \<noteq> [] \<and> sorted_wrt (<) zs \<and>
    set zs \<subseteq> set ys \<union> set xs \<and> last zs = fold max xs (last ys) \<and> length zs \<le> length ys + length xs \<and>
    (sorted_wrt (<) (last ys # xs) \<longrightarrow> zs = ys @ xs)"
  using assms
proof (induction xs arbitrary: ys)
  case (Cons x xs)
  let ?ys = "list_insert (Some ys) x"
  have ins: "sorted_wrt (<) ?ys" "last ?ys = max x (last ys)" "set ?ys \<subseteq> insert x (set ys)" "length ?ys \<le> Suc (length ys)"
    using list_insert_sorted [OF Cons.prems, of x] by (simp_all add: max.commute)
  have "?ys \<noteq> []" using Cons.prems(2) by simp
  from Cons.IH [OF ins(1) this] obtain zs where zs: "list_inserts (Some ?ys) xs = Some zs" "zs \<noteq> []" "sorted_wrt (<) zs"
    "set zs \<subseteq> set ?ys \<union> set xs" "last zs = fold max xs (last ?ys)" "length zs \<le> length ?ys + length xs"
    "sorted_wrt (<) (last ?ys # xs) \<longrightarrow> zs = ?ys @ xs" by blast
  have "zs = ys @ x # xs" if "sorted_wrt (<) (last ys # x # xs)"
  proof -
    from that have "?ys = ys @ [x]" by (auto simp: list_insert_def)
    with that zs(7) show ?thesis by simp
  qed
  with zs(1-6) ins show ?case by (intro exI [of _ zs]) auto
qed simp



end
