(* ===== verification/RedoWire.thy ===== *)
theory RedoWire
  imports KvStore
begin

unbundle bit_operations_syntax

text \<open>
  The messages between the storage server and its WAL-redo processes: byte order
  (\<open>include/port/pg_bswap.h\<close>), reading a message (\<open>backend/libpq/pqformat.c\<close>), and the requests that
  \<open>backend/tcop/storage_server.c\<close> builds.
\<close>

section \<open>Byte order\<close>

definition pg_bswap16 :: "u16 \<Rightarrow> u16" where
  "pg_bswap16 x = (push_bit 8 x AND 0xff00) OR (drop_bit 8 x AND 0x00ff)"

definition pg_bswap32 :: "u32 \<Rightarrow> u32" where
  "pg_bswap32 x =
     (push_bit 24 x AND 0xff000000) OR (push_bit 8 x AND 0x00ff0000) OR
     (drop_bit 8 x AND 0x0000ff00) OR (drop_bit 24 x AND 0x000000ff)"

definition pg_bswap64 :: "u64 \<Rightarrow> u64" where
  "pg_bswap64 x =
     (push_bit 56 x AND 0xff00000000000000) OR (push_bit 40 x AND 0x00ff000000000000) OR
     (push_bit 24 x AND 0x0000ff0000000000) OR (push_bit 8 x AND 0x000000ff00000000) OR
     (drop_bit 8 x AND 0x00000000ff000000) OR (drop_bit 24 x AND 0x0000000000ff0000) OR
     (drop_bit 40 x AND 0x000000000000ff00) OR (drop_bit 56 x AND 0x00000000000000ff)"

text \<open>The host is little-endian, so that the conversions to and from network order are the swaps.\<close>

abbreviation pg_hton32 :: "u32 \<Rightarrow> u32" where "pg_hton32 \<equiv> pg_bswap32"
abbreviation pg_ntoh32 :: "u32 \<Rightarrow> u32" where "pg_ntoh32 \<equiv> pg_bswap32"
abbreviation pg_hton64 :: "u64 \<Rightarrow> u64" where "pg_hton64 \<equiv> pg_bswap64"
abbreviation pg_ntoh64 :: "u64 \<Rightarrow> u64" where "pg_ntoh64 \<equiv> pg_bswap64"
abbreviation pg_ntoh16 :: "u16 \<Rightarrow> u16" where "pg_ntoh16 \<equiv> pg_bswap16"

text \<open>\<open>memcpy\<close> of an integer object into a byte buffer.\<close>

abbreviation mem32 :: "u32 \<Rightarrow> bytes" where "mem32 x \<equiv> enc_le 4 (unat x)"
abbreviation mem64 :: "u64 \<Rightarrow> bytes" where "mem64 x \<equiv> enc_le 8 (unat x)"

definition ch :: "char \<Rightarrow> u8" where
  "ch c = word_of_nat (of_char c)"

section \<open>Reading a message\<close>

text \<open>\<open>len\<close> is the length of \<open>data\<close>. Every function below ends the process when the data run out.\<close>

record StringInfoData =
  data :: bytes
  cursor :: nat

definition pq_copymsgbytes :: "StringInfoData \<Rightarrow> nat \<Rightarrow> (bytes \<times> StringInfoData) option" where
  "pq_copymsgbytes msg datalen =
     (if length (data msg) - cursor msg < datalen then None
      else Some (take datalen (drop (cursor msg) (data msg)), msg\<lparr>cursor := cursor msg + datalen\<rparr>))"

definition pq_getmsgbytes :: "StringInfoData \<Rightarrow> nat \<Rightarrow> (bytes \<times> StringInfoData) option" where
  "pq_getmsgbytes msg datalen =
     (if length (data msg) - cursor msg < datalen then None
      else Some (take datalen (drop (cursor msg) (data msg)), msg\<lparr>cursor := cursor msg + datalen\<rparr>))"

definition pq_getmsgbyte :: "StringInfoData \<Rightarrow> (u8 \<times> StringInfoData) option" where
  "pq_getmsgbyte msg =
     (if length (data msg) \<le> cursor msg then None
      else Some (data msg ! cursor msg, msg\<lparr>cursor := cursor msg + 1\<rparr>))"

definition pq_getmsgint :: "StringInfoData \<Rightarrow> int \<Rightarrow> (u32 \<times> StringInfoData) option" where
  "pq_getmsgint msg b =
     (if b = 1 then do { (n8, msg) \<leftarrow> pq_copymsgbytes msg 1; Some (word_of_nat (dec_le n8), msg) }
      else if b = 2 then do { (n16, msg) \<leftarrow> pq_copymsgbytes msg 2;
                              Some (ucast (pg_ntoh16 (word_of_nat (dec_le n16))), msg) }
      else if b = 4 then do { (n32, msg) \<leftarrow> pq_copymsgbytes msg 4;
                              Some (pg_ntoh32 (word_of_nat (dec_le n32)), msg) }
      else None)"

definition pq_getmsgint64 :: "StringInfoData \<Rightarrow> (u64 \<times> StringInfoData) option" where
  "pq_getmsgint64 msg =
     do { (n64, msg) \<leftarrow> pq_copymsgbytes msg 8; Some (pg_ntoh64 (word_of_nat (dec_le n64)), msg) }"

section \<open>Requests\<close>

text \<open>
  Each function of \<open>storage_server.c\<close> fills a buffer: the type, the length of the rest in network
  order, and the fields. The fork number is cut to its lowest byte.
\<close>

definition rel_fields :: "u32 \<Rightarrow> RelFileNode \<Rightarrow> bytes" where
  "rel_fields forkNumber relFileNode =
     take 1 (mem32 forkNumber) @ mem32 (pg_hton32 (spcNode relFileNode)) @
     mem32 (pg_hton32 (dbNode relFileNode)) @ mem32 (pg_hton32 (relNode relFileNode))"

definition page_fields :: "u32 \<Rightarrow> RelFileNode \<Rightarrow> u32 \<Rightarrow> bytes" where
  "page_fields forkNumber relFileNode blockNumber =
     rel_fields forkNumber relFileNode @ mem32 (pg_hton32 blockNumber)"

text \<open>\<open>lsnList\<close> has \<open>listSize\<close> elements; the length of the message is computed in 32 bits.\<close>

definition list_fields :: "u64 list \<Rightarrow> bytes" where
  "list_fields lsnList =
     mem32 (pg_hton32 (word_of_nat (length lsnList))) @ concat (map (\<lambda>l. mem64 (pg_hton64 l)) lsnList)"

definition SyncGetRelSize_request :: "RelFileNode \<Rightarrow> u32 \<Rightarrow> bytes" where
  "SyncGetRelSize_request relFileNode forkNumber =
     [ch (CHR ''M'')] @ mem32 (pg_hton32 (4 + 1 + 4 + 4 + 4)) @ rel_fields forkNumber relFileNode"

definition WalRedoCreateRel_request :: "RelFileNode \<Rightarrow> u32 \<Rightarrow> bytes" where
  "WalRedoCreateRel_request relFileNode forkNumber =
     [ch (CHR ''C'')] @ mem32 (pg_hton32 (4 + 1 + 4 + 4 + 4)) @ rel_fields forkNumber relFileNode"

definition ApplyOneLsnWithoutBasePage_request :: "RelFileNode \<Rightarrow> u32 \<Rightarrow> u32 \<Rightarrow> u64 \<Rightarrow> bytes" where
  "ApplyOneLsnWithoutBasePage_request relFileNode forkNumber blockNumber lsn =
     [ch (CHR ''E'')] @ mem32 (pg_hton32 (4 + 1 + 4 + 4 + 4 + 4 + 8)) @
     page_fields forkNumber relFileNode blockNumber @ mem64 (pg_hton64 lsn)"

definition ApplyOneLsn_request :: "RelFileNode \<Rightarrow> u32 \<Rightarrow> u32 \<Rightarrow> u64 \<Rightarrow> bytes \<Rightarrow> bytes" where
  "ApplyOneLsn_request relFileNode forkNumber blockNumber lsn origPage =
     [ch (CHR ''D'')] @ mem32 (pg_hton32 (4 + 1 + 4 + 4 + 4 + 4 + 8 + word_of_nat BLCKSZ)) @
     page_fields forkNumber relFileNode blockNumber @ mem64 (pg_hton64 lsn) @ take BLCKSZ origPage"

definition ApplyLsnListAndGetUpdatedPage_msgLen :: "u64 list \<Rightarrow> u32" where
  "ApplyLsnListAndGetUpdatedPage_msgLen lsnList =
     4 + 1 + 4 + 4 + 4 + 4 + 4 + 8 * word_of_nat (length lsnList)"

definition ApplyLsnListAndGetUpdatedPage_request :: "RelFileNode \<Rightarrow> u32 \<Rightarrow> u32 \<Rightarrow> u64 list \<Rightarrow> bytes" where
  "ApplyLsnListAndGetUpdatedPage_request relFileNode forkNumber blockNumber lsnList =
     [ch (CHR ''o'')] @ mem32 (pg_hton32 (ApplyLsnListAndGetUpdatedPage_msgLen lsnList)) @
     page_fields forkNumber relFileNode blockNumber @ list_fields lsnList"

definition ApplyLsnList_msgLen :: "u64 list \<Rightarrow> u32" where
  "ApplyLsnList_msgLen lsnList =
     4 + 1 + 4 + 4 + 4 + 4 + 4 + 8 * word_of_nat (length lsnList) + word_of_nat BLCKSZ"

definition ApplyLsnList_request :: "RelFileNode \<Rightarrow> u32 \<Rightarrow> u32 \<Rightarrow> u64 list \<Rightarrow> bytes \<Rightarrow> bytes" where
  "ApplyLsnList_request relFileNode forkNumber blockNumber lsnList origPage =
     [ch (CHR ''O'')] @ mem32 (pg_hton32 (ApplyLsnList_msgLen lsnList)) @
     page_fields forkNumber relFileNode blockNumber @ list_fields lsnList @ take BLCKSZ origPage"

definition WalRedoExtendRel_request :: "RelFileNode \<Rightarrow> u32 \<Rightarrow> u32 \<Rightarrow> bytes \<Rightarrow> bytes" where
  "WalRedoExtendRel_request relFileNode forkNumber blockNumber content =
     [ch (CHR ''F'')] @ mem32 (pg_hton32 (4 + 1 + 4 + 4 + 4 + 4 + word_of_nat BLCKSZ)) @
     page_fields forkNumber relFileNode blockNumber @ take BLCKSZ content"

definition GetBasePage_request :: "RelFileNode \<Rightarrow> u32 \<Rightarrow> u32 \<Rightarrow> bytes" where
  "GetBasePage_request relFileNode forkNumber blockNumber =
     [ch (CHR ''G'')] @ mem32 (pg_hton32 (4 + 1 + 4 + 4 + 4 + 4)) @
     page_fields forkNumber relFileNode blockNumber"

text \<open>The request \<open>ApplyRecordUntil\<close> and the synchronisation request.\<close>

definition lsn_request :: "char \<Rightarrow> u64 \<Rightarrow> bytes" where
  "lsn_request c lsn = [ch c] @ mem32 (pg_hton32 (4 + 8)) @ mem64 lsn"

text \<open>
  \<open>SyncReplayProcess\<close> converts the LSN once for the first request and once more for the second.
\<close>

definition SyncReplayProcess_requests :: "u64 \<Rightarrow> bytes \<times> bytes" where
  "SyncReplayProcess_requests flushedUpto =
     (let lsn = pg_hton64 flushedUpto; first = lsn_request (CHR ''U'') lsn;
          lsn = pg_hton64 lsn
      in (first, lsn_request (CHR ''S'') lsn))"

end
