(* ===== verification/RedoProc.thy ===== *)
theory RedoProc
  imports RedoWire
begin

text \<open>
  A WAL-redo process (\<open>backend/tcop/wal_redo.c\<close>): reading commands from its pipe, the handler of
  each command, and writing the reply. PostgreSQL's WAL reader, buffer manager, storage manager
  and redo routines act on the state \<open>'w\<close> of the process and are parameters, collected in the
  record \<open>redo_env\<close>.
\<close>

section \<open>Pipes\<close>

text \<open>
  What the next \<open>read\<close> on a pipe meets: up to \<open>k\<close> bytes have arrived, nothing has arrived
  (\<open>EAGAIN\<close>), the other side has closed the pipe, or the call fails.
\<close>

datatype io = Avail nat | WouldBlock | Closed | Failed

datatype read_result = Got bytes bytes | EAGAIN | EFAIL

text \<open>\<open>read\<close> of at most \<open>n\<close> bytes from a pipe that holds \<open>pipe\<close>: the bytes and what is left.\<close>

fun sys_read :: "io \<Rightarrow> nat \<Rightarrow> bytes \<Rightarrow> read_result" where
  "sys_read (Avail k) n pipe =
     (let m = min k (min n (length pipe)) in if m = 0 then EAGAIN else Got (take m pipe) (drop m pipe))"
| "sys_read WouldBlock n pipe = EAGAIN"
| "sys_read Closed n pipe = Got [] pipe"
| "sys_read Failed n pipe = EFAIL"

text \<open>The results of \<open>write\<close> in a redo process.\<close>

datatype wres = Wrote nat | Interrupted | WriteFailed

section \<open>Reading commands\<close>

abbreviation STDIN_BUF_SIZE :: nat where "STDIN_BUF_SIZE \<equiv> 16 * 1024"

text \<open>
  \<open>buffered_read\<close>: \<open>dst\<close> is what was copied so far, \<open>buf\<close> the unread part of \<open>stdin_buf\<close>, \<open>ios\<close> what
  the coming calls of \<open>read\<close> meet. The result is \<^term>\<open>None\<close> while the process waits for more calls;
  otherwise the bytes (\<open>None\<close> for the return value -1), the new buffer and pipe and the calls left.
\<close>

function (sequential) buffered_read ::
    "nat \<Rightarrow> bytes \<Rightarrow> bytes \<Rightarrow> io list \<Rightarrow> bytes \<Rightarrow> (bytes option \<times> bytes \<times> bytes \<times> io list) option" where
  "buffered_read count dst buf ios pipe =
     (if count = 0 then Some (Some dst, buf, pipe, ios)
      else if buf = [] then
        (case ios of
           [] \<Rightarrow> None
         | io # ios' \<Rightarrow>
             (case sys_read io STDIN_BUF_SIZE pipe of
                EAGAIN \<Rightarrow> buffered_read count dst buf ios' pipe
              | EFAIL \<Rightarrow> Some (None, buf, pipe, ios')
              | Got chunk pipe' \<Rightarrow>
                  if chunk = [] then Some (Some dst, buf, pipe', ios')
                  else let nthis = min (length chunk) count
                       in buffered_read (count - nthis) (dst @ take nthis chunk) (drop nthis chunk) ios' pipe'))
      else let nthis = min (length buf) count
           in buffered_read (count - nthis) (dst @ take nthis buf) (drop nthis buf) ios pipe)"
  by pat_completeness auto
termination
  by (relation "measure (\<lambda>(count, dst, buf, ios, pipe). count + length ios)") (auto simp: Let_def min_def)

declare buffered_read.simps [simp del]

text \<open>The command type is \<^term>\<open>None\<close> for \<open>EOF\<close>. Every \<open>ereport(ERROR)\<close> ends the process.\<close>

definition ReadRedoCommand ::
    "bytes \<Rightarrow> io list \<Rightarrow> bytes \<Rightarrow> ((u8 \<times> StringInfoData) option \<times> bytes \<times> bytes \<times> io list) option" where
  "ReadRedoCommand buf ios pipe =
     do { (hdr, buf, pipe, ios) \<leftarrow> buffered_read 5 [] buf ios pipe;
          hdr \<leftarrow> hdr;
          (if length hdr = 0 then Some (None, buf, pipe, ios)
           else if length hdr \<noteq> 5 then None
           else do {
             let qtype = hd hdr;
             let len = sint (pg_ntoh32 (word_of_nat (dec_le (drop 1 hdr))));
             (if len < 4 then None
              else do {
                let len = nat (len - 4);
                (payload, buf, pipe, ios) \<leftarrow> buffered_read len [] buf ios pipe;
                payload \<leftarrow> payload;
                (if length payload \<noteq> len then None
                 else Some (Some (qtype, \<lparr>data = payload, cursor = 0\<rparr>), buf, pipe, ios)) }) }) }"

section \<open>The environment of the redo routines\<close>

datatype XLogRedoAction = BLK_NEEDS_REDO | BLK_DONE | BLK_RESTORED | BLK_NOTFOUND

record ('w, 'r) redo_env =
  XLogBeginRead :: "u64 \<Rightarrow> 'w \<Rightarrow> 'w"
  XLogReadRecord :: "'w \<Rightarrow> ('r option \<times> 'w)" \<comment> \<open>\<open>None\<close>: \<open>NULL\<close>\<close>
  DecodeXLogRecord :: "u64 \<Rightarrow> bytes \<Rightarrow> 'w \<Rightarrow> ('r option \<times> 'w)"
  EndRecPtr :: "'w \<Rightarrow> u64"
  checkPoint :: "'w \<Rightarrow> u64 option" \<comment> \<open>the control file; \<open>None\<close>: its checksum is wrong\<close>
  polar_xlog_decode_data :: "'w \<Rightarrow> 'w"
  xl_rmid :: "'r \<Rightarrow> nat"
  polar_idx_redo :: "nat \<Rightarrow> 'r \<Rightarrow> BufferTag \<Rightarrow> 'w \<Rightarrow> XLogRedoAction \<times> 'w"
  rm_redo :: "'r \<Rightarrow> 'w \<Rightarrow> 'w"
  read_page :: "BufferTag \<Rightarrow> 'w \<Rightarrow> bytes \<times> 'w" \<comment> \<open>\<open>ReadBufferWithoutRelcache(.., RBM_NORMAL)\<close>\<close>
  fill_page :: "BufferTag \<Rightarrow> bytes \<Rightarrow> 'w \<Rightarrow> 'w" \<comment> \<open>\<open>RBM_ZERO_AND_LOCK\<close>, then the copy\<close>
  smgrexists :: "RelFileNode \<Rightarrow> u32 \<Rightarrow> 'w \<Rightarrow> bool"
  smgrnblocks :: "RelFileNode \<Rightarrow> u32 \<Rightarrow> 'w \<Rightarrow> u32"
  smgrcreate :: "RelFileNode \<Rightarrow> u32 \<Rightarrow> 'w \<Rightarrow> 'w"
  smgrextend :: "RelFileNode \<Rightarrow> u32 \<Rightarrow> u32 \<Rightarrow> bytes \<Rightarrow> 'w \<Rightarrow> 'w"

text \<open>
  The resource managers with a redo routine for single pages: XLOG, Heap2, Heap, Btree, Hash, Gin,
  Gist, Sequence, SPGist, BRIN and Generic.
\<close>

definition idx_rmids :: "nat list" where
  "idx_rmids = [0, 9, 10, 11, 12, 13, 14, 15, 16, 17, 20]"

text \<open>Applying a record to a page: the \<open>switch\<close> and the fallback of the \<open>Apply\<dots>\<close> handlers.\<close>

definition redo_record :: "('w, 'r) redo_env \<Rightarrow> BufferTag \<Rightarrow> 'r \<Rightarrow> 'w \<Rightarrow> 'w" where
  "redo_record env bufferTag record w =
     (let (action, w) = (if xl_rmid env record \<in> set idx_rmids
                         then polar_idx_redo env (xl_rmid env record) record bufferTag w
                         else (BLK_NOTFOUND, w))
      in if action = BLK_NOTFOUND then rm_redo env record w else w)"

text \<open>One iteration of the loop over the LSNs; a \<open>NULL\<close> record is dereferenced.\<close>

definition redo_lsn :: "('w, 'r) redo_env \<Rightarrow> BufferTag \<Rightarrow> u64 \<Rightarrow> 'w \<Rightarrow> 'w option" where
  "redo_lsn env bufferTag lsn w =
     (let (record, w) = XLogReadRecord env (XLogBeginRead env lsn w)
      in map_option (\<lambda>record. redo_record env bufferTag record w) record)"

primrec redo_lsns :: "('w, 'r) redo_env \<Rightarrow> BufferTag \<Rightarrow> u64 list \<Rightarrow> 'w \<Rightarrow> 'w option" where
  "redo_lsns env bufferTag [] w = Some w"
| "redo_lsns env bufferTag (lsn # lsns) w = do { w \<leftarrow> redo_lsn env bufferTag lsn w; redo_lsns env bufferTag lsns w }"

section \<open>Handlers\<close>

text \<open>The state of a process between two commands.\<close>

record 'w worker =
  stdin_buf :: bytes \<comment> \<open>the unread part\<close>
  target_redo_tag :: BufferTag
  wal_redo_buffer :: bool \<comment> \<open>whether it is a valid buffer\<close>
  world :: 'w

text \<open>A handler returns the bytes of its reply.\<close>

definition getmsg_rel :: "StringInfoData \<Rightarrow> (u32 \<times> RelFileNode \<times> StringInfoData) option" where
  "getmsg_rel msg =
     do { (forknum, msg) \<leftarrow> pq_getmsgbyte msg;
          (spc, msg) \<leftarrow> pq_getmsgint msg 4;
          (db, msg) \<leftarrow> pq_getmsgint msg 4;
          (rel, msg) \<leftarrow> pq_getmsgint msg 4;
          Some (ucast forknum, \<lparr>spcNode = spc, dbNode = db, relNode = rel\<rparr>, msg) }"

definition getmsg_tag :: "StringInfoData \<Rightarrow> (BufferTag \<times> StringInfoData) option" where
  "getmsg_tag msg =
     do { (forknum, rnode, msg) \<leftarrow> getmsg_rel msg;
          (blknum, msg) \<leftarrow> pq_getmsgint msg 4;
          Some (\<lparr>rnode = rnode, forkNum = forknum, blockNum = blknum\<rparr>, msg) }"

fun getmsg_lsns :: "nat \<Rightarrow> StringInfoData \<Rightarrow> (u64 list \<times> StringInfoData) option" where
  "getmsg_lsns 0 msg = Some ([], msg)"
| "getmsg_lsns (Suc n) msg =
     do { (lsn, msg) \<leftarrow> pq_copymsgbytes msg 8;
          (lsns, msg) \<leftarrow> getmsg_lsns n msg;
          Some (pg_ntoh64 (word_of_nat (dec_le lsn)) # lsns, msg) }"

definition reply_page :: "('w, 'r) redo_env \<Rightarrow> BufferTag \<Rightarrow> 'w \<Rightarrow> bytes \<times> 'w" where
  "reply_page env tag w = (let (page, w) = read_page env tag w in (take BLCKSZ page, w))"

definition SyncLsnReplay :: "StringInfoData \<Rightarrow> 'w \<Rightarrow> (bytes \<times> 'w) option" where
  "SyncLsnReplay msg w = do { (lsn, msg) \<leftarrow> pq_getmsgint64 msg; Some ([ch (CHR ''o''), ch (CHR ''k'')], w) }"

partial_function (option) ApplyXlogUntil_loop :: "('w, 'r) redo_env \<Rightarrow> u64 \<Rightarrow> 'w \<Rightarrow> 'w option" where
  "ApplyXlogUntil_loop env lsn w =
     (if EndRecPtr env w < lsn then
        (if fst (XLogReadRecord env w) = None then Some (snd (XLogReadRecord env w))
         else ApplyXlogUntil_loop env lsn
                (rm_redo env (the (fst (XLogReadRecord env w))) (polar_xlog_decode_data env (snd (XLogReadRecord env w)))))
      else Some w)"

definition ApplyXlogUntil :: "('w, 'r) redo_env \<Rightarrow> StringInfoData \<Rightarrow> 'w \<Rightarrow> (bytes \<times> 'w) option" where
  "ApplyXlogUntil env msg w =
     do { w \<leftarrow> (if EndRecPtr env w = 0 then do { p \<leftarrow> checkPoint env w; Some (XLogBeginRead env p w) } else Some w);
          (lsn, msg) \<leftarrow> pq_getmsgint64 msg;
          w \<leftarrow> ApplyXlogUntil_loop env lsn w;
          Some ([], w) }"

definition ExtendRel :: "('w, 'r) redo_env \<Rightarrow> StringInfoData \<Rightarrow> 'w \<Rightarrow> (bytes \<times> 'w) option" where
  "ExtendRel env msg w =
     do { (tag, msg) \<leftarrow> getmsg_tag msg;
          (content, msg) \<leftarrow> pq_getmsgbytes msg BLCKSZ;
          Some (mem32 1, smgrextend env (rnode tag) (forkNum tag) (blockNum tag) content w) }"

definition CreateRel :: "('w, 'r) redo_env \<Rightarrow> StringInfoData \<Rightarrow> 'w \<Rightarrow> (bytes \<times> 'w) option" where
  "CreateRel env msg w =
     do { (forknum, rnode, msg) \<leftarrow> getmsg_rel msg;
          Some (mem32 1, smgrcreate env rnode forknum w) }"

definition ApplyOneXlogWithoutBasePage :: "('w, 'r) redo_env \<Rightarrow> StringInfoData \<Rightarrow> 'w \<Rightarrow> (bytes \<times> 'w) option" where
  "ApplyOneXlogWithoutBasePage env msg w =
     do { (tag, msg) \<leftarrow> getmsg_tag msg;
          (lsn, msg) \<leftarrow> pq_copymsgbytes msg 8;
          w \<leftarrow> redo_lsn env tag (pg_ntoh64 (word_of_nat (dec_le lsn))) w;
          Some (reply_page env tag w) }"

definition ApplyOneXlog :: "('w, 'r) redo_env \<Rightarrow> StringInfoData \<Rightarrow> 'w \<Rightarrow> (bytes \<times> 'w) option" where
  "ApplyOneXlog env msg w =
     do { (tag, msg) \<leftarrow> getmsg_tag msg;
          (lsn, msg) \<leftarrow> pq_copymsgbytes msg 8;
          (content, msg) \<leftarrow> pq_getmsgbytes msg BLCKSZ;
          w \<leftarrow> redo_lsn env tag (pg_ntoh64 (word_of_nat (dec_le lsn))) (fill_page env tag content w);
          Some (reply_page env tag w) }"

definition ApplyLsnListXlogWithoutBasePage ::
    "('w, 'r) redo_env \<Rightarrow> StringInfoData \<Rightarrow> 'w \<Rightarrow> (bytes \<times> 'w) option" where
  "ApplyLsnListXlogWithoutBasePage env msg w =
     do { (tag, msg) \<leftarrow> getmsg_tag msg;
          (listSize, msg) \<leftarrow> pq_getmsgint msg 4;
          (lsnList, msg) \<leftarrow> getmsg_lsns (unat listSize) msg;
          w \<leftarrow> redo_lsns env tag lsnList w;
          Some (reply_page env tag w) }"

definition ApplyLsnListXlog :: "('w, 'r) redo_env \<Rightarrow> StringInfoData \<Rightarrow> 'w \<Rightarrow> (bytes \<times> 'w) option" where
  "ApplyLsnListXlog env msg w =
     do { (tag, msg) \<leftarrow> getmsg_tag msg;
          (listSize, msg) \<leftarrow> pq_getmsgint msg 4;
          (lsnList, msg) \<leftarrow> getmsg_lsns (unat listSize) msg;
          (content, msg) \<leftarrow> pq_getmsgbytes msg BLCKSZ;
          w \<leftarrow> redo_lsns env tag lsnList (fill_page env tag content w);
          Some (reply_page env tag w) }"

definition PushPage :: "('w, 'r) redo_env \<Rightarrow> StringInfoData \<Rightarrow> 'w \<Rightarrow> (bytes \<times> 'w) option" where
  "PushPage env msg w =
     do { (tag, msg) \<leftarrow> getmsg_tag msg;
          (content, msg) \<leftarrow> pq_getmsgbytes msg BLCKSZ;
          Some ([], fill_page env tag content w) }"

text \<open>
  \<open>ApplyRecord\<close>: the record follows the LSN; its first four bytes are \<open>xl_tot_len\<close>, and its header
  has \<open>sizeof(XLogRecord)\<close> = 24 bytes.
\<close>

definition ApplyRecord :: "('w, 'r) redo_env \<Rightarrow> StringInfoData \<Rightarrow> 'w worker \<Rightarrow> (bytes \<times> 'w worker) option" where
  "ApplyRecord env msg p =
     do { (lsn, msg) \<leftarrow> pq_getmsgint64 msg;
          (hdr, msg') \<leftarrow> pq_getmsgbytes msg 24;
          let nleft = length (data msg') - cursor msg';
          (if dec_le (take 4 hdr) \<noteq> 24 + nleft then None
           else do {
             let (record, w) = DecodeXLogRecord env lsn (drop (cursor msg) (data msg)) (XLogBeginRead env lsn (world p));
             record \<leftarrow> record;
             let w = rm_redo env record w;
             Some ([], if wal_redo_buffer p then p\<lparr>world := w\<rparr>
                       else p\<lparr>world := snd (read_page env (target_redo_tag p) w), wal_redo_buffer := True\<rparr>) }) }"

definition GetRelSize :: "('w, 'r) redo_env \<Rightarrow> StringInfoData \<Rightarrow> 'w \<Rightarrow> (bytes \<times> 'w) option" where
  "GetRelSize env msg w =
     do { (forknum, rnode, msg) \<leftarrow> getmsg_rel msg;
          let pageNum = (if smgrexists env rnode forknum w then smgrnblocks env rnode forknum w else - 1);
          Some (mem32 pageNum, w) }"

definition GetPage :: "('w, 'r) redo_env \<Rightarrow> StringInfoData \<Rightarrow> 'w \<Rightarrow> (bytes \<times> 'w) option" where
  "GetPage env msg w = do { (tag, msg) \<leftarrow> getmsg_tag msg; Some (reply_page env tag w) }"

definition BeginRedoForBlock :: "StringInfoData \<Rightarrow> 'w worker \<Rightarrow> (bytes \<times> 'w worker) option" where
  "BeginRedoForBlock msg p = do { (tag, msg) \<leftarrow> getmsg_tag msg; 
          Some ([], p\<lparr>target_redo_tag := tag, wal_redo_buffer := False\<rparr>) }"

text \<open>The filter compares the block of a record with the target of the last \<open>BeginRedoForBlock\<close>.\<close>

definition redo_block_filter :: "'w worker \<Rightarrow> BufferTag option \<Rightarrow> bool option" where
  "redo_block_filter p blk = map_option (\<lambda>target_tag. target_tag \<noteq> target_redo_tag p) blk"

section \<open>The main loop\<close>

text \<open>
  The \<open>switch\<close> of \<open>WalRedoMain\<close>; an unknown type ends the process. The handlers that send a page back
  leave \<open>wal_redo_buffer\<close> invalid, \<open>PushPage\<close> leaves it valid.
\<close>

definition run_handler ::
    "(StringInfoData \<Rightarrow> 'w \<Rightarrow> (bytes \<times> 'w) option) \<Rightarrow> bool \<Rightarrow> StringInfoData \<Rightarrow> 'w worker \<Rightarrow> (bytes \<times> 'w worker) option" where
  "run_handler h valid msg p =
     do { (reply, w) \<leftarrow> h msg (world p); Some (reply, p\<lparr>world := w, wal_redo_buffer := valid\<rparr>) }"

definition WalRedo_dispatch ::
    "('w, 'r) redo_env \<Rightarrow> u8 \<Rightarrow> StringInfoData \<Rightarrow> 'w worker \<Rightarrow> (bytes \<times> 'w worker) option" where
  "WalRedo_dispatch env firstchar msg p =
     (let run = (\<lambda>h. run_handler h (wal_redo_buffer p) msg p); run_buf = (\<lambda>h valid. run_handler h valid msg p) in
      if firstchar = ch (CHR ''E'') then run_buf (ApplyOneXlogWithoutBasePage env) False
      else if firstchar = ch (CHR ''O'') then run_buf (ApplyLsnListXlog env) False
      else if firstchar = ch (CHR ''o'') then run_buf (ApplyLsnListXlogWithoutBasePage env) False
      else if firstchar = ch (CHR ''D'') then run_buf (ApplyOneXlog env) False
      else if firstchar = ch (CHR ''M'') then run (GetRelSize env)
      else if firstchar = ch (CHR ''B'') then BeginRedoForBlock msg p
      else if firstchar = ch (CHR ''P'') then run_buf (PushPage env) True
      else if firstchar = ch (CHR ''A'') then ApplyRecord env msg p
      else if firstchar = ch (CHR ''G'') then run_buf (GetPage env) False
      else if firstchar = ch (CHR ''S'') then run SyncLsnReplay
      else if firstchar = ch (CHR ''U'') then run (ApplyXlogUntil env)
      else if firstchar = ch (CHR ''C'') then run (CreateRel env)
      else if firstchar = ch (CHR ''F'') then run (ExtendRel env)
      else None)"

text \<open>
  The reply loop, \<open>tot\<close> bytes being written. An interrupted call is repeated, any other failure is
  an error.
\<close>

fun write_reply :: "bytes \<Rightarrow> nat \<Rightarrow> wres list \<Rightarrow> bytes \<Rightarrow> (bytes \<times> wres list) option" where
  "write_reply resp tot [] out = None"
| "write_reply resp tot (Interrupted # ws) out = write_reply resp tot ws out"
| "write_reply resp tot (WriteFailed # ws) out = None"
| "write_reply resp tot (Wrote k # ws) out =
     (let n = min k (length resp - tot); out = out @ take n (drop tot resp)
      in if tot + n < length resp then write_reply resp (tot + n) ws out else Some (out, ws))"

text \<open>
  One round of the main loop: read a command, run its handler, write its reply if it has one.
  The result of \<open>EOF\<close> is \<^term>\<open>None\<close>, since the process exits.
\<close>

definition WalRedo_round ::
    "('w, 'r) redo_env \<Rightarrow> io list \<Rightarrow> wres list \<Rightarrow> 'w worker \<Rightarrow> bytes \<Rightarrow> bytes \<Rightarrow>
     ('w worker \<times> bytes \<times> bytes \<times> io list \<times> wres list) option" where
  "WalRedo_round env ios ws p inp out =
     do { (cmd, buf, inp, ios) \<leftarrow> ReadRedoCommand (stdin_buf p) ios inp;
          (firstchar, msg) \<leftarrow> cmd;
          (reply, p) \<leftarrow> WalRedo_dispatch env firstchar msg (p\<lparr>stdin_buf := buf\<rparr>);
          (if reply = [] then Some (p, inp, out, ios, ws)
           else do { (out, ws) \<leftarrow> write_reply reply 0 ws out; Some (p, inp, out, ios, ws) }) }"

end
