(* ===== verification/RedoPool.thy ===== *)
theory RedoPool
  imports RedoProc
begin

text \<open>
  The storage server's side of the redo protocol (\<open>backend/tcop/storage_server.c\<close>): choosing one of
  the redo processes, sending a request and receiving the reply.
\<close>

abbreviation REPLAY_PROCESS_NUM :: nat where "REPLAY_PROCESS_NUM \<equiv> 5"

text \<open>
  \<open>replayProcessMutex\<close> (whether it is held), the contents of \<open>serverPipe[i]\<close> and \<open>computePipe[i]\<close>, and
  the processes.
\<close>

record 'w redo_pool =
  replayProcessMutex :: "bool list"
  serverPipe :: "bytes list"
  computePipe :: "bytes list"
  workers :: "'w worker list"

section \<open>Choosing a process\<close>

text \<open>The loop of \<open>pthread_mutex_trylock\<close> calls, \<open>n\<close> of which are left.\<close>

fun try_locks :: "bool list \<Rightarrow> nat \<Rightarrow> nat \<Rightarrow> nat \<Rightarrow> nat option" where
  "try_locks ms replayPid i 0 = None"
| "try_locks ms replayPid i (Suc n) =
     (if \<not> ms ! ((replayPid + i) mod REPLAY_PROCESS_NUM) then Some ((replayPid + i) mod REPLAY_PROCESS_NUM)
      else try_locks ms replayPid (i + 1) n)"

text \<open>Without a free process the thread waits for its own one; that is \<^term>\<open>None\<close> here.\<close>

definition lock_replay_process :: "nat \<Rightarrow> bool list \<Rightarrow> (nat \<times> bool list) option" where
  "lock_replay_process tid ms =
     (let replayPid = tid mod REPLAY_PROCESS_NUM in
      case try_locks ms replayPid 0 REPLAY_PROCESS_NUM of
        Some j \<Rightarrow> Some (j, ms[j := True])
      | None \<Rightarrow> if ms ! replayPid then None else Some (replayPid, ms[replayPid := True]))"

section \<open>Sending and receiving\<close>

text \<open>
  The send loop: \<open>ws\<close> are the results of the coming calls of \<open>write\<close>, -1 for a failed one; the
  loop adds every result to \<open>sendLen\<close>. A call with a negative \<open>sendLen\<close> would read before the
  buffer.
\<close>

fun send_loop :: "bytes \<Rightarrow> int \<Rightarrow> int \<Rightarrow> int list \<Rightarrow> bytes \<Rightarrow> (bytes \<times> int list) option" where
  "send_loop buf targetMsgLen sendLen [] pipe = (if sendLen < targetMsgLen then None else Some (pipe, []))"
| "send_loop buf targetMsgLen sendLen (w # ws) pipe =
     (if sendLen < targetMsgLen then
        if sendLen < 0 \<or> int (length buf) < targetMsgLen then None
        else send_loop buf targetMsgLen (sendLen + w) ws
               (pipe @ take (nat w) (drop (nat sendLen) (take (nat targetMsgLen) buf)))
      else Some (pipe, w # ws))"

text \<open>The receive loop; \<open>exit(1)\<close> after an error is \<^term>\<open>None\<close>.\<close>

fun recv_loop :: "nat \<Rightarrow> bytes \<Rightarrow> io list \<Rightarrow> bytes \<Rightarrow> (bytes \<times> bytes \<times> io list) option" where
  "recv_loop n acc [] pipe = (if length acc < n then None else Some (acc, pipe, []))"
| "recv_loop n acc (io # ios) pipe =
     (if length acc < n then
        (case sys_read io (n - length acc) pipe of
           EAGAIN \<Rightarrow> recv_loop n acc ios pipe
         | EFAIL \<Rightarrow> None
         | Got bs pipe' \<Rightarrow> recv_loop n (acc @ bs) ios pipe')
      else Some (acc, pipe, io # ios))"

section \<open>Calls\<close>

text \<open>How the system calls of the two processes turn out during a call.\<close>

record schedule =
  client_writes :: "int list"
  client_reads :: "io list"
  worker_reads :: "io list"
  worker_writes :: "wres list"

text \<open>
  The common frame of the request functions. The chosen process runs its main loop for one round
  between the request and the reply.
\<close>

definition redo_call ::
    "('w, 'r) redo_env \<Rightarrow> schedule \<Rightarrow> nat \<Rightarrow> bytes \<Rightarrow> int \<Rightarrow> nat \<Rightarrow> 'w redo_pool \<Rightarrow> (bytes \<times> 'w redo_pool) option" where
  "redo_call env sc tid requestBuffer targetMsgLen n pool =
     do { (j, ms) \<leftarrow> lock_replay_process tid (replayProcessMutex pool);
          (inp, _) \<leftarrow> send_loop requestBuffer targetMsgLen 0 (client_writes sc) (serverPipe pool ! j);
          (p, inp, out, _, _) \<leftarrow>
             WalRedo_round env (worker_reads sc) (worker_writes sc) (workers pool ! j) inp (computePipe pool ! j);
          (reply, out, _) \<leftarrow> recv_loop n [] (client_reads sc) out;
          Some (reply, pool\<lparr>replayProcessMutex := ms[j := False], serverPipe := (serverPipe pool)[j := inp],
                            computePipe := (computePipe pool)[j := out], workers := (workers pool)[j := p]\<rparr>) }"

text \<open>The result is the \<open>int\<close> that the process sent.\<close>

definition SyncGetRelSize ::
    "('w, 'r) redo_env \<Rightarrow> schedule \<Rightarrow> nat \<Rightarrow> RelFileNode \<Rightarrow> u32 \<Rightarrow> u64 \<Rightarrow> 'w redo_pool \<Rightarrow> (u32 \<times> 'w redo_pool) option" where
  "SyncGetRelSize env sc tid relFileNode forkNumber lsn pool =
     do { (reply, pool) \<leftarrow> redo_call env sc tid (SyncGetRelSize_request relFileNode forkNumber) (1 + 4 + 1 + 4 + 4 + 4) 4 pool;
          Some (word_of_nat (dec_le reply), pool) }"

definition ApplyOneLsnWithoutBasePage ::
    "('w, 'r) redo_env \<Rightarrow> schedule \<Rightarrow> nat \<Rightarrow> RelFileNode \<Rightarrow> u32 \<Rightarrow> u32 \<Rightarrow> u64 \<Rightarrow> 'w redo_pool \<Rightarrow> (bytes \<times> 'w redo_pool) option" where
  "ApplyOneLsnWithoutBasePage env sc tid relFileNode forkNumber blockNumber lsn pool =
     redo_call env sc tid (ApplyOneLsnWithoutBasePage_request relFileNode forkNumber blockNumber lsn)
       (1 + 4 + 1 + 4 + 4 + 4 + 4 + 8) BLCKSZ pool"

definition ApplyOneLsn ::
    "('w, 'r) redo_env \<Rightarrow> schedule \<Rightarrow> nat \<Rightarrow> RelFileNode \<Rightarrow> u32 \<Rightarrow> u32 \<Rightarrow> u64 \<Rightarrow> bytes \<Rightarrow> 'w redo_pool \<Rightarrow> (bytes \<times> 'w redo_pool) option" where
  "ApplyOneLsn env sc tid relFileNode forkNumber blockNumber lsn origPage pool =
     redo_call env sc tid (ApplyOneLsn_request relFileNode forkNumber blockNumber lsn origPage)
       (1 + 4 + 1 + 4 + 4 + 4 + 4 + 8 + int BLCKSZ) BLCKSZ pool"

definition ApplyLsnListAndGetUpdatedPage ::
    "('w, 'r) redo_env \<Rightarrow> schedule \<Rightarrow> nat \<Rightarrow> RelFileNode \<Rightarrow> u32 \<Rightarrow> u32 \<Rightarrow> u64 list \<Rightarrow> 'w redo_pool \<Rightarrow> (bytes \<times> 'w redo_pool) option" where
  "ApplyLsnListAndGetUpdatedPage env sc tid relFileNode forkNumber blockNumber lsnList pool =
     redo_call env sc tid (ApplyLsnListAndGetUpdatedPage_request relFileNode forkNumber blockNumber lsnList)
       (sint (1 + ApplyLsnListAndGetUpdatedPage_msgLen lsnList)) BLCKSZ pool"

definition ApplyLsnList ::
    "('w, 'r) redo_env \<Rightarrow> schedule \<Rightarrow> nat \<Rightarrow> RelFileNode \<Rightarrow> u32 \<Rightarrow> u32 \<Rightarrow> u64 list \<Rightarrow> bytes \<Rightarrow> 'w redo_pool \<Rightarrow> (bytes \<times> 'w redo_pool) option" where
  "ApplyLsnList env sc tid relFileNode forkNumber blockNumber lsnList origPage pool =
     redo_call env sc tid (ApplyLsnList_request relFileNode forkNumber blockNumber lsnList origPage)
       (sint (1 + ApplyLsnList_msgLen lsnList)) BLCKSZ pool"

text \<open>The reply to an extension is read into the first bytes of \<open>content\<close>.\<close>

definition WalRedoExtendRel ::
    "('w, 'r) redo_env \<Rightarrow> schedule \<Rightarrow> nat \<Rightarrow> RelFileNode \<Rightarrow> u32 \<Rightarrow> u32 \<Rightarrow> bytes \<Rightarrow> 'w redo_pool \<Rightarrow> (bytes \<times> 'w redo_pool) option" where
  "WalRedoExtendRel env sc tid relFileNode forkNumber blockNumber content pool =
     do { (reply, pool) \<leftarrow> redo_call env sc tid (WalRedoExtendRel_request relFileNode forkNumber blockNumber content)
            (sint (1 + (4 + 1 + 4 + 4 + 4 + 4 + word_of_nat BLCKSZ) :: u32)) 4 pool;
          Some (reply @ drop 4 content, pool) }"

definition WalRedoCreateRel ::
    "('w, 'r) redo_env \<Rightarrow> schedule \<Rightarrow> nat \<Rightarrow> RelFileNode \<Rightarrow> u32 \<Rightarrow> 'w redo_pool \<Rightarrow> 'w redo_pool option" where
  "WalRedoCreateRel env sc tid relFileNode forkNumber pool =
     do { (_, pool) \<leftarrow> redo_call env sc tid (WalRedoCreateRel_request relFileNode forkNumber) (1 + 4 + 1 + 4 + 4 + 4) 4 pool;
          Some pool }"

definition GetBasePage ::
    "('w, 'r) redo_env \<Rightarrow> schedule \<Rightarrow> nat \<Rightarrow> RelFileNode \<Rightarrow> u32 \<Rightarrow> u32 \<Rightarrow> 'w redo_pool \<Rightarrow> (bytes \<times> 'w redo_pool) option" where
  "GetBasePage env sc tid relFileNode forkNumber blockNumber pool =
     redo_call env sc tid (GetBasePage_request relFileNode forkNumber blockNumber) (1 + 4 + 1 + 4 + 4 + 4 + 4) BLCKSZ pool"

text \<open>
  \<open>GetPageByLsn\<close> sends two requests, of which the first has no reply. The LSN is that of the WAL
  receiver when there is one.
\<close>

definition GetPageByLsn ::
    "('w, 'r) redo_env \<Rightarrow> schedule \<Rightarrow> schedule \<Rightarrow> nat \<Rightarrow> u64 option \<Rightarrow> RelFileNode \<Rightarrow> u32 \<Rightarrow> u32 \<Rightarrow> u64 \<Rightarrow> 'w redo_pool \<Rightarrow>
     (bytes \<times> 'w redo_pool) option" where
  "GetPageByLsn env sc1 sc2 tid flushedUpto relFileNode forkNumber blockNumber lsn pool =
     do { let lsn = (case flushedUpto of None \<Rightarrow> lsn | Some l \<Rightarrow> l);
          (j, ms) \<leftarrow> lock_replay_process tid (replayProcessMutex pool);
          (inp, _) \<leftarrow> send_loop (lsn_request (CHR ''U'') (pg_hton64 lsn)) (1 + 4 + 8) 0 (client_writes sc1) (serverPipe pool ! j);
          (p, inp, out, _, _) \<leftarrow>
             WalRedo_round env (worker_reads sc1) (worker_writes sc1) (workers pool ! j) inp (computePipe pool ! j);
          (inp, _) \<leftarrow> send_loop (GetBasePage_request relFileNode forkNumber blockNumber) (1 + 4 + 1 + 4 + 4 + 4 + 4) 0
                       (client_writes sc2) inp;
          (p, inp, out, _, _) \<leftarrow> WalRedo_round env (worker_reads sc2) (worker_writes sc2) p inp out;
          (page, out, _) \<leftarrow> recv_loop BLCKSZ [] (client_reads sc2) out;
          Some (page, pool\<lparr>replayProcessMutex := ms[j := False], serverPipe := (serverPipe pool)[j := inp],
                           computePipe := (computePipe pool)[j := out], workers := (workers pool)[j := p]\<rparr>) }"

end
