(* ===== verification/RedoLaws.thy ===== *)
theory RedoLaws
  imports RedoPool KvLaws
begin

text \<open>
  Laws of the redo protocol: byte swapping, decoding of messages, reassembly of a byte stream from
  reads of any size, and the frame shared by all calls.
\<close>

section \<open>Byte order\<close>

lemma enc_le_word: "enc_le k (unat (x :: 'a :: len word)) = map (\<lambda>i. ucast (drop_bit (8 * i) x)) [0..<k]"
proof (induction k arbitrary: x)
  case (Suc k)
  have d: "unat x div 256 = unat (drop_bit 8 x)"
    unfolding unat_drop_bit_eq by (simp add: drop_bit_eq_div)
  have h: "word_of_nat (unat x mod 256) = (ucast x :: u8)"
    by (rule word_unat_eq_iff [THEN iffD2]) (simp add: unat_of_nat unsigned_ucast_eq take_bit_eq_mod)
  show ?case
    unfolding enc_le.simps d h Suc.IH upt_conv_Cons [OF zero_less_Suc]
    by (simp add: map_Suc_upt [symmetric] add.commute del: upt_Suc)
qed simp

lemma byte_eqI: "(\<And>n. n < 8 \<Longrightarrow> bit x n = bit y n) \<Longrightarrow> x = (y :: u8)"
  by (rule bit_word_eqI) simp

lemma less8: "n < (8::nat) \<Longrightarrow> n = 0 \<or> n = 1 \<or> n = 2 \<or> n = 3 \<or> n = 4 \<or> n = 5 \<or> n = 6 \<or> n = 7"
  by auto

lemma bswap32_bytes: "mem32 (pg_bswap32 x) = rev (mem32 x)"
proof -
  have 4: "[0..<4] = [0, 1, 2, 3 :: nat]" by (simp add: upt_rec)
  show ?thesis unfolding enc_le_word 4
    by (auto simp: pg_bswap32_def bit_simps intro!: byte_eqI dest!: less8)
qed

lemma bswap64_bytes: "mem64 (pg_bswap64 x) = rev (mem64 x)"
proof -
  have 8: "[0..<8] = [0, 1, 2, 3, 4, 5, 6, 7 :: nat]" by (simp add: upt_rec)
  show ?thesis unfolding enc_le_word 8
    by (auto simp: pg_bswap64_def bit_simps intro!: byte_eqI dest!: less8)
qed

lemma dec_mem32 [simp]: "word_of_nat (dec_le (mem32 x)) = x"
proof -
  have "unat x < 2 ^ LENGTH(32)" by (rule unsigned_less)
  then have "unat x < 256 ^ 4" by simp
  then show ?thesis by (simp add: dec_enc_le)
qed

lemma mem32_inject: "mem32 x = mem32 y \<longleftrightarrow> x = y"
  by (metis dec_mem32)

lemma mem64_inject: "mem64 x = mem64 y \<longleftrightarrow> x = y"
  by (metis dec_enc_u64)

lemma bswap32_twice [simp]: "pg_bswap32 (pg_bswap32 x) = x"
  by (simp add: mem32_inject [symmetric] bswap32_bytes del: enc_le.simps)

lemma bswap64_twice [simp]: "pg_bswap64 (pg_bswap64 x) = x"
  by (simp add: mem64_inject [symmetric] bswap64_bytes del: enc_le.simps)

section \<open>Decoding\<close>

text \<open>What is left to read of a message.\<close>

definition left :: "StringInfoData \<Rightarrow> bytes" where
  "left msg = drop (cursor msg) (data msg)"

lemma left_start [simp]: "left \<lparr>data = xs, cursor = 0\<rparr> = xs"
  by (simp add: left_def)

lemma copy_ok:
  assumes "left msg = xs @ r" "length xs = n"
  shows "\<exists>msg'. pq_copymsgbytes msg n = Some (xs, msg') \<and> left msg' = r"
proof -
  have "length (data msg) - cursor msg = length xs + length r"
    using arg_cong [OF assms(1), of length] by (simp add: left_def)
  moreover have "drop (cursor msg + n) (data msg) = r"
    using arg_cong [OF assms(1), of "drop n"] assms(2) by (simp add: left_def add.commute)
  ultimately show ?thesis using assms by (simp add: pq_copymsgbytes_def left_def)
qed

lemma getmsgbytes_copy: "pq_getmsgbytes = pq_copymsgbytes"
  by (simp add: fun_eq_iff pq_getmsgbytes_def pq_copymsgbytes_def)

lemma getmsgbyte_ok:
  assumes "left msg = b # r"
  shows "\<exists>msg'. pq_getmsgbyte msg = Some (b, msg') \<and> left msg' = r"
proof -
  have c: "cursor msg < length (data msg)" using assms by (cases "cursor msg < length (data msg)") (auto simp: left_def)
  then have "data msg ! cursor msg # drop (Suc (cursor msg)) (data msg) = b # r"
    using assms by (simp add: left_def Cons_nth_drop_Suc)
  with c show ?thesis by (auto simp: pq_getmsgbyte_def left_def)
qed

lemma getmsgint_ok:
  assumes "left msg = mem32 (pg_hton32 x) @ r"
  shows "\<exists>msg'. pq_getmsgint msg 4 = Some (x, msg') \<and> left msg' = r"
  using copy_ok [OF assms] by (auto simp: pq_getmsgint_def)

lemma getmsgint64_ok:
  assumes "left msg = mem64 (pg_hton64 x) @ r"
  shows "\<exists>msg'. pq_getmsgint64 msg = Some (x, msg') \<and> left msg' = r"
  using copy_ok [OF assms] by (auto simp: pq_getmsgint64_def)

text \<open>The fork number survives when it fits into a byte.\<close>

lemma fork_byte: "f < 256 \<Longrightarrow> take 1 (mem32 f) = [ucast f] \<and> ucast (ucast f :: u8) = (f :: u32)"
proof
  have "mem32 f = ucast f # map (\<lambda>i. ucast (drop_bit (8 * i) f)) [1..<4]"
    unfolding enc_le_word by (simp add: upt_conv_Cons)
  then show "take 1 (mem32 f) = [ucast f]" by simp
  assume "f < 256"
  then have "unat f < 256" by (simp add: word_less_nat_alt)
  then show "ucast (ucast f :: u8) = f"
    by (intro word_unat_eq_iff [THEN iffD2]) (simp add: unsigned_ucast_eq take_bit_eq_mod unat_mod_distrib)
qed

lemma getmsg_rel_ok:
  assumes "left msg = rel_fields f rn @ r" "f < 256"
  shows "\<exists>msg'. getmsg_rel msg = Some (f, rn, msg') \<and> left msg' = r"
proof -
  have "left msg = ucast f # mem32 (pg_hton32 (spcNode rn)) @ mem32 (pg_hton32 (dbNode rn)) @
      mem32 (pg_hton32 (relNode rn)) @ r"
    using assms fork_byte [of f] by (simp add: rel_fields_def del: enc_le.simps)
  from getmsgbyte_ok [OF this] obtain m1 where m1: "pq_getmsgbyte msg = Some (ucast f, m1)"
    "left m1 = mem32 (pg_hton32 (spcNode rn)) @ mem32 (pg_hton32 (dbNode rn)) @ mem32 (pg_hton32 (relNode rn)) @ r"
    by blast
  from getmsgint_ok [OF m1(2)] obtain m2 where m2: "pq_getmsgint m1 4 = Some (spcNode rn, m2)"
    "left m2 = mem32 (pg_hton32 (dbNode rn)) @ mem32 (pg_hton32 (relNode rn)) @ r" by blast
  from getmsgint_ok [OF m2(2)] obtain m3 where m3: "pq_getmsgint m2 4 = Some (dbNode rn, m3)"
    "left m3 = mem32 (pg_hton32 (relNode rn)) @ r" by blast
  from getmsgint_ok [OF m3(2)] obtain m4 where m4: "pq_getmsgint m3 4 = Some (relNode rn, m4)" "left m4 = r" by blast
  from m1 m2 m3 m4 fork_byte [OF assms(2)] show ?thesis by (simp add: getmsg_rel_def)
qed

lemma getmsg_tag_ok:
  assumes "left msg = page_fields f rn b @ r" "f < 256"
  shows "\<exists>msg'. getmsg_tag msg = Some (\<lparr>rnode = rn, forkNum = f, blockNum = b\<rparr>, msg') \<and> left msg' = r"
proof -
  have "left msg = rel_fields f rn @ mem32 (pg_hton32 b) @ r" using assms(1) by (simp add: page_fields_def)
  from getmsg_rel_ok [OF this assms(2)] obtain m1 where m1: "getmsg_rel msg = Some (f, rn, m1)"
    "left m1 = mem32 (pg_hton32 b) @ r" by blast
  from getmsgint_ok [OF m1(2)] m1(1) show ?thesis by (auto simp: getmsg_tag_def)
qed

lemma getmsg_lsns_ok:
  "left msg = concat (map (\<lambda>l. mem64 (pg_hton64 l)) ls) @ r \<Longrightarrow>
    \<exists>msg'. getmsg_lsns (length ls) msg = Some (ls, msg') \<and> left msg' = r"
proof (induction ls arbitrary: msg)
  case (Cons l ls)
  then have "left msg = mem64 (pg_hton64 l) @ concat (map (\<lambda>l. mem64 (pg_hton64 l)) ls) @ r" by simp
  from copy_ok [OF this] obtain m1 where m1: "pq_copymsgbytes msg 8 = Some (mem64 (pg_hton64 l), m1)"
    "left m1 = concat (map (\<lambda>l. mem64 (pg_hton64 l)) ls) @ r" by auto
  from Cons.IH [OF m1(2)] m1(1) show ?case by auto
qed simp

lemma getmsg_list_ok:
  assumes "left msg = list_fields ls @ r" "length ls < 2 ^ 32"
  shows "\<exists>m1 m2. pq_getmsgint msg 4 = Some (word_of_nat (length ls), m1) \<and>
    getmsg_lsns (unat (word_of_nat (length ls) :: u32)) m1 = Some (ls, m2) \<and> left m2 = r"
proof -
  have n: "unat (word_of_nat (length ls) :: u32) = length ls" using assms(2) by (simp add: unat_of_nat)
  have "left msg = mem32 (pg_hton32 (word_of_nat (length ls))) @ concat (map (\<lambda>l. mem64 (pg_hton64 l)) ls) @ r"
    using assms(1) by (simp add: list_fields_def)
  from getmsgint_ok [OF this] obtain m1 where m1: "pq_getmsgint msg 4 = Some (word_of_nat (length ls), m1)"
    "left m1 = concat (map (\<lambda>l. mem64 (pg_hton64 l)) ls) @ r" by blast
  from getmsg_lsns_ok [OF m1(2)] m1(1) n show ?thesis by auto
qed

section \<open>Streams\<close>

text \<open>
  \<open>reads_cover lim n ios\<close>: reads that turn out as \<open>ios\<close>, each of at most \<open>lim\<close> bytes, fetch \<open>n\<close> bytes
  before any of them fails. The sizes may be anything, and reads may find nothing in between.
\<close>

fun reads_cover :: "nat \<Rightarrow> nat \<Rightarrow> io list \<Rightarrow> bool" where
  "reads_cover lim n [] = (n = 0)"
| "reads_cover lim n (io # ios) =
     (n = 0 \<or> (case io of Avail k \<Rightarrow> reads_cover lim (n - min k lim) ios
                         | WouldBlock \<Rightarrow> reads_cover lim n ios
                         | _ \<Rightarrow> False))"

lemma reads_cover_0 [simp]: "reads_cover lim 0 ios"
  by (cases ios) auto

fun writes_cover :: "int \<Rightarrow> int list \<Rightarrow> bool" where
  "writes_cover n [] = (n = 0)"
| "writes_cover n (w # ws) = (n = 0 \<or> 0 \<le> w \<and> w \<le> n \<and> writes_cover (n - w) ws)"

fun replies_cover :: "nat \<Rightarrow> wres list \<Rightarrow> bool" where
  "replies_cover n [] = False"
| "replies_cover n (Interrupted # ws) = replies_cover n ws"
| "replies_cover n (WriteFailed # ws) = False"
| "replies_cover n (Wrote k # ws) = (k \<le> n \<and> (k = n \<or> replies_cover (n - k) ws))"

text \<open>Reading from the buffer and, when it is empty, from the pipe, yields the stream in order.\<close>

lemma buffered_read_step:
  assumes "buf \<noteq> []" "0 < count"
  shows "buffered_read count dst buf ios pipe =
    buffered_read (count - min (length buf) count) (dst @ take (min (length buf) count) buf)
      (drop (min (length buf) count) buf) ios pipe"
  using assms by (subst buffered_read.simps) (simp add: Let_def)

lemma buffered_read_0 [simp]: "buffered_read 0 dst buf ios pipe = Some (Some dst, buf, pipe, ios)"
  by (simp add: buffered_read.simps)

lemma buffered_read_buf:
  assumes "count \<le> length buf"
  shows "buffered_read count dst buf ios pipe = Some (Some (dst @ take count buf), drop count buf, pipe, ios)"
proof (cases "count = 0")
  case False
  with assms have "buf \<noteq> []" "0 < count" "min (length buf) count = count" by auto
  with buffered_read_step [of buf count dst ios pipe] show ?thesis by simp
qed simp

lemma buffered_read_empty:
  assumes "count \<le> length pipe" "reads_cover STDIN_BUF_SIZE (length pipe) ios"
  shows "\<exists>buf' pipe' ios'. buffered_read count dst [] ios pipe =
      Some (Some (dst @ take count pipe), buf', pipe', ios') \<and> buf' @ pipe' = drop count pipe \<and>
      reads_cover STDIN_BUF_SIZE (length pipe') ios'"
  using assms
proof (induction ios arbitrary: count dst pipe)
  case (Cons io ios)
  note step = buffered_read.simps [of count dst "[]" "io # ios" pipe]
  show ?case
  proof (cases "count = 0")
    case False
    then have ne: "0 < length pipe" using Cons.prems(1) by linarith
    show ?thesis
    proof (cases "\<exists>k. io = Avail k \<and> 0 < k")
      case True
      then obtain k where io: "io = Avail k" "0 < k" by blast
      define m where "m = min k (min STDIN_BUF_SIZE (length pipe))"
      let ?chunk = "take m pipe" and ?pipe = "drop m pipe"
      have m: "0 < m" "m \<le> length pipe" using io ne by (auto simp: m_def)
      have sys: "sys_read io STDIN_BUF_SIZE pipe = Got ?chunk ?pipe" using m io by (simp add: m_def Let_def)
      have cov: "reads_cover STDIN_BUF_SIZE (length ?pipe) ios"
        using Cons.prems(2) io ne by (auto simp: m_def min_def split: if_splits)
      have chunk: "?chunk \<noteq> []" "length ?chunk = m" using m by auto
      have eq: "buffered_read count dst [] (io # ios) pipe =
          buffered_read (count - min m count) (dst @ take (min m count) ?chunk) (drop (min m count) ?chunk) ios ?pipe"
        using step False sys chunk by (simp add: Let_def)
      show ?thesis
      proof (cases "count \<le> m")
        case True
        with eq chunk have "buffered_read count dst [] (io # ios) pipe =
            Some (Some (dst @ take count pipe), drop count ?chunk, ?pipe, ios)" by (simp add: min_def)
        moreover have "drop count ?chunk @ ?pipe = drop count pipe"
          using True m(2) by (metis append_take_drop_id drop_append chunk(2) diff_is_0_eq drop0)
        ultimately show ?thesis using cov by blast
      next
        case False
        then have "min m count = m" by simp
        with eq have eq': "buffered_read count dst [] (io # ios) pipe =
            buffered_read (count - m) (dst @ ?chunk) [] ios ?pipe" by simp
        have "count - m \<le> length ?pipe" using Cons.prems(1) by simp
        from Cons.IH [OF this cov, of "dst @ ?chunk"] eq' False show ?thesis
          by (auto simp: take_add [symmetric])
      qed
    next
      case False
      then have "sys_read io STDIN_BUF_SIZE pipe = EAGAIN" "reads_cover STDIN_BUF_SIZE (length pipe) ios"
        using Cons.prems(2) ne by (cases io; simp)+
      with Cons.IH [OF Cons.prems(1)] step \<open>count \<noteq> 0\<close> show ?thesis by auto
    qed
  qed (use Cons.prems in auto)
qed (use buffered_read_0 in auto)

lemma buffered_read_stream:
  assumes "count \<le> length (buf @ pipe)" "reads_cover STDIN_BUF_SIZE (length pipe) ios"
  shows "\<exists>buf' pipe' ios'. buffered_read count dst buf ios pipe =
      Some (Some (dst @ take count (buf @ pipe)), buf', pipe', ios') \<and> buf' @ pipe' = drop count (buf @ pipe) \<and>
      reads_cover STDIN_BUF_SIZE (length pipe') ios'"
proof (cases "count \<le> length buf")
  case True
  with buffered_read_buf [OF True] assms(2) show ?thesis by auto
next
  case False
  show ?thesis
  proof (cases "buf = []")
    case True
    with buffered_read_empty [of count pipe ios dst] assms show ?thesis by auto
  next
    case ne: False
    have "buffered_read count dst buf ios pipe = buffered_read (count - length buf) (dst @ buf) [] ios pipe"
      using buffered_read_step [OF ne, of count] False by (simp add: min_def)
    with buffered_read_empty [of "count - length buf" pipe ios "dst @ buf"] assms False show ?thesis by auto
  qed
qed

lemma sint_of_nat: "n < 2 ^ 31 \<Longrightarrow> sint (word_of_nat n :: u32) = int n"
  by (simp add: signed_of_nat signed_take_bit_int_eq_self)

lemma ReadRedoCommand_ok:
  assumes "length payload < 2 ^ 31 - 4" "reads_cover STDIN_BUF_SIZE (length payload + 5) ios"
  shows "\<exists>ios'. ReadRedoCommand [] ios ([c] @ mem32 (pg_hton32 (word_of_nat (length payload + 4))) @ payload) =
    Some (Some (c, \<lparr>data = payload, cursor = 0\<rparr>), [], [], ios')"
proof -
  let ?len = "word_of_nat (length payload + 4) :: u32"
  let ?hdr = "c # mem32 (pg_hton32 ?len)"
  let ?pipe = "?hdr @ payload"
  have "5 \<le> length ([] @ ?pipe)" by simp
  moreover have "reads_cover STDIN_BUF_SIZE (length ?pipe) ios" using assms(2) by (simp add: add.commute)
  ultimately obtain buf1 pipe1 ios1 where 1: "buffered_read 5 [] [] ios ?pipe = Some (Some ([] @ take 5 ([] @ ?pipe)), buf1, pipe1, ios1)"
    "buf1 @ pipe1 = drop 5 ([] @ ?pipe)" "reads_cover STDIN_BUF_SIZE (length pipe1) ios1"
    using buffered_read_stream by blast
  have h: "take 5 ?pipe = ?hdr" "drop 5 ?pipe = payload" by simp_all
  have "length payload \<le> length (buf1 @ pipe1)" using 1(2) h(2) by simp
  from buffered_read_stream [OF this 1(3), of "[]"] obtain buf2 pipe2 ios2 where
    2: "buffered_read (length payload) [] buf1 ios1 pipe1 = Some (Some payload, buf2, pipe2, ios2)" "buf2 = []" "pipe2 = []"
    using 1(2) h(2) by auto
  have "sint ?len = int (length payload) + 4"
    using sint_of_nat [of "length payload + 4"] assms(1) by (simp only: of_nat_add of_nat_numeral)
  with 1 2 h show ?thesis by (simp add: ReadRedoCommand_def)
qed

lemma write_reply_ok:
  assumes "tot < length resp" "replies_cover (length resp - tot) ws"
  shows "\<exists>ws'. write_reply resp tot ws out = Some (out @ drop tot resp, ws')"
  using assms
proof (induction resp tot ws out rule: write_reply.induct)
  case (4 resp tot k ws out)
  then have k: "min k (length resp - tot) = k" by simp
  show ?case
  proof (cases "tot + k < length resp")
    case True
    then have "\<exists>ws'. write_reply resp (tot + k) ws (out @ take k (drop tot resp)) =
        Some ((out @ take k (drop tot resp)) @ drop (tot + k) resp, ws')"
      using 4 k by (intro "4.IH") (auto simp: Let_def)
    moreover have "take k (drop tot resp) @ drop (tot + k) resp = drop tot resp"
      by (metis append_take_drop_id drop_drop add.commute)
    ultimately show ?thesis using True k by (simp add: Let_def)
  next
    case False
    with 4 k show ?thesis by (auto simp: Let_def)
  qed
qed auto

lemma send_loop_ok:
  assumes "0 \<le> sent" "sent \<le> int (length buf)" "writes_cover (int (length buf) - sent) ws"
  shows "\<exists>ws'. send_loop buf (int (length buf)) sent ws pipe = Some (pipe @ drop (nat sent) buf, ws')"
  using assms
proof (induction ws arbitrary: sent pipe)
  case (Cons w ws)
  show ?case
  proof (cases "sent < int (length buf)")
    case True
    with Cons.prems have w: "0 \<le> w" "w \<le> int (length buf) - sent" "writes_cover (int (length buf) - sent - w) ws" by auto
    then have "\<exists>ws'. send_loop buf (int (length buf)) (sent + w) ws (pipe @ take (nat w) (drop (nat sent) buf)) =
        Some ((pipe @ take (nat w) (drop (nat sent) buf)) @ drop (nat (sent + w)) buf, ws')"
      using Cons.prems by (intro Cons.IH) (auto simp: algebra_simps)
    moreover have "take (nat w) (drop (nat sent) buf) @ drop (nat (sent + w)) buf = drop (nat sent) buf"
      using w(1) Cons.prems(1) by (metis append_take_drop_id drop_drop add.commute nat_add_distrib)
    ultimately show ?thesis using True Cons.prems(1) by simp
  qed (use Cons.prems in auto)
qed auto

lemma recv_loop_ok:
  assumes "length acc + length pipe = n" "reads_cover n (length pipe) ios"
  shows "\<exists>ios'. recv_loop n acc ios pipe = Some (acc @ pipe, [], ios')"
  using assms
proof (induction ios arbitrary: acc pipe)
  case (Cons io ios)
  show ?case
  proof (cases "pipe = []")
    case False
    show ?thesis
    proof (cases "\<exists>k. io = Avail k \<and> 0 < k")
      case True
      then obtain k where io: "io = Avail k" "0 < k" by blast
      define m where "m = min k (length pipe)"
      have m: "0 < m" "m \<le> length pipe" using io False by (auto simp: m_def)
      have sys: "sys_read io (n - length acc) pipe = Got (take m pipe) (drop m pipe)"
        using m io Cons.prems(1) by (auto simp: m_def Let_def)
      have "reads_cover n (length (drop m pipe)) ios"
        using Cons.prems io False by (auto simp: m_def min_def split: if_splits)
      from Cons.IH [OF _ this, of "acc @ take m pipe"] sys m False Cons.prems(1) show ?thesis by auto
    next
      case no: False
      then have "sys_read io (n - length acc) pipe = EAGAIN" "reads_cover n (length pipe) ios"
        using Cons.prems(2) False by (cases io; simp)+
      with Cons.IH [OF Cons.prems(1)] Cons.prems(1) False show ?thesis by auto
    qed
  qed (use Cons.prems in auto)
qed auto

section \<open>The pool\<close>

definition chosen_process :: "nat \<Rightarrow> bool list \<Rightarrow> nat" where
  "chosen_process tid ms =
     (case try_locks ms (tid mod REPLAY_PROCESS_NUM) 0 REPLAY_PROCESS_NUM of Some j \<Rightarrow> j | None \<Rightarrow> tid mod REPLAY_PROCESS_NUM)"

text \<open>Nothing is under way on a process whose mutex is free.\<close>

definition pool_ok :: "'w redo_pool \<Rightarrow> bool" where
  "pool_ok pool \<longleftrightarrow>
     length (replayProcessMutex pool) = REPLAY_PROCESS_NUM \<and> length (serverPipe pool) = REPLAY_PROCESS_NUM \<and>
     length (computePipe pool) = REPLAY_PROCESS_NUM \<and> length (workers pool) = REPLAY_PROCESS_NUM \<and>
     (\<forall>j < REPLAY_PROCESS_NUM. \<not> replayProcessMutex pool ! j \<longrightarrow>
        serverPipe pool ! j = [] \<and> computePipe pool ! j = [] \<and> stdin_buf (workers pool ! j) = [])"

lemma try_locks_Some:
  "try_locks ms r i n = Some j \<Longrightarrow>
    \<exists>k. i \<le> k \<and> k < i + n \<and> j = (r + k) mod REPLAY_PROCESS_NUM \<and> \<not> ms ! j \<and>
      (\<forall>k'. i \<le> k' \<longrightarrow> k' < k \<longrightarrow> ms ! ((r + k') mod REPLAY_PROCESS_NUM))"
proof (induction ms r i n rule: try_locks.induct)
  case (2 ms r i n)
  show ?case
  proof (cases "ms ! ((r + i) mod REPLAY_PROCESS_NUM)")
    case True
    with 2 obtain k where "i + 1 \<le> k" "k < i + 1 + n" "j = (r + k) mod REPLAY_PROCESS_NUM" "\<not> ms ! j"
      "\<forall>k'. i + 1 \<le> k' \<longrightarrow> k' < k \<longrightarrow> ms ! ((r + k') mod REPLAY_PROCESS_NUM)" by auto
    moreover from this(5) True have "ms ! ((r + k') mod REPLAY_PROCESS_NUM)" if "i \<le> k'" "k' < k" for k'
      using that by (cases "k' = i") auto
    ultimately show ?thesis by (intro exI [of _ k]) auto
  next
    case False
    with 2 show ?thesis by (intro exI [of _ i]) auto
  qed
qed simp

lemma try_locks_None:
  "try_locks ms r i n = None \<Longrightarrow> i \<le> k \<Longrightarrow> k < i + n \<Longrightarrow> ms ! ((r + k) mod REPLAY_PROCESS_NUM)"
proof (induction ms r i n rule: try_locks.induct)
  case (2 ms r i n)
  then show ?case by (cases "k = i") (auto split: if_splits)
qed simp

lemma try_locks_unfold:
  "0 < n \<Longrightarrow> try_locks ms r i n =
    (if \<not> ms ! ((r + i) mod REPLAY_PROCESS_NUM) then Some ((r + i) mod REPLAY_PROCESS_NUM) else try_locks ms r (i + 1) (n - 1))"
  by (cases n) auto

lemma mod5_shift: "j < REPLAY_PROCESS_NUM \<Longrightarrow> \<exists>k < REPLAY_PROCESS_NUM. (r mod REPLAY_PROCESS_NUM + k) mod REPLAY_PROCESS_NUM = j"
proof -
  assume j: "j < REPLAY_PROCESS_NUM"
  have "r mod REPLAY_PROCESS_NUM < REPLAY_PROCESS_NUM" by simp
  then have "(r mod REPLAY_PROCESS_NUM + (j + REPLAY_PROCESS_NUM - r mod REPLAY_PROCESS_NUM)) = j + REPLAY_PROCESS_NUM" by linarith
  then have "(r mod REPLAY_PROCESS_NUM + (j + REPLAY_PROCESS_NUM - r mod REPLAY_PROCESS_NUM) mod REPLAY_PROCESS_NUM) mod REPLAY_PROCESS_NUM = j"
    using j by (simp only: mod_add_right_eq) simp
  then show ?thesis by (intro exI [of _ "(j + REPLAY_PROCESS_NUM - r mod REPLAY_PROCESS_NUM) mod REPLAY_PROCESS_NUM"]) simp
qed

lemma lock_replay_process_ok:
  assumes "j < REPLAY_PROCESS_NUM" "\<not> ms ! j"
  shows "lock_replay_process tid ms = Some (chosen_process tid ms, ms[chosen_process tid ms := True])"
    and "chosen_process tid ms < REPLAY_PROCESS_NUM" and "\<not> ms ! chosen_process tid ms"
proof -
  let ?t = "try_locks ms (tid mod REPLAY_PROCESS_NUM) 0 REPLAY_PROCESS_NUM"
  obtain k where k: "k < REPLAY_PROCESS_NUM" "(tid mod REPLAY_PROCESS_NUM + k) mod REPLAY_PROCESS_NUM = j"
    using mod5_shift [OF assms(1)] by blast
  have "?t \<noteq> None"
  proof
    assume "?t = None"
    from try_locks_None [OF this, of k] k assms(2) show False by simp
  qed
  then obtain c where c: "?t = Some c" by blast
  with try_locks_Some [OF c] show "lock_replay_process tid ms = Some (chosen_process tid ms, ms[chosen_process tid ms := True])"
    "chosen_process tid ms < REPLAY_PROCESS_NUM" "\<not> ms ! chosen_process tid ms"
    by (auto simp: lock_replay_process_def chosen_process_def Let_def)
qed

section \<open>Calls\<close>

definition schedule_ok :: "schedule \<Rightarrow> nat \<Rightarrow> nat \<Rightarrow> bool" where
  "schedule_ok sc req n \<longleftrightarrow>
     writes_cover (int req) (client_writes sc) \<and> reads_cover STDIN_BUF_SIZE req (worker_reads sc) \<and>
     replies_cover n (worker_writes sc) \<and> reads_cover n n (client_reads sc)"

lemma run_handler_buf: "run_handler h v msg p = Some (r, p') \<Longrightarrow> stdin_buf p' = stdin_buf p"
  by (auto simp: run_handler_def)

lemma BeginRedoForBlock_buf: "BeginRedoForBlock msg p = Some (r, p') \<Longrightarrow> stdin_buf p' = stdin_buf p"
  by (auto simp: BeginRedoForBlock_def)

lemma ApplyRecord_buf: "ApplyRecord env msg p = Some (r, p') \<Longrightarrow> stdin_buf p' = stdin_buf p"
  by (auto simp: ApplyRecord_def Let_def split: if_splits prod.splits)

lemma dispatch_keeps_buf:
  "WalRedo_dispatch env c msg p = Some (r, p') \<Longrightarrow> stdin_buf p' = stdin_buf p"
  unfolding WalRedo_dispatch_def Let_def
  by (auto split: if_split_asm dest: run_handler_buf BeginRedoForBlock_buf ApplyRecord_buf)

lemma redo_call_ok:
  assumes pool: "pool_ok pool" "j < REPLAY_PROCESS_NUM" "\<not> replayProcessMutex pool ! j"
    and req: "req = [c] @ mem32 (pg_hton32 (word_of_nat (length payload + 4))) @ payload" "length payload < 2 ^ 31 - 4"
    and sc: "schedule_ok sc (length req) n" and n: "0 < n"
    and disp: "WalRedo_dispatch env c \<lparr>data = payload, cursor = 0\<rparr>
      (workers pool ! chosen_process tid (replayProcessMutex pool)) = Some (reply, p')" "length reply = n"
  shows "redo_call env sc tid req (int (length req)) n pool =
      Some (reply, pool\<lparr>workers := (workers pool)[chosen_process tid (replayProcessMutex pool) := p']\<rparr>)"
    and "pool_ok (pool\<lparr>workers := (workers pool)[chosen_process tid (replayProcessMutex pool) := p']\<rparr>)"
proof -
  let ?c = "chosen_process tid (replayProcessMutex pool)"
  note lock = lock_replay_process_ok [OF pool(2,3), of tid]
  have idle: "serverPipe pool ! ?c = []" "computePipe pool ! ?c = []" "stdin_buf (workers pool ! ?c) = []"
    "(replayProcessMutex pool)[?c := False] = replayProcessMutex pool"
    "(serverPipe pool)[?c := []] = serverPipe pool" "(computePipe pool)[?c := []] = computePipe pool"
    using pool(1) lock(2,3) list_update_id [of "serverPipe pool" ?c] list_update_id [of "computePipe pool" ?c]
      list_update_id [of "replayProcessMutex pool" ?c]
    by (simp_all add: pool_ok_def)
  obtain ws where send: "send_loop req (int (length req)) 0 (client_writes sc) [] = Some (req, ws)"
    using send_loop_ok [of 0 req "client_writes sc" "[]"] sc by (auto simp: schedule_ok_def)
  have "reads_cover STDIN_BUF_SIZE (length payload + 5) (worker_reads sc)"
    using sc req(1) by (simp add: schedule_ok_def add.commute)
  from ReadRedoCommand_ok [OF req(2) this, of c] obtain ios where
    rd: "ReadRedoCommand [] (worker_reads sc) req = Some (Some (c, \<lparr>data = payload, cursor = 0\<rparr>), [], [], ios)"
    using req(1) by auto
  have buf: "(workers pool ! ?c)\<lparr>stdin_buf := []\<rparr> = workers pool ! ?c"
    using idle(3) by (cases "workers pool ! ?c") simp
  obtain ws' where wr: "write_reply reply 0 (worker_writes sc) [] = Some (reply, ws')"
    using write_reply_ok [of 0 reply "worker_writes sc" "[]"] sc disp(2) n by (auto simp: schedule_ok_def)
  have "reply \<noteq> []" using disp(2) n by auto
  then have "WalRedo_round env (worker_reads sc) (worker_writes sc) (workers pool ! ?c) req [] = Some (p', [], reply, ios, ws')"
    using disp(1) by (simp add: WalRedo_round_def idle(3) rd buf wr)
  moreover obtain ios' where "recv_loop n [] (client_reads sc) reply = Some (reply, [], ios')"
    using recv_loop_ok [of "[]" reply n "client_reads sc"] sc disp(2) by (auto simp: schedule_ok_def)
  ultimately show "redo_call env sc tid req (int (length req)) n pool =
      Some (reply, pool\<lparr>workers := (workers pool)[?c := p']\<rparr>)"
    using lock send idle by (simp add: redo_call_def)
  show "pool_ok (pool\<lparr>workers := (workers pool)[?c := p']\<rparr>)"
    using pool(1) dispatch_keeps_buf [OF disp(1)] idle(3) lock(2) by (auto simp: pool_ok_def nth_list_update)
qed

end
