(* ===== verification/RedoCalls.thy ===== *)
theory RedoCalls
  imports RedoLaws
begin

text \<open>
  Each call of the redo protocol end to end: what the server gets back, in terms of what the
  chosen redo process does.
\<close>

section \<open>Requests as framed messages\<close>

lemma length_rel_fields [simp]: "length (rel_fields f rn) = 13"
  by (simp add: rel_fields_def del: enc_le.simps)

lemma length_page_fields [simp]: "length (page_fields f rn b) = 17"
  by (simp add: page_fields_def del: enc_le.simps)

lemma length_list_fields [simp]: "length (list_fields ls) = 4 + 8 * length ls"
  by (induction ls) (simp_all add: list_fields_def del: enc_le.simps)

definition framed :: "bytes \<Rightarrow> char \<Rightarrow> bytes \<Rightarrow> bool" where
  "framed req c payload \<longleftrightarrow> req = [ch c] @ mem32 (pg_hton32 (word_of_nat (length payload + 4))) @ payload"

lemma framed_requests:
  "framed (SyncGetRelSize_request rn f) (CHR ''M'') (rel_fields f rn)"
  "framed (WalRedoCreateRel_request rn f) (CHR ''C'') (rel_fields f rn)"
  "framed (ApplyOneLsnWithoutBasePage_request rn f b l) (CHR ''E'') (page_fields f rn b @ mem64 (pg_hton64 l))"
  "length p = BLCKSZ \<Longrightarrow> framed (ApplyOneLsn_request rn f b l p) (CHR ''D'') (page_fields f rn b @ mem64 (pg_hton64 l) @ p)"
  "framed (ApplyLsnListAndGetUpdatedPage_request rn f b ls) (CHR ''o'') (page_fields f rn b @ list_fields ls)"
  "length p = BLCKSZ \<Longrightarrow> framed (ApplyLsnList_request rn f b ls p) (CHR ''O'') (page_fields f rn b @ list_fields ls @ p)"
  "length p = BLCKSZ \<Longrightarrow> framed (WalRedoExtendRel_request rn f b p) (CHR ''F'') (page_fields f rn b @ p)"
  "framed (GetBasePage_request rn f b) (CHR ''G'') (page_fields f rn b)"
  by (simp_all add: framed_def SyncGetRelSize_request_def WalRedoCreateRel_request_def
      ApplyOneLsnWithoutBasePage_request_def ApplyOneLsn_request_def ApplyLsnListAndGetUpdatedPage_request_def
      ApplyLsnList_request_def WalRedoExtendRel_request_def GetBasePage_request_def
      ApplyLsnListAndGetUpdatedPage_msgLen_def ApplyLsnList_msgLen_def algebra_simps del: enc_le.simps)

lemma sint_lengths:
  assumes "length ls < 2 ^ 26"
  shows "sint (1 + ApplyLsnList_msgLen ls) = 8218 + 8 * int (length ls)"
    and "sint (1 + ApplyLsnListAndGetUpdatedPage_msgLen ls) = 26 + 8 * int (length ls)"
proof -
  have "1 + ApplyLsnList_msgLen ls = word_of_nat (8218 + 8 * length ls)"
    "1 + ApplyLsnListAndGetUpdatedPage_msgLen ls = word_of_nat (26 + 8 * length ls)"
    by (simp_all add: ApplyLsnList_msgLen_def ApplyLsnListAndGetUpdatedPage_msgLen_def)
  then show "sint (1 + ApplyLsnList_msgLen ls) = 8218 + 8 * int (length ls)"
    "sint (1 + ApplyLsnListAndGetUpdatedPage_msgLen ls) = 26 + 8 * int (length ls)"
    using sint_of_nat [of "8218 + 8 * length ls"] sint_of_nat [of "26 + 8 * length ls"] assms by simp_all
qed

section \<open>Handlers on decoded messages\<close>

abbreviation tag_of :: "RelFileNode \<Rightarrow> u32 \<Rightarrow> u32 \<Rightarrow> BufferTag" where
  "tag_of rn f b \<equiv> \<lparr>rnode = rn, forkNum = f, blockNum = b\<rparr>"

abbreviation msg_of :: "bytes \<Rightarrow> StringInfoData" where
  "msg_of payload \<equiv> \<lparr>data = payload, cursor = 0\<rparr>"

lemma GetRelSize_ok:
  assumes "f < 256"
  shows "GetRelSize env (msg_of (rel_fields f rn)) w =
    Some (mem32 (if smgrexists env rn f w then smgrnblocks env rn f w else - 1), w)"
  using getmsg_rel_ok [of "msg_of (rel_fields f rn)" f rn "[]"] assms by (auto simp: GetRelSize_def)

lemma CreateRel_ok:
  assumes "f < 256"
  shows "CreateRel env (msg_of (rel_fields f rn)) w = Some (mem32 1, smgrcreate env rn f w)"
  using getmsg_rel_ok [of "msg_of (rel_fields f rn)" f rn "[]"] assms by (auto simp: CreateRel_def)

lemma GetPage_ok:
  assumes "f < 256"
  shows "GetPage env (msg_of (page_fields f rn b)) w = Some (reply_page env (tag_of rn f b) w)"
  using getmsg_tag_ok [of "msg_of (page_fields f rn b)" f rn b "[]"] assms by (auto simp: GetPage_def)

lemma ExtendRel_ok:
  assumes "f < 256" "length p = BLCKSZ"
  shows "ExtendRel env (msg_of (page_fields f rn b @ p)) w = Some (mem32 1, smgrextend env rn f b p w)"
proof -
  obtain m1 where m1: "getmsg_tag (msg_of (page_fields f rn b @ p)) = Some (tag_of rn f b, m1)" "left m1 = p @ []"
    using getmsg_tag_ok [of "msg_of (page_fields f rn b @ p)" f rn b p] assms(1) by auto
  from copy_ok [OF m1(2) assms(2)] m1(1) show ?thesis by (auto simp: ExtendRel_def getmsgbytes_copy)
qed

lemma ApplyLsnListXlog_ok:
  assumes "f < 256" "length p = BLCKSZ" "length ls < 2 ^ 32"
    and "redo_lsns env (tag_of rn f b) ls (fill_page env (tag_of rn f b) p w) = Some w'"
  shows "ApplyLsnListXlog env (msg_of (page_fields f rn b @ list_fields ls @ p)) w = Some (reply_page env (tag_of rn f b) w')"
proof -
  let ?m = "msg_of (page_fields f rn b @ list_fields ls @ p)"
  obtain m1 where m1: "getmsg_tag ?m = Some (tag_of rn f b, m1)" "left m1 = list_fields ls @ p"
    using getmsg_tag_ok [of ?m f rn b "list_fields ls @ p"] assms(1) by auto
  obtain m2 m3 where m2: "pq_getmsgint m1 4 = Some (word_of_nat (length ls), m2)"
    "getmsg_lsns (unat (word_of_nat (length ls) :: u32)) m2 = Some (ls, m3)" "left m3 = p @ []"
    using getmsg_list_ok [OF m1(2) assms(3)] by auto
  obtain m4 where "pq_getmsgbytes m3 BLCKSZ = Some (p, m4)"
    using copy_ok [OF m2(3) assms(2)] by (auto simp: getmsgbytes_copy)
  with m1 m2 assms(4) show ?thesis by (simp add: ApplyLsnListXlog_def)
qed

lemma ApplyLsnListXlogWithoutBasePage_ok:
  assumes "f < 256" "length ls < 2 ^ 32" and "redo_lsns env (tag_of rn f b) ls w = Some w'"
  shows "ApplyLsnListXlogWithoutBasePage env (msg_of (page_fields f rn b @ list_fields ls)) w =
    Some (reply_page env (tag_of rn f b) w')"
proof -
  let ?m = "msg_of (page_fields f rn b @ list_fields ls)"
  obtain m1 where m1: "getmsg_tag ?m = Some (tag_of rn f b, m1)" "left m1 = list_fields ls @ []"
    using getmsg_tag_ok [of ?m f rn b "list_fields ls"] assms(1) by auto
  obtain m2 m3 where m2: "pq_getmsgint m1 4 = Some (word_of_nat (length ls), m2)"
    "getmsg_lsns (unat (word_of_nat (length ls) :: u32)) m2 = Some (ls, m3)"
    using getmsg_list_ok [OF m1(2) assms(2)] by auto
  with m1 assms(3) show ?thesis by (simp add: ApplyLsnListXlogWithoutBasePage_def)
qed

lemma ApplyOneXlog_ok:
  assumes "f < 256" "length p = BLCKSZ"
    and "redo_lsn env (tag_of rn f b) l (fill_page env (tag_of rn f b) p w) = Some w'"
  shows "ApplyOneXlog env (msg_of (page_fields f rn b @ mem64 (pg_hton64 l) @ p)) w = Some (reply_page env (tag_of rn f b) w')"
proof -
  let ?m = "msg_of (page_fields f rn b @ mem64 (pg_hton64 l) @ p)"
  obtain m1 where m1: "getmsg_tag ?m = Some (tag_of rn f b, m1)" "left m1 = mem64 (pg_hton64 l) @ p"
    using getmsg_tag_ok [of ?m f rn b "mem64 (pg_hton64 l) @ p"] assms(1) by auto
  obtain m2 where m2: "pq_copymsgbytes m1 8 = Some (mem64 (pg_hton64 l), m2)" "left m2 = p @ []"
    using copy_ok [OF m1(2), of 8] by auto
  obtain m3 where "pq_getmsgbytes m2 BLCKSZ = Some (p, m3)"
    using copy_ok [OF m2(2) assms(2)] by (auto simp: getmsgbytes_copy)
  with m1 m2 assms(3) show ?thesis by (simp add: ApplyOneXlog_def del: enc_le.simps)
qed

lemma ApplyOneXlogWithoutBasePage_ok:
  assumes "f < 256" and "redo_lsn env (tag_of rn f b) l w = Some w'"
  shows "ApplyOneXlogWithoutBasePage env (msg_of (page_fields f rn b @ mem64 (pg_hton64 l))) w =
    Some (reply_page env (tag_of rn f b) w')"
proof -
  let ?m = "msg_of (page_fields f rn b @ mem64 (pg_hton64 l))"
  obtain m1 where m1: "getmsg_tag ?m = Some (tag_of rn f b, m1)" "left m1 = mem64 (pg_hton64 l) @ []"
    using getmsg_tag_ok [of ?m f rn b "mem64 (pg_hton64 l)"] assms(1) by auto
  obtain m2 where "pq_copymsgbytes m1 8 = Some (mem64 (pg_hton64 l), m2)"
    using copy_ok [OF m1(2), of 8] by auto
  with m1 assms(2) show ?thesis by (simp add: ApplyOneXlogWithoutBasePage_def del: enc_le.simps)
qed

end
