(* ===== verification/RedoProps.thy ===== *)
theory RedoProps
  imports RedoCalls
begin

text \<open>
  The contract of the redo processes with the page server as a locale, interpreted on the calls of
  \<open>storage_server.c\<close>, and the properties of the redo protocol.
\<close>

section \<open>Calls end to end\<close>

lemma dispatch_simps:
  "WalRedo_dispatch env (ch (CHR ''O'')) msg p = run_handler (ApplyLsnListXlog env) False msg p"
  "WalRedo_dispatch env (ch (CHR ''o'')) msg p = run_handler (ApplyLsnListXlogWithoutBasePage env) False msg p"
  "WalRedo_dispatch env (ch (CHR ''M'')) msg p = run_handler (GetRelSize env) (wal_redo_buffer p) msg p"
  "WalRedo_dispatch env (ch (CHR ''G'')) msg p = run_handler (GetPage env) False msg p"
  "WalRedo_dispatch env (ch (CHR ''C'')) msg p = run_handler (CreateRel env) (wal_redo_buffer p) msg p"
  "WalRedo_dispatch env (ch (CHR ''F'')) msg p = run_handler (ExtendRel env) (wal_redo_buffer p) msg p"
  by (simp_all add: WalRedo_dispatch_def ch_def)

text \<open>The process that serves a call of the thread \<open>tid\<close>, and the pool after it has served one.\<close>

abbreviation server :: "nat \<Rightarrow> 'w redo_pool \<Rightarrow> 'w worker" where
  "server tid pool \<equiv> workers pool ! chosen_process tid (replayProcessMutex pool)"

definition served :: "nat \<Rightarrow> 'w redo_pool \<Rightarrow> 'w \<Rightarrow> bool \<Rightarrow> 'w redo_pool" where
  "served tid pool w v =
     pool\<lparr>workers := (workers pool)[chosen_process tid (replayProcessMutex pool) := (server tid pool)\<lparr>world := w, wal_redo_buffer := v\<rparr>]\<rparr>"

definition some_free :: "'w redo_pool \<Rightarrow> bool" where
  "some_free pool \<longleftrightarrow> (\<exists>j < REPLAY_PROCESS_NUM. \<not> replayProcessMutex pool ! j)"

lemma served_simps [simp]:
  "replayProcessMutex (served tid pool w v) = replayProcessMutex pool"
  "serverPipe (served tid pool w v) = serverPipe pool" "computePipe (served tid pool w v) = computePipe pool"
  "some_free (served tid pool w v) = some_free pool"
  by (simp_all add: served_def some_free_def)

lemma served_others: "j \<noteq> chosen_process tid (replayProcessMutex pool) \<Longrightarrow> workers (served tid pool w v) ! j = workers pool ! j"
  by (simp add: served_def)

lemma served_same: "served tid pool (world (server tid pool)) (wal_redo_buffer (server tid pool)) = pool"
proof -
  have "(server tid pool)\<lparr>world := world (server tid pool), wal_redo_buffer := wal_redo_buffer (server tid pool)\<rparr> = server tid pool"
    by simp
  then show ?thesis unfolding served_def by (simp only: list_update_id) simp
qed

lemma handler_call:
  assumes pool: "pool_ok pool" "some_free pool"
    and req: "framed req c payload" "length payload < 2 ^ 31 - 4" "target = int (length req)"
    and sc: "schedule_ok sc (length req) n" "0 < n"
    and disp: "WalRedo_dispatch env (ch c) (msg_of payload) (server tid pool) = run_handler h v (msg_of payload) (server tid pool)"
    and h: "h (msg_of payload) (world (server tid pool)) = Some (reply, w)" "length reply = n"
  shows "redo_call env sc tid req target n pool = Some (reply, served tid pool w v) \<and> pool_ok (served tid pool w v)"
proof -
  obtain j where j: "j < REPLAY_PROCESS_NUM" "\<not> replayProcessMutex pool ! j" using pool(2) by (auto simp: some_free_def)
  have "WalRedo_dispatch env (ch c) (msg_of payload) (server tid pool) =
      Some (reply, (server tid pool)\<lparr>world := w, wal_redo_buffer := v\<rparr>)"
    using disp h(1) by (simp add: run_handler_def)
  from redo_call_ok [OF pool(1) j req(1) [unfolded framed_def] req(2) sc this h(2)] req(3) show ?thesis
    by (simp add: served_def)
qed

text \<open>Pages in PostgreSQL's buffers have \<open>BLCKSZ\<close> bytes.\<close>

definition pages_full :: "('w, 'r) redo_env \<Rightarrow> bool" where
  "pages_full env \<longleftrightarrow> (\<forall>t w. length (fst (read_page env t w)) = BLCKSZ)"

lemma reply_page_eq: "pages_full env \<Longrightarrow> reply_page env t w = (fst (read_page env t w), snd (read_page env t w))"
proof -
  assume "pages_full env"
  then have "length (fst (read_page env t w)) = BLCKSZ" by (simp add: pages_full_def)
  then show ?thesis by (simp add: reply_page_def case_prod_beta)
qed

lemma ApplyLsnList_call:
  assumes "pool_ok pool" "some_free pool" "pages_full env" "f < 256" "length ls < 2 ^ 26" "length p = BLCKSZ"
    and "schedule_ok sc (8218 + 8 * length ls) BLCKSZ"
    and "redo_lsns env (tag_of rn f b) ls (fill_page env (tag_of rn f b) p (world (server tid pool))) = Some w"
  shows "ApplyLsnList env sc tid rn f b ls p pool =
      Some (fst (read_page env (tag_of rn f b) w), served tid pool (snd (read_page env (tag_of rn f b) w)) False) \<and>
    pool_ok (served tid pool (snd (read_page env (tag_of rn f b) w)) False)"
proof -
  have len: "length (ApplyLsnList_request rn f b ls p) = 8218 + 8 * length ls"
    using assms(6) by (simp add: ApplyLsnList_request_def del: enc_le.simps)
  have "ApplyLsnListXlog env (msg_of (page_fields f rn b @ list_fields ls @ p)) (world (server tid pool)) =
      Some (fst (read_page env (tag_of rn f b) w), snd (read_page env (tag_of rn f b) w))"
    using ApplyLsnListXlog_ok [OF assms(4,6) _ assms(8)] assms(3,5) by (simp add: reply_page_eq)
  from handler_call [OF assms(1,2) framed_requests(6) [OF assms(6)] _ _ _ _ dispatch_simps(1) this] assms len
  show ?thesis by (auto simp: ApplyLsnList_def sint_lengths pages_full_def)
qed

lemma ApplyLsnListAndGetUpdatedPage_call:
  assumes "pool_ok pool" "some_free pool" "pages_full env" "f < 256" "length ls < 2 ^ 26"
    and "schedule_ok sc (26 + 8 * length ls) BLCKSZ"
    and "redo_lsns env (tag_of rn f b) ls (world (server tid pool)) = Some w"
  shows "ApplyLsnListAndGetUpdatedPage env sc tid rn f b ls pool =
      Some (fst (read_page env (tag_of rn f b) w), served tid pool (snd (read_page env (tag_of rn f b) w)) False) \<and>
    pool_ok (served tid pool (snd (read_page env (tag_of rn f b) w)) False)"
proof -
  have len: "length (ApplyLsnListAndGetUpdatedPage_request rn f b ls) = 26 + 8 * length ls"
    by (simp add: ApplyLsnListAndGetUpdatedPage_request_def del: enc_le.simps)
  have "ApplyLsnListXlogWithoutBasePage env (msg_of (page_fields f rn b @ list_fields ls)) (world (server tid pool)) =
      Some (fst (read_page env (tag_of rn f b) w), snd (read_page env (tag_of rn f b) w))"
    using ApplyLsnListXlogWithoutBasePage_ok [OF assms(4) _ assms(7)] assms(3,5) by (simp add: reply_page_eq)
  from handler_call [OF assms(1,2) framed_requests(5) _ _ _ _ dispatch_simps(2) this] assms len
  show ?thesis by (auto simp: ApplyLsnListAndGetUpdatedPage_def sint_lengths pages_full_def)
qed

lemma GetBasePage_call:
  assumes "pool_ok pool" "some_free pool" "pages_full env" "f < 256" "schedule_ok sc 22 BLCKSZ"
  and r_def: "r = read_page env (tag_of rn f b) (world (server tid pool))"
  shows "GetBasePage env sc tid rn f b pool = Some (fst r, served tid pool (snd r) False) \<and>
    pool_ok (served tid pool (snd r) False)"
proof -
  have len: "length (GetBasePage_request rn f b) = 22"
    by (simp add: GetBasePage_request_def del: enc_le.simps)
  have "GetPage env (msg_of (page_fields f rn b)) (world (server tid pool)) = Some (fst r, snd r)"
    using GetPage_ok [OF assms(4), of env rn b] reply_page_eq [OF assms(3)] by (simp add: r_def)
  from handler_call [OF assms(1,2) framed_requests(8) _ _ _ _ dispatch_simps(4) this] assms len
  show ?thesis by (auto simp: GetBasePage_def pages_full_def)
qed

lemma SyncGetRelSize_call:
  assumes "pool_ok pool" "some_free pool" "f < 256" "schedule_ok sc 18 4"
  shows "SyncGetRelSize env sc tid rn f l pool =
    Some (if smgrexists env rn f (world (server tid pool)) then smgrnblocks env rn f (world (server tid pool)) else - 1, pool)"
proof -
  let ?w = "world (server tid pool)"
  have len: "length (SyncGetRelSize_request rn f) = 18"
    by (simp add: SyncGetRelSize_request_def del: enc_le.simps)
  have "redo_call env sc tid (SyncGetRelSize_request rn f) 18 4 pool =
      Some (mem32 (if smgrexists env rn f ?w then smgrnblocks env rn f ?w else - 1), served tid pool ?w (wal_redo_buffer (server tid pool))) \<and>
    pool_ok (served tid pool ?w (wal_redo_buffer (server tid pool)))"
    by (rule handler_call [OF assms(1,2) framed_requests(1) _ _ _ _ dispatch_simps(3) GetRelSize_ok [OF assms(3)]])
      (use assms len in simp_all)
  then show ?thesis by (simp add: SyncGetRelSize_def served_same del: enc_le.simps)
qed

lemma WalRedoCreateRel_call:
  assumes "pool_ok pool" "some_free pool" "f < 256" "schedule_ok sc 18 4"
  and "pool' = served tid pool (smgrcreate env rn f (world (server tid pool))) (wal_redo_buffer (server tid pool))"
  shows "WalRedoCreateRel env sc tid rn f pool = Some pool' \<and> pool_ok pool'"
proof -
  have len: "length (WalRedoCreateRel_request rn f) = 18"
    by (simp add: WalRedoCreateRel_request_def del: enc_le.simps)
  have "redo_call env sc tid (WalRedoCreateRel_request rn f) 18 4 pool = Some (mem32 1, pool') \<and> pool_ok pool'"
    unfolding assms(5)
    by (rule handler_call [OF assms(1,2) framed_requests(2) _ _ _ _ dispatch_simps(5) CreateRel_ok [OF assms(3)]])
      (use assms len in simp_all)
  then show ?thesis by (simp add: WalRedoCreateRel_def)
qed

lemma WalRedoExtendRel_call:
  assumes "pool_ok pool" "some_free pool" "f < 256" "length p = BLCKSZ" "schedule_ok sc 8214 4"
  and "pool' = served tid pool (smgrextend env rn f b p (world (server tid pool))) (wal_redo_buffer (server tid pool))"
  shows "WalRedoExtendRel env sc tid rn f b p pool = Some (mem32 1 @ drop 4 p, pool') \<and> pool_ok pool'"
proof -
  have len: "length (WalRedoExtendRel_request rn f b p) = 8214"
    using assms(4) by (simp add: WalRedoExtendRel_request_def del: enc_le.simps)
  have "redo_call env sc tid (WalRedoExtendRel_request rn f b p) 8214 4 pool = Some (mem32 1, pool') \<and> pool_ok pool'"
    unfolding assms(6)
    by (rule handler_call [OF assms(1,2) framed_requests(7) [OF assms(4)] _ _ _ _ dispatch_simps(6) ExtendRel_ok [OF assms(3,4)]])
      (use assms len in simp_all)
  then show ?thesis by (simp add: WalRedoExtendRel_def)
qed

section \<open>The contract\<close>

locale redo_service =
  fixes env :: "'e \<Rightarrow> bool"
    and idle :: "'e \<Rightarrow> 's \<Rightarrow> bool"
    and base :: "'e \<Rightarrow> BufferTag \<Rightarrow> bytes"
    and replayed :: "'e \<Rightarrow> BufferTag \<Rightarrow> u64 list \<Rightarrow> bytes \<Rightarrow> bytes"
    and apply_list :: "'e \<Rightarrow> 's \<Rightarrow> BufferTag \<Rightarrow> u64 list \<Rightarrow> bytes \<Rightarrow> (bytes \<times> 's) option"
    and apply_disk :: "'e \<Rightarrow> 's \<Rightarrow> BufferTag \<Rightarrow> u64 list \<Rightarrow> (bytes \<times> 's) option"
    and base_page :: "'e \<Rightarrow> 's \<Rightarrow> BufferTag \<Rightarrow> (bytes \<times> 's) option"
  assumes apply_law: "env e \<Longrightarrow> idle e s \<Longrightarrow> forkNum t < 256 \<Longrightarrow> length ls < 2 ^ 26 \<Longrightarrow> length p = BLCKSZ \<Longrightarrow>
      \<exists>s'. apply_list e s t ls p = Some (replayed e t ls p, s') \<and> idle e s'"
    and disk_law: "env e \<Longrightarrow> idle e s \<Longrightarrow> forkNum t < 256 \<Longrightarrow> length ls < 2 ^ 26 \<Longrightarrow>
      \<exists>s'. apply_disk e s t ls = Some (replayed e t ls (base e t), s') \<and> idle e s'"
    and base_law: "env e \<Longrightarrow> idle e s \<Longrightarrow> forkNum t < 256 \<Longrightarrow>
      \<exists>s'. base_page e s t = Some (base e t, s') \<and> idle e s'"
    and size_law: "env e \<Longrightarrow> length p = BLCKSZ \<Longrightarrow> length (replayed e t ls p) = BLCKSZ"
    and base_size_law: "env e \<Longrightarrow> length (base e t) = BLCKSZ"
    and append_law: "env e \<Longrightarrow> length p = BLCKSZ \<Longrightarrow> replayed e t (ls @ ls') p = replayed e t ls' (replayed e t ls p)"
    and nil_law: "env e \<Longrightarrow> length p = BLCKSZ \<Longrightarrow> replayed e t [] p = p"
begin

text \<open>Replaying from the disk and going on later gives the page of one replay.\<close>

lemma disk_then_apply:
  assumes "env e" "idle e s" "forkNum t < 256" "length (ls @ ls') < 2 ^ 26"
  shows "\<exists>p1 s1 s2. apply_disk e s t ls = Some (p1, s1) \<and>
    apply_list e s1 t ls' p1 = Some (replayed e t (ls @ ls') (base e t), s2) \<and> idle e s2"
proof -
  obtain s1 where s1: "apply_disk e s t ls = Some (replayed e t ls (base e t), s1)" "idle e s1"
    using disk_law [of e s t ls] assms by auto
  with apply_law [of e s1 t ls' "replayed e t ls (base e t)"] size_law [of e "base e t" t ls]
    append_law [of e "base e t" t ls ls'] base_size_law [of e t] assms
  show ?thesis by auto
qed

end

text \<open>
  A client of the pool: the redo routines, how the system calls turn out for a request and a reply
  of given lengths, the calling thread; what the state of a process satisfies between commands,
  the page images on disk, and what replaying a list of records makes of a page.
\<close>

record ('w, 'r) redo_client =
  rc_env :: "('w, 'r) redo_env"
  rc_sched :: "nat \<Rightarrow> nat \<Rightarrow> schedule"
  rc_tid :: nat
  rc_inv :: "'w \<Rightarrow> bool"
  rc_base :: "BufferTag \<Rightarrow> bytes"
  rc_page :: "BufferTag \<Rightarrow> u64 list \<Rightarrow> bytes \<Rightarrow> bytes"

text \<open>
  What the server relies on. System calls make progress. Records of the index can be read, and
  replaying them on a page that is sent along depends on nothing but the records and the page;
  replaying them without one starts from the page on disk. Replaying can be split.
\<close>

definition redo_ok :: "('w, 'r) redo_client \<Rightarrow> bool" where
  "redo_ok c \<longleftrightarrow> pages_full (rc_env c) \<and> (\<exists>w. rc_inv c w) \<and>
     (\<forall>req n. 0 < n \<longrightarrow> schedule_ok (rc_sched c req n) req n) \<and>
     (\<forall>t ls p w. rc_inv c w \<longrightarrow> length p = BLCKSZ \<longrightarrow>
        (\<exists>w'. redo_lsns (rc_env c) t ls (fill_page (rc_env c) t p w) = Some w' \<and>
           fst (read_page (rc_env c) t w') = rc_page c t ls p \<and> rc_inv c (snd (read_page (rc_env c) t w')))) \<and>
     (\<forall>t ls w. rc_inv c w \<longrightarrow>
        (\<exists>w'. redo_lsns (rc_env c) t ls w = Some w' \<and>
           fst (read_page (rc_env c) t w') = rc_page c t ls (rc_base c t) \<and> rc_inv c (snd (read_page (rc_env c) t w')))) \<and>
     (\<forall>t. length (rc_base c t) = BLCKSZ) \<and>
     (\<forall>t p. length p = BLCKSZ \<longrightarrow> rc_page c t [] p = p) \<and>
     (\<forall>t ls ls' p. length p = BLCKSZ \<longrightarrow> rc_page c t (ls @ ls') p = rc_page c t ls' (rc_page c t ls p))"

definition pool_idle :: "('w, 'r) redo_client \<Rightarrow> 'w redo_pool \<Rightarrow> bool" where
  "pool_idle c pool \<longleftrightarrow> pool_ok pool \<and> some_free pool \<and> (\<forall>p \<in> set (workers pool). rc_inv c (world p))"

abbreviation apply_list :: "('w, 'r) redo_client \<Rightarrow> 'w redo_pool \<Rightarrow> BufferTag \<Rightarrow> u64 list \<Rightarrow> bytes \<Rightarrow> (bytes \<times> 'w redo_pool) option" where
  "apply_list c pool t ls p \<equiv>
     ApplyLsnList (rc_env c) (rc_sched c (8218 + 8 * length ls) BLCKSZ) (rc_tid c) (rnode t) (forkNum t) (blockNum t) ls p pool"

abbreviation apply_disk :: "('w, 'r) redo_client \<Rightarrow> 'w redo_pool \<Rightarrow> BufferTag \<Rightarrow> u64 list \<Rightarrow> (bytes \<times> 'w redo_pool) option" where
  "apply_disk c pool t ls \<equiv>
     ApplyLsnListAndGetUpdatedPage (rc_env c) (rc_sched c (26 + 8 * length ls) BLCKSZ) (rc_tid c) (rnode t) (forkNum t) (blockNum t) ls pool"

abbreviation base_page :: "('w, 'r) redo_client \<Rightarrow> 'w redo_pool \<Rightarrow> BufferTag \<Rightarrow> (bytes \<times> 'w redo_pool) option" where
  "base_page c pool t \<equiv> GetBasePage (rc_env c) (rc_sched c 22 BLCKSZ) (rc_tid c) (rnode t) (forkNum t) (blockNum t) pool"

lemma tag_collapse [simp]: "tag_of (rnode t) (forkNum t) (blockNum t) = t"
  by (cases t) simp

lemma server_member: "pool_ok pool \<Longrightarrow> some_free pool \<Longrightarrow> server tid pool \<in> set (workers pool)"
  using lock_replay_process_ok(2) by (auto simp: some_free_def pool_ok_def intro!: nth_mem)

lemma pool_idle_served:
  "pool_idle c pool \<Longrightarrow> pool_ok (served tid pool w v) \<Longrightarrow> rc_inv c w \<Longrightarrow> pool_idle c (served tid pool w v)"
  unfolding pool_idle_def by (auto simp: served_def some_free_def dest!: set_mp [OF set_update_subset_insert])

lemma redo_okD:
  assumes "redo_ok c"
  shows "pages_full (rc_env c)" "0 < n \<Longrightarrow> schedule_ok (rc_sched c req n) req n"
    and "rc_inv c w \<Longrightarrow> length p = BLCKSZ \<Longrightarrow>
        \<exists>w'. redo_lsns (rc_env c) t ls (fill_page (rc_env c) t p w) = Some w' \<and>
           fst (read_page (rc_env c) t w') = rc_page c t ls p \<and> rc_inv c (snd (read_page (rc_env c) t w'))"
    and "rc_inv c w \<Longrightarrow>
        \<exists>w'. redo_lsns (rc_env c) t ls w = Some w' \<and>
           fst (read_page (rc_env c) t w') = rc_page c t ls (rc_base c t) \<and> rc_inv c (snd (read_page (rc_env c) t w'))"
    and "length (rc_base c t) = BLCKSZ" "length p = BLCKSZ \<Longrightarrow> rc_page c t [] p = p"
    and "length p = BLCKSZ \<Longrightarrow> rc_page c t (ls @ ls') p = rc_page c t ls' (rc_page c t ls p)"
  using assms unfolding redo_ok_def by blast+

interpretation redo: redo_service redo_ok pool_idle rc_base rc_page apply_list apply_disk base_page
proof
  fix c :: "('w, 'r) redo_client" and pool :: "'w redo_pool" and t :: BufferTag and ls p
  assume c: "redo_ok c" and pool: "pool_idle c pool" and f: "forkNum t < 256"
  let ?w = "world (server (rc_tid c) pool)"
  note env = redo_okD [OF c]
  have idle: "pool_ok pool" "some_free pool" "rc_inv c ?w"
    using pool server_member [of pool "rc_tid c"] by (auto simp: pool_idle_def)
  show "\<exists>pool'. apply_list c pool t ls p = Some (rc_page c t ls p, pool') \<and> pool_idle c pool'"
    if len: "length ls < 2 ^ 26" and full: "length p = BLCKSZ"
  proof -
    obtain w' where w': "redo_lsns (rc_env c) t ls (fill_page (rc_env c) t p ?w) = Some w'"
      "fst (read_page (rc_env c) t w') = rc_page c t ls p" "rc_inv c (snd (read_page (rc_env c) t w'))"
      using env(3) [OF idle(3) full] by blast
    with ApplyLsnList_call [of pool "rc_env c" "forkNum t" ls p _ "rnode t" "blockNum t" "rc_tid c" w', OF idle(1,2) env(1) f len full env(2)]
      pool_idle_served [OF pool] show ?thesis by auto
  qed
  show "\<exists>pool'. apply_disk c pool t ls = Some (rc_page c t ls (rc_base c t), pool') \<and> pool_idle c pool'" if len: "length ls < 2 ^ 26"
  proof -
    obtain w' where w': "redo_lsns (rc_env c) t ls ?w = Some w'"
      "fst (read_page (rc_env c) t w') = rc_page c t ls (rc_base c t)" "rc_inv c (snd (read_page (rc_env c) t w'))"
      using env(4) [OF idle(3)] by blast
    with ApplyLsnListAndGetUpdatedPage_call [of pool "rc_env c" "forkNum t" ls _ "rnode t" "blockNum t" "rc_tid c" w', OF idle(1,2) env(1) f len env(2)]
      pool_idle_served [OF pool] show ?thesis by auto
  qed
  show "\<exists>pool'. base_page c pool t = Some (rc_base c t, pool') \<and> pool_idle c pool'"
  proof -
    obtain w' where "redo_lsns (rc_env c) t [] ?w = Some w'"
      "fst (read_page (rc_env c) t w') = rc_page c t [] (rc_base c t)" "rc_inv c (snd (read_page (rc_env c) t w'))"
      using env(4) [OF idle(3)] by blast
    then have w': "fst (read_page (rc_env c) t ?w) = rc_base c t" "rc_inv c (snd (read_page (rc_env c) t ?w))"
      using env(5,6) by auto
    with GetBasePage_call [of pool "rc_env c" "forkNum t" "rc_sched c 22 BLCKSZ" _ "rnode t" "blockNum t" "rc_tid c",
        OF idle(1,2) env(1) f env(2) refl] pool_idle_served [OF pool] show ?thesis by auto
  qed
next
  fix c :: "('w, 'r) redo_client" and p :: bytes and ls and t :: BufferTag
  assume c: "redo_ok c" and p: "length p = BLCKSZ"
  obtain w where "rc_inv c w" using c by (auto simp: redo_ok_def)
  then obtain w' where "fst (read_page (rc_env c) t w') = rc_page c t ls p" using redo_okD(3) [OF c _ p] by blast
  then have "length (rc_page c t ls p) = length (fst (read_page (rc_env c) t w'))" by simp
  then show "length (rc_page c t ls p) = BLCKSZ" using redo_okD(1) [OF c] by (simp add: pages_full_def)
qed (simp_all add: redo_okD)

section \<open>An example environment\<close>

text \<open>
  The state of a process is the page in its buffer, if any, and the position of the WAL reader; a
  record, which is its own LSN, sets the first byte of the page. Sending a page empties the buffer,
  and the pages on disk are zero.
\<close>

definition touch :: "u64 \<Rightarrow> bytes \<Rightarrow> bytes" where
  "touch l p = p[0 := ucast l]"

definition zero_page :: bytes where
  "zero_page = replicate BLCKSZ 0"

definition buffered :: "bytes option \<Rightarrow> bytes" where
  "buffered b = (case b of None \<Rightarrow> zero_page | Some p \<Rightarrow> take BLCKSZ (p @ zero_page))"

definition demo_redo :: "(bytes option \<times> u64, u64) redo_env" where
  "demo_redo = \<lparr>XLogBeginRead = (\<lambda>l w. (fst w, l)), XLogReadRecord = (\<lambda>w. (Some (snd w), w)),
     DecodeXLogRecord = (\<lambda>l bs w. (None, w)), EndRecPtr = snd, checkPoint = (\<lambda>w. Some 1),
     polar_xlog_decode_data = (\<lambda>w. w), xl_rmid = (\<lambda>r. 10),
     polar_idx_redo = (\<lambda>i r t w. (BLK_NEEDS_REDO, (Some (touch r (buffered (fst w))), snd w))), rm_redo = (\<lambda>r w. w),
     read_page = (\<lambda>t w. (buffered (fst w), (None, snd w))), fill_page = (\<lambda>t p w. (Some p, snd w)),
     smgrexists = (\<lambda>rn f w. f = 0), smgrnblocks = (\<lambda>rn f w. 12), smgrcreate = (\<lambda>rn f w. w),
     smgrextend = (\<lambda>rn f b p w. w)\<rparr>"

definition full_sched :: "nat \<Rightarrow> nat \<Rightarrow> schedule" where
  "full_sched req n = \<lparr>client_writes = [int req], client_reads = [WouldBlock, Avail n],
     worker_reads = replicate (Suc (req div STDIN_BUF_SIZE)) (Avail STDIN_BUF_SIZE), worker_writes = [Interrupted, Wrote n]\<rparr>"

definition demo_client :: "(bytes option \<times> u64, u64) redo_client" where
  "demo_client = \<lparr>rc_env = demo_redo, rc_sched = full_sched, rc_tid = 7, rc_inv = (\<lambda>w. fst w = None),
     rc_base = (\<lambda>t. zero_page), rc_page = (\<lambda>t ls p. fold touch ls p)\<rparr>"

definition demo_pool :: "(bytes option \<times> u64) redo_pool" where
  "demo_pool = \<lparr>replayProcessMutex = [True, False, True, False, False], serverPipe = replicate 5 [],
     computePipe = replicate 5 [],
     workers = replicate 5 \<lparr>stdin_buf = [], target_redo_tag = tag_of \<lparr>spcNode = 0, dbNode = 0, relNode = 0\<rparr> 0 0,
                            wal_redo_buffer = False, world = (None, 0)\<rparr>\<rparr>"

lemma length_touch [simp]: "length (touch l p) = length p" "length (fold touch ls p) = length p"
proof -
  show "length (touch l p) = length p" for l p by (simp add: touch_def)
  then show "length (fold touch ls p) = length p" by (induction ls arbitrary: p) simp_all
qed

lemma length_buffered [simp]: "length (buffered b) = BLCKSZ" "length zero_page = BLCKSZ"
  by (auto simp: buffered_def zero_page_def min_def split: option.splits)

lemma buffered_simps [simp]: "buffered None = zero_page" "length p = BLCKSZ \<Longrightarrow> buffered (Some p) = p"
  by (simp_all add: buffered_def)

lemma reads_cover_replicate: "n \<le> k * lim \<Longrightarrow> reads_cover lim n (replicate k (Avail lim))"
  by (induction k arbitrary: n) auto

lemma full_sched_ok: "0 < n \<Longrightarrow> schedule_ok (full_sched req n) req n"
proof -
  have "req \<le> Suc (req div STDIN_BUF_SIZE) * STDIN_BUF_SIZE"
    using div_mult_mod_eq [of req STDIN_BUF_SIZE] mod_less_divisor [of STDIN_BUF_SIZE req] by simp
  from reads_cover_replicate [OF this] show "0 < n \<Longrightarrow> ?thesis"
    by (simp add: schedule_ok_def full_sched_def del: replicate_Suc)
qed

lemma demo_redo_simps:
  "read_page demo_redo t w = (buffered (fst w), (None, snd w))" "fill_page demo_redo t p w = (Some p, snd w)"
  "redo_lsn demo_redo t l w = Some (Some (touch l (buffered (fst w))), l)"
  by (simp_all add: demo_redo_def redo_lsn_def redo_record_def idx_rmids_def)

lemma demo_redo_lsns:
  "\<exists>b. redo_lsns demo_redo t ls w = Some (b, last (snd w # ls)) \<and> buffered b = fold touch ls (buffered (fst w))"
proof (induction ls arbitrary: w)
  case (Cons l ls)
  from Cons [of "(Some (touch l (buffered (fst w))), l)"] show ?case by (simp add: demo_redo_simps)
next
  case Nil
  show ?case by (cases w) auto
qed

lemma demo_client_ok: "redo_ok demo_client"
proof -
  have *: "\<exists>b v. redo_lsns demo_redo t ls (a, l) = Some (b, v) \<and> buffered b = fold touch ls (buffered a)" for t ls a l
    using demo_redo_lsns [of t ls "(a, l)"] by auto
  then have "\<exists>b. (\<exists>v. redo_lsns demo_redo t ls (Some p, l) = Some (b, v)) \<and> buffered b = fold touch ls p"
    if "length p = BLCKSZ" for t ls p l using * [of t ls "Some p" l] that by auto
  moreover have "\<exists>b. (\<exists>v. redo_lsns demo_redo t ls (None, l) = Some (b, v)) \<and> buffered b = fold touch ls zero_page" for t ls l
    using * [of t ls None l] by auto
  ultimately show ?thesis
    unfolding redo_ok_def pages_full_def demo_client_def
    by (simp add: demo_redo_simps full_sched_ok)
qed

lemma demo_pool_idle: "pool_ok demo_pool" "some_free demo_pool" "pool_idle demo_client demo_pool"
proof -
  show ok: "pool_ok demo_pool" by (simp add: pool_ok_def demo_pool_def)
  have "\<not> replayProcessMutex demo_pool ! 1" by (simp add: demo_pool_def)
  then show free: "some_free demo_pool" unfolding some_free_def by (intro exI [of _ 1]) simp
  show "pool_idle demo_client demo_pool" using ok free by (simp add: pool_idle_def demo_pool_def demo_client_def)
qed

section \<open>Properties\<close>



text \<open>C17: \<open>SyncGetRelSize\<close> returns the number of blocks of the relation fork if it exists and -1 if it
  does not, and leaves the pool as it was.\<close>

theorem rel_size_call:
  assumes "pool_ok pool" and "some_free pool" and "f < 256" and "schedule_ok sc 18 4"
  shows "SyncGetRelSize env sc tid rn f l pool =
    Some (if smgrexists env rn f (world (server tid pool)) then smgrnblocks env rn f (world (server tid pool)) else - 1, pool)"
  by (rule SyncGetRelSize_call [OF assms])

theorem rel_size_call_witness:
  "SyncGetRelSize demo_redo (full_sched 18 4) 7 \<lparr>spcNode = 1663, dbNode = 13580, relNode = 16384\<rparr> 0 0 demo_pool = Some (12, demo_pool) \<and>
   SyncGetRelSize demo_redo (full_sched 18 4) 7 \<lparr>spcNode = 1663, dbNode = 13580, relNode = 16384\<rparr> 1 0 demo_pool = Some (- 1, demo_pool)"
proof -
  have smgr: "smgrexists demo_redo rn f w = (f = 0)" "smgrnblocks demo_redo rn f w = 12" for rn f w
    by (simp_all add: demo_redo_def)
  let ?rn = "\<lparr>spcNode = 1663, dbNode = 13580, relNode = 16384\<rparr> :: RelFileNode"
  show ?thesis
    using rel_size_call [of demo_pool 0 "full_sched 18 4" demo_redo 7 ?rn 0]
      rel_size_call [of demo_pool 1 "full_sched 18 4" demo_redo 7 ?rn 0]
      demo_pool_idle full_sched_ok [of 4 18] by (simp add: smgr)
qed

text \<open>C18: \<open>buffered_read\<close> returns the next \<open>count\<close> bytes of the stream, that is, of its buffer followed by
  the pipe, and loses none of the rest, whatever the sizes of the single reads are and however
  often they find nothing.\<close>

theorem buffered_read_order:
  assumes "count \<le> length (buf @ pipe)" and "reads_cover STDIN_BUF_SIZE (length pipe) ios"
  shows "\<exists>buf' pipe' ios'. buffered_read count [] buf ios pipe = Some (Some (take count (buf @ pipe)), buf', pipe', ios') \<and>
    buf' @ pipe' = drop count (buf @ pipe)"
  using buffered_read_stream [OF assms, of "[]"] by auto

theorem buffered_read_order_witness:
  "\<exists>buf' pipe' ios'. buffered_read 4 [] [1] [Avail 2, WouldBlock, Avail 7] [2, 3, 4, 5, 6] =
      Some (Some [1, 2, 3, 4], buf', pipe', ios') \<and> buf' @ pipe' = [5, 6]"
  using buffered_read_order [of 4 "[1]" "[2, 3, 4, 5, 6]" "[Avail 2, WouldBlock, Avail 7]"] by simp

text \<open>C19: a thread takes the first process, counted from its own one, whose mutex is free, and locks
  that mutex only; it waits only when every process is busy.\<close>

theorem first_free_process:
  assumes "length ms = REPLAY_PROCESS_NUM"
  shows "(case lock_replay_process tid ms of
      None \<Rightarrow> \<forall>j < REPLAY_PROCESS_NUM. ms ! j
    | Some (j, ms') \<Rightarrow> \<not> ms ! j \<and> ms' = ms[j := True] \<and>
        (\<exists>k < REPLAY_PROCESS_NUM. j = (tid + k) mod REPLAY_PROCESS_NUM \<and> (\<forall>k' < k. ms ! ((tid + k') mod REPLAY_PROCESS_NUM))))"
proof (cases "\<exists>j < REPLAY_PROCESS_NUM. \<not> ms ! j")
  case True
  then obtain j where j: "j < REPLAY_PROCESS_NUM" "\<not> ms ! j" by blast
  let ?r = "tid mod REPLAY_PROCESS_NUM"
  note lock = lock_replay_process_ok [OF j, of tid]
  have "try_locks ms ?r 0 REPLAY_PROCESS_NUM \<noteq> None"
    using try_locks_None [of ms ?r 0 REPLAY_PROCESS_NUM] mod5_shift [OF j(1), of tid] j(2) by auto
  then obtain c where c: "try_locks ms ?r 0 REPLAY_PROCESS_NUM = Some c" by blast
  then have "chosen_process tid ms = c" by (simp add: chosen_process_def)
  with lock try_locks_Some [OF c] show ?thesis by (auto simp: mod_add_left_eq)
next
  case False
  then have "ms ! (tid mod REPLAY_PROCESS_NUM)" by simp
  moreover have "try_locks ms (tid mod REPLAY_PROCESS_NUM) 0 REPLAY_PROCESS_NUM = None"
  proof (cases "try_locks ms (tid mod REPLAY_PROCESS_NUM) 0 REPLAY_PROCESS_NUM")
    case (Some c)
    from try_locks_Some [OF Some] have "c < REPLAY_PROCESS_NUM" "\<not> ms ! c" by auto
    with False show ?thesis by blast
  qed
  ultimately have "lock_replay_process tid ms = None" by (simp add: lock_replay_process_def)
  with False show ?thesis by simp
qed

theorem first_free_process_witness:
  "lock_replay_process 7 [True, False, True, False, False] = Some (3, [True, False, True, True, False]) \<and>
   \<not> [True, False, True, False, False] ! 3"
  using first_free_process [of "[True, False, True, False, False]" 7]
  by (simp add: lock_replay_process_def try_locks_unfold)

text \<open>C20: the send loops add the result of \<open>write\<close> to the number of bytes sent even when it is -1. After
  \<open>k\<close> bytes a failed call makes the loop send the byte at \<open>k - 1\<close> a second time, so that the redo
  process reads a shifted message; a failure of the first call makes it read before the buffer.\<close>

theorem failed_write_resends:
  assumes "0 < k" and "k < length buf"
  shows "send_loop buf (int (length buf)) 0 [int k, -1, int (length buf) - int k + 1] pipe =
      Some (pipe @ take k buf @ drop (k - 1) buf, []) \<and>
    send_loop buf (int (length buf)) 0 [-1, w] pipe = None"
proof
  have "nat (int k - 1) = k - 1" "nat (int (length buf) - int k + 1) = length buf - k + 1" "buf \<noteq> []"
    using assms by auto
  with assms show "send_loop buf (int (length buf)) 0 [int k, -1, int (length buf) - int k + 1] pipe =
      Some (pipe @ take k buf @ drop (k - 1) buf, [])" by simp
  from assms have "buf \<noteq> []" by auto
  then show "send_loop buf (int (length buf)) 0 [-1, w] pipe = None" by simp
qed

theorem failed_write_resends_witness:
  "send_loop [77, 0, 0, 0, 17, 1] 6 0 [2, -1, 5] [] = Some ([77, 0, 0, 0, 0, 17, 1], [])"
  using failed_write_resends [of 2 "[77, 0, 0, 0, 17, 1]" "[]" 1] by simp

end
