(* ===== verification/WalRecord.thy ===== *)
theory WalRecord
  imports KvStore
begin

unbundle bit_operations_syntax

text \<open>
  Decoded WAL records as the log index sees them, and the pass that adds the visibility-map blocks
  of heap records to a decoded record: \<open>polar_xlog_decode_data\<close> of \<open>polar_logindex.c\<close>.
\<close>

section \<open>Records\<close>

record DecodedBkpBlock =
  in_use :: bool
  blk_rnode :: RelFileNode
  forknum :: u32
  blkno :: u32
  has_image :: bool
  apply_image :: bool
  has_data :: bool

text \<open>
  The part of \<open>XLogReaderState\<close> that is used. \<open>blocks\<close> is an array of \<open>XLR_MAX_BLOCK_ID\<close> + 1 entries;
  \<open>max_block_id\<close> is -1 when the record has no block references.
\<close>

record XLogReaderState =
  ReadRecPtr :: u64
  rmid :: u8
  xl_info :: u8
  max_block_id :: int
  blocks :: "nat \<Rightarrow> DecodedBkpBlock"
  main_data :: bytes

abbreviation (input) XLR_MAX_BLOCK_ID :: nat where "XLR_MAX_BLOCK_ID \<equiv> 32"
abbreviation (input) MAIN_FORKNUM :: u32 where "MAIN_FORKNUM \<equiv> 0"
abbreviation (input) VISIBILITYMAP_FORKNUM :: u32 where "VISIBILITYMAP_FORKNUM \<equiv> 2"

definition XLogRecHasBlockRef :: "XLogReaderState \<Rightarrow> nat \<Rightarrow> bool" where
  "XLogRecHasBlockRef r i = in_use (blocks r i)"

definition block_tag :: "DecodedBkpBlock \<Rightarrow> BufferTag" where
  "block_tag b = \<lparr>rnode = blk_rnode b, forkNum = forknum b, blockNum = blkno b\<rparr>"

definition XLogRecGetBlockTag :: "XLogReaderState \<Rightarrow> nat \<Rightarrow> BufferTag option" where
  "XLogRecGetBlockTag r i = (if in_use (blocks r i) then Some (block_tag (blocks r i)) else None)"

text \<open>The operation code: \<open>XLogRecGetInfo (record) & ~XLR_INFO_MASK\<close>.\<close>

definition rec_info :: "XLogReaderState \<Rightarrow> u8" where
  "rec_info r = xl_info r AND 0xF0"

text \<open>Resource managers (\<open>rmgrlist.h\<close>).\<close>

abbreviation (input) RM_XLOG_ID :: u8 where "RM_XLOG_ID \<equiv> 0"
abbreviation (input) RM_SMGR_ID :: u8 where "RM_SMGR_ID \<equiv> 2"
abbreviation (input) RM_HEAP2_ID :: u8 where "RM_HEAP2_ID \<equiv> 9"
abbreviation (input) RM_HEAP_ID :: u8 where "RM_HEAP_ID \<equiv> 10"
abbreviation (input) RM_BTREE_ID :: u8 where "RM_BTREE_ID \<equiv> 11"
abbreviation (input) RM_HASH_ID :: u8 where "RM_HASH_ID \<equiv> 12"
abbreviation (input) RM_GIN_ID :: u8 where "RM_GIN_ID \<equiv> 13"
abbreviation (input) RM_GIST_ID :: u8 where "RM_GIST_ID \<equiv> 14"
abbreviation (input) RM_SEQ_ID :: u8 where "RM_SEQ_ID \<equiv> 15"
abbreviation (input) RM_SPGIST_ID :: u8 where "RM_SPGIST_ID \<equiv> 16"
abbreviation (input) RM_BRIN_ID :: u8 where "RM_BRIN_ID \<equiv> 17"
abbreviation (input) RM_GENERIC_ID :: u8 where "RM_GENERIC_ID \<equiv> 20"

text \<open>Operation codes of the heap (\<open>heapam_xlog.h\<close>).\<close>

abbreviation (input) XLOG_HEAP_OPMASK :: u8 where "XLOG_HEAP_OPMASK \<equiv> 0x70"
abbreviation (input) XLOG_HEAP_INSERT :: u8 where "XLOG_HEAP_INSERT \<equiv> 0x00"
abbreviation (input) XLOG_HEAP_DELETE :: u8 where "XLOG_HEAP_DELETE \<equiv> 0x10"
abbreviation (input) XLOG_HEAP_UPDATE :: u8 where "XLOG_HEAP_UPDATE \<equiv> 0x20"
abbreviation (input) XLOG_HEAP_TRUNCATE :: u8 where "XLOG_HEAP_TRUNCATE \<equiv> 0x30"
abbreviation (input) XLOG_HEAP_HOT_UPDATE :: u8 where "XLOG_HEAP_HOT_UPDATE \<equiv> 0x40"
abbreviation (input) XLOG_HEAP_CONFIRM :: u8 where "XLOG_HEAP_CONFIRM \<equiv> 0x50"
abbreviation (input) XLOG_HEAP_LOCK :: u8 where "XLOG_HEAP_LOCK \<equiv> 0x60"
abbreviation (input) XLOG_HEAP_INPLACE :: u8 where "XLOG_HEAP_INPLACE \<equiv> 0x70"
abbreviation (input) XLOG_HEAP_INIT_PAGE :: u8 where "XLOG_HEAP_INIT_PAGE \<equiv> 0x80"
abbreviation (input) XLOG_HEAP2_REWRITE :: u8 where "XLOG_HEAP2_REWRITE \<equiv> 0x00"
abbreviation (input) XLOG_HEAP2_CLEAN :: u8 where "XLOG_HEAP2_CLEAN \<equiv> 0x10"
abbreviation (input) XLOG_HEAP2_FREEZE_PAGE :: u8 where "XLOG_HEAP2_FREEZE_PAGE \<equiv> 0x20"
abbreviation (input) XLOG_HEAP2_CLEANUP_INFO :: u8 where "XLOG_HEAP2_CLEANUP_INFO \<equiv> 0x30"
abbreviation (input) XLOG_HEAP2_VISIBLE :: u8 where "XLOG_HEAP2_VISIBLE \<equiv> 0x40"
abbreviation (input) XLOG_HEAP2_MULTI_INSERT :: u8 where "XLOG_HEAP2_MULTI_INSERT \<equiv> 0x50"
abbreviation (input) XLOG_HEAP2_LOCK_UPDATED :: u8 where "XLOG_HEAP2_LOCK_UPDATED \<equiv> 0x60"
abbreviation (input) XLOG_HEAP2_NEW_CID :: u8 where "XLOG_HEAP2_NEW_CID \<equiv> 0x70"

abbreviation (input) XLH_INSERT_ALL_VISIBLE_CLEARED :: u8 where "XLH_INSERT_ALL_VISIBLE_CLEARED \<equiv> 1"
abbreviation (input) XLH_DELETE_ALL_VISIBLE_CLEARED :: u8 where "XLH_DELETE_ALL_VISIBLE_CLEARED \<equiv> 1"
abbreviation (input) XLH_UPDATE_OLD_ALL_VISIBLE_CLEARED :: u8 where "XLH_UPDATE_OLD_ALL_VISIBLE_CLEARED \<equiv> 1"
abbreviation (input) XLH_UPDATE_NEW_ALL_VISIBLE_CLEARED :: u8 where "XLH_UPDATE_NEW_ALL_VISIBLE_CLEARED \<equiv> 2"
abbreviation (input) XLH_LOCK_ALL_FROZEN_CLEARED :: u8 where "XLH_LOCK_ALL_FROZEN_CLEARED \<equiv> 1"

text \<open>
  The \<open>flags\<close> field of the fixed part of a heap record, at its offset in the struct: 2 for
  \<open>xl_heap_insert\<close>, 0 for \<open>xl_heap_multi_insert\<close>, 7 for the other four. Reading past the main data
  is a fault.
\<close>

definition flag_set :: "XLogReaderState \<Rightarrow> int \<Rightarrow> u8 \<Rightarrow> bool option" where
  "flag_set r offset bits = do { flags \<leftarrow> arr_get (main_data r) offset; Some (flags AND bits \<noteq> 0) }"

abbreviation (input) off_insert :: int where "off_insert \<equiv> 2"
abbreviation (input) off_multi_insert :: int where "off_multi_insert \<equiv> 0"
abbreviation (input) off_delete :: int where "off_delete \<equiv> 7"
abbreviation (input) off_update :: int where "off_update \<equiv> 7"
abbreviation (input) off_lock :: int where "off_lock \<equiv> 7"
abbreviation (input) off_lock_updated :: int where "off_lock_updated \<equiv> 7"

section \<open>Adding the visibility-map blocks\<close>

text \<open>\<open>MAPSIZE\<close> is 8192 - 24 bytes, with two bits for each heap block.\<close>

definition HEAPBLK_TO_MAPBLOCK :: "u32 \<Rightarrow> u32" where
  "HEAPBLK_TO_MAPBLOCK x = x div 32672"

definition polar_reset_blk :: "DecodedBkpBlock \<Rightarrow> DecodedBkpBlock" where
  "polar_reset_blk b = b\<lparr>in_use := False, has_image := False, has_data := False, apply_image := False\<rparr>"

definition polar_heap_save_vm_block :: "nat \<Rightarrow> nat \<Rightarrow> XLogReaderState \<Rightarrow> XLogReaderState" where
  "polar_heap_save_vm_block block_id vm_block_id r =
     (let blk = blocks r block_id;
          vm_blk = (polar_reset_blk (blocks r vm_block_id))
            \<lparr>in_use := True, blk_rnode := blk_rnode blk, forknum := VISIBILITYMAP_FORKNUM,
             blkno := HEAPBLK_TO_MAPBLOCK (blkno blk)\<rparr>
      in r\<lparr>blocks := (blocks r)(vm_block_id := vm_blk), max_block_id := max (max_block_id r) (int vm_block_id)\<rparr>)"

definition polar_heap_update_save_vm_logindex :: "XLogReaderState \<Rightarrow> XLogReaderState option" where
  "polar_heap_update_save_vm_logindex r =
     (let blkno_new = blkno (blocks r 0);
          blkno_old = (if in_use (blocks r 1) then blkno (blocks r 1) else blkno_new)
      in do { old \<leftarrow> flag_set r off_update XLH_UPDATE_OLD_ALL_VISIBLE_CLEARED;
              new \<leftarrow> flag_set r off_update XLH_UPDATE_NEW_ALL_VISIBLE_CLEARED;
              Some (if blkno_new \<noteq> blkno_old
                then (let r = (if old then polar_heap_save_vm_block 1 3 r else r)
                      in if new then polar_heap_save_vm_block 0 2 r else r)
                else if old then polar_heap_save_vm_block 0 2 r else r) })"

text \<open>
  The first case of the switch tests for a code with the \<open>INIT_PAGE\<close> bit, which the mask has
  removed: it is never taken.
\<close>

definition polar_xlog_queue_decode_heap :: "XLogReaderState \<Rightarrow> XLogReaderState option" where
  "polar_xlog_queue_decode_heap r =
     (let op = rec_info r AND XLOG_HEAP_OPMASK
      in if op = (XLOG_HEAP_INSERT OR XLOG_HEAP_INIT_PAGE) then
           do { _ \<leftarrow> flag_set r off_insert XLH_INSERT_ALL_VISIBLE_CLEARED; Some r }
         else if op = XLOG_HEAP_INSERT then
           do { vm \<leftarrow> flag_set r off_insert XLH_INSERT_ALL_VISIBLE_CLEARED;
                Some (if vm then polar_heap_save_vm_block 0 1 r else r) }
         else if op = XLOG_HEAP_DELETE then
           do { vm \<leftarrow> flag_set r off_delete XLH_DELETE_ALL_VISIBLE_CLEARED;
                Some (if vm then polar_heap_save_vm_block 0 1 r else r) }
         else if op = XLOG_HEAP_UPDATE \<or> op = XLOG_HEAP_HOT_UPDATE then
           polar_heap_update_save_vm_logindex r
         else if op = XLOG_HEAP_LOCK then
           do { vm \<leftarrow> flag_set r off_lock XLH_LOCK_ALL_FROZEN_CLEARED;
                Some (if vm then polar_heap_save_vm_block 0 1 r else r) }
         else Some r)"

definition polar_xlog_queue_decode_heap2 :: "XLogReaderState \<Rightarrow> XLogReaderState option" where
  "polar_xlog_queue_decode_heap2 r =
     (let op = rec_info r AND XLOG_HEAP_OPMASK
      in if op = XLOG_HEAP2_MULTI_INSERT then
           do { vm \<leftarrow> flag_set r off_multi_insert XLH_INSERT_ALL_VISIBLE_CLEARED;
                Some (if vm then polar_heap_save_vm_block 0 1 r else r) }
         else if op = XLOG_HEAP2_LOCK_UPDATED then
           do { vm \<leftarrow> flag_set r off_lock_updated XLH_LOCK_ALL_FROZEN_CLEARED;
                Some (if vm then polar_heap_save_vm_block 0 1 r else r) }
         else Some r)"

definition polar_xlog_decode_data_vm :: "XLogReaderState \<Rightarrow> XLogReaderState option" where
  "polar_xlog_decode_data_vm r =
     (if rmid r = RM_HEAP_ID then polar_xlog_queue_decode_heap r
      else if rmid r = RM_HEAP2_ID then polar_xlog_queue_decode_heap2 r
      else Some r)"

end
