(* ===== verification/WalIndex.thy ===== *)
theory WalIndex
  imports WalRecord VersionIndex
begin

text \<open>
  Indexing a WAL record: which blocks of a record each resource manager enters into the page
  version map (the \<open>*_idx_save\<close> functions of \<open>access/logindex\<close>), and the entry itself
  (\<open>ParseXLogBlocksLsn\<close> of \<open>xlog.c\<close>).

  The save functions take the call they make on a block, \<open>parse\<close>, as an argument: it is
  \<open>ParseXLogBlocksLsn\<close> for the record at hand. \<open>elog(PANIC)\<close> is a fault.
\<close>

section \<open>Entering a block\<close>

definition block_key :: "DecodedBkpBlock \<Rightarrow> KeyType" where
  "block_key b = \<lparr>SpcID = ucast (spcNode (blk_rnode b)), DbID = ucast (dbNode (blk_rnode b)),
     RelID = ucast (relNode (blk_rnode b)), ForkNum = forknum b, BlkNum = ucast (blkno b)\<rparr>"

definition ParseXLogBlocksLsn ::
    "(HashMap \<Rightarrow> malloc_block) \<Rightarrow> XLogReaderState \<Rightarrow> nat \<Rightarrow> HashMap \<Rightarrow> HashMap option" where
  "ParseXLogBlocksLsn alloc r recordBlockId m =
     (if max_block_id r < int recordBlockId then Some m
      else if \<not> XLogRecHasBlockRef r recordBlockId then Some m
      else case XLogRecGetBlockTag r recordBlockId of
        None \<Rightarrow> Some m
      | Some tag \<Rightarrow>
          do { (m, _) \<leftarrow> HashMapInsertKey (alloc m) m (block_key (blocks r recordBlockId)) (ReadRecPtr r) 0 True;
               Some m })"

type_synonym 's parse = "nat \<Rightarrow> 's \<Rightarrow> 's option"

text \<open>The loops over block numbers: all up to a bound, those in use, and those before the first unused one.\<close>

definition parse_all :: "'s parse \<Rightarrow> nat \<Rightarrow> 's \<Rightarrow> 's option" where
  "parse_all parse n = foldm parse [0..<n]"

definition parse_used :: "'s parse \<Rightarrow> XLogReaderState \<Rightarrow> nat \<Rightarrow> 's \<Rightarrow> 's option" where
  "parse_used parse r n = foldm (\<lambda>i. when_do (XLogRecHasBlockRef r i) (parse i)) [0..<n]"

fun parse_while :: "'s parse \<Rightarrow> XLogReaderState \<Rightarrow> nat list \<Rightarrow> 's \<Rightarrow> 's option" where
  "parse_while parse r [] s = Some s"
| "parse_while parse r (i # is) s =
     (if XLogRecHasBlockRef r i then do { s \<leftarrow> parse i s; parse_while parse r is s } else Some s)"

section \<open>Full-page images, sequences, generic records\<close>

abbreviation (input) XLOG_FPI :: u8 where "XLOG_FPI \<equiv> 0xB0"
abbreviation (input) XLOG_FPI_FOR_HINT :: u8 where "XLOG_FPI_FOR_HINT \<equiv> 0xA0"
abbreviation (input) XLOG_SEQ_LOG :: u8 where "XLOG_SEQ_LOG \<equiv> 0"
abbreviation (input) MAX_GENERIC_XLOG_PAGES :: nat where "MAX_GENERIC_XLOG_PAGES \<equiv> 4"

definition polar_xlog_idx_save :: "'s parse \<Rightarrow> XLogReaderState \<Rightarrow> 's \<Rightarrow> (bool \<times> 's) option" where
  "polar_xlog_idx_save parse r s =
     (if rec_info r \<noteq> XLOG_FPI \<and> rec_info r \<noteq> XLOG_FPI_FOR_HINT then Some (False, s)
      else do { s \<leftarrow> parse_all parse (nat (max_block_id r + 1)) s; Some (True, s) })"

definition polar_seq_idx_save :: "'s parse \<Rightarrow> XLogReaderState \<Rightarrow> 's \<Rightarrow> (bool \<times> 's) option" where
  "polar_seq_idx_save parse r s =
     (if rec_info r = XLOG_SEQ_LOG then do { s \<leftarrow> parse 0 s; Some (True, s) } else None)"

definition polar_generic_idx_save :: "'s parse \<Rightarrow> XLogReaderState \<Rightarrow> 's \<Rightarrow> (bool \<times> 's) option" where
  "polar_generic_idx_save parse r s =
     do { s \<leftarrow> parse_used parse r (MAX_GENERIC_XLOG_PAGES + 1) s; Some (True, s) }"

section \<open>Heap\<close>

definition polar_heap_insert_save :: "'s parse \<Rightarrow> XLogReaderState \<Rightarrow> 's \<Rightarrow> 's option" where
  "polar_heap_insert_save parse r s =
     do { vm \<leftarrow> flag_set r off_insert XLH_INSERT_ALL_VISIBLE_CLEARED;
          s \<leftarrow> when_do vm (parse 1) s;
          parse 0 s }"

definition polar_heap_delete_save :: "'s parse \<Rightarrow> XLogReaderState \<Rightarrow> 's \<Rightarrow> 's option" where
  "polar_heap_delete_save parse r s =
     do { vm \<leftarrow> flag_set r off_delete XLH_DELETE_ALL_VISIBLE_CLEARED;
          s \<leftarrow> when_do vm (parse 1) s;
          parse 0 s }"

text \<open>\<open>POLAR_GET_LOG_TAG\<close> panics when the block is not in use. A cleared tag is no tag of a record.\<close>

definition polar_heap_xlog_update_save :: "'s parse \<Rightarrow> XLogReaderState \<Rightarrow> 's \<Rightarrow> 's option" where
  "polar_heap_xlog_update_save parse r s =
     do { new \<leftarrow> XLogRecGetBlockTag r 0;
          let newblk = blockNum new;
          let oldblk = (case XLogRecGetBlockTag r 1 of Some old \<Rightarrow> blockNum old | None \<Rightarrow> newblk);
          old_vm \<leftarrow> flag_set r off_update XLH_UPDATE_OLD_ALL_VISIBLE_CLEARED;
          new_vm \<leftarrow> flag_set r off_update XLH_UPDATE_NEW_ALL_VISIBLE_CLEARED;
          (s, old_cleared_vm) \<leftarrow>
            (if old_vm then
               (let vm_block = (if oldblk = newblk then 2 else 3)
                in do { s \<leftarrow> parse vm_block s; tag \<leftarrow> XLogRecGetBlockTag r vm_block; Some (s, Some tag) })
             else Some (s, None));
          s \<leftarrow> parse (if oldblk = newblk then 0 else 1) s;
          when_do (oldblk \<noteq> newblk)
            (\<lambda>s. do { s \<leftarrow> parse 0 s;
                      when_do new_vm
                        (\<lambda>s. do { new_cleared_vm \<leftarrow> XLogRecGetBlockTag r 2;
                                  when_do (old_cleared_vm \<noteq> Some new_cleared_vm) (parse 2) s }) s }) s }"

definition polar_heap_lock_save :: "'s parse \<Rightarrow> XLogReaderState \<Rightarrow> 's \<Rightarrow> 's option" where
  "polar_heap_lock_save parse r s =
     do { vm \<leftarrow> flag_set r off_lock XLH_LOCK_ALL_FROZEN_CLEARED;
          s \<leftarrow> when_do vm (parse 1) s;
          parse 0 s }"

definition polar_heap_idx_save :: "'s parse \<Rightarrow> XLogReaderState \<Rightarrow> 's \<Rightarrow> (bool \<times> 's) option" where
  "polar_heap_idx_save parse r s =
     (let op = rec_info r AND XLOG_HEAP_OPMASK
      in do { s \<leftarrow>
                (if op = XLOG_HEAP_INSERT then polar_heap_insert_save parse r s
                 else if op = XLOG_HEAP_DELETE then polar_heap_delete_save parse r s
                 else if op = XLOG_HEAP_UPDATE then polar_heap_xlog_update_save parse r s
                 else if op = XLOG_HEAP_TRUNCATE then Some s
                 else if op = XLOG_HEAP_HOT_UPDATE then polar_heap_xlog_update_save parse r s
                 else if op = XLOG_HEAP_CONFIRM then parse 0 s
                 else if op = XLOG_HEAP_LOCK then polar_heap_lock_save parse r s
                 else if op = XLOG_HEAP_INPLACE then parse 0 s
                 else None);
              Some (True, s) })"

definition polar_heap_multi_insert_save :: "'s parse \<Rightarrow> XLogReaderState \<Rightarrow> 's \<Rightarrow> 's option" where
  "polar_heap_multi_insert_save parse r s =
     do { vm \<leftarrow> flag_set r off_multi_insert XLH_INSERT_ALL_VISIBLE_CLEARED;
          s \<leftarrow> when_do vm (parse 1) s;
          parse 0 s }"

definition polar_heap_lock_update_save :: "'s parse \<Rightarrow> XLogReaderState \<Rightarrow> 's \<Rightarrow> 's option" where
  "polar_heap_lock_update_save parse r s =
     do { vm \<leftarrow> flag_set r off_lock_updated XLH_LOCK_ALL_FROZEN_CLEARED;
          s \<leftarrow> when_do vm (parse 1) s;
          parse 0 s }"

text \<open>\<open>heap_xlog_logical_rewrite\<close> writes a file for logical decoding and enters nothing.\<close>

definition polar_heap2_idx_save :: "'s parse \<Rightarrow> XLogReaderState \<Rightarrow> 's \<Rightarrow> (bool \<times> 's) option" where
  "polar_heap2_idx_save parse r s =
     (let op = rec_info r AND XLOG_HEAP_OPMASK
      in do { s \<leftarrow>
                (if op = XLOG_HEAP2_CLEAN \<or> op = XLOG_HEAP2_FREEZE_PAGE then parse 0 s
                 else if op = XLOG_HEAP2_CLEANUP_INFO then Some s
                 else if op = XLOG_HEAP2_VISIBLE then do { s \<leftarrow> parse 1 s; parse 0 s }
                 else if op = XLOG_HEAP2_MULTI_INSERT then polar_heap_multi_insert_save parse r s
                 else if op = XLOG_HEAP2_LOCK_UPDATED then polar_heap_lock_update_save parse r s
                 else if op = XLOG_HEAP2_NEW_CID then Some s
                 else if op = XLOG_HEAP2_REWRITE then Some s
                 else None);
              Some (True, s) })"

section \<open>B-tree indexes\<close>

abbreviation (input) XLOG_BTREE_INSERT_LEAF :: u8 where "XLOG_BTREE_INSERT_LEAF \<equiv> 0x00"
abbreviation (input) XLOG_BTREE_INSERT_UPPER :: u8 where "XLOG_BTREE_INSERT_UPPER \<equiv> 0x10"
abbreviation (input) XLOG_BTREE_INSERT_META :: u8 where "XLOG_BTREE_INSERT_META \<equiv> 0x20"
abbreviation (input) XLOG_BTREE_SPLIT_L :: u8 where "XLOG_BTREE_SPLIT_L \<equiv> 0x30"
abbreviation (input) XLOG_BTREE_SPLIT_R :: u8 where "XLOG_BTREE_SPLIT_R \<equiv> 0x40"
abbreviation (input) XLOG_BTREE_INSERT_POST :: u8 where "XLOG_BTREE_INSERT_POST \<equiv> 0x50"
abbreviation (input) XLOG_BTREE_DEDUP :: u8 where "XLOG_BTREE_DEDUP \<equiv> 0x60"
abbreviation (input) XLOG_BTREE_DELETE :: u8 where "XLOG_BTREE_DELETE \<equiv> 0x70"
abbreviation (input) XLOG_BTREE_UNLINK_PAGE :: u8 where "XLOG_BTREE_UNLINK_PAGE \<equiv> 0x80"
abbreviation (input) XLOG_BTREE_UNLINK_PAGE_META :: u8 where "XLOG_BTREE_UNLINK_PAGE_META \<equiv> 0x90"
abbreviation (input) XLOG_BTREE_NEWROOT :: u8 where "XLOG_BTREE_NEWROOT \<equiv> 0xA0"
abbreviation (input) XLOG_BTREE_MARK_PAGE_HALFDEAD :: u8 where "XLOG_BTREE_MARK_PAGE_HALFDEAD \<equiv> 0xB0"
abbreviation (input) XLOG_BTREE_VACUUM :: u8 where "XLOG_BTREE_VACUUM \<equiv> 0xC0"
abbreviation (input) XLOG_BTREE_REUSE_PAGE :: u8 where "XLOG_BTREE_REUSE_PAGE \<equiv> 0xD0"
abbreviation (input) XLOG_BTREE_META_CLEANUP :: u8 where "XLOG_BTREE_META_CLEANUP \<equiv> 0xE0"

definition polar_btree_xlog_insert_save :: "bool \<Rightarrow> bool \<Rightarrow> 's parse \<Rightarrow> XLogReaderState \<Rightarrow> 's \<Rightarrow> 's option" where
  "polar_btree_xlog_insert_save isleaf ismeta parse r s =
     do { s \<leftarrow> when_do (\<not> isleaf) (parse 1) s;
          s \<leftarrow> parse 0 s;
          when_do ismeta (parse 2) s }"

definition polar_btree_xlog_split_save :: "'s parse \<Rightarrow> XLogReaderState \<Rightarrow> 's \<Rightarrow> 's option" where
  "polar_btree_xlog_split_save parse r s =
     do { s \<leftarrow> when_do (XLogRecHasBlockRef r 3) (parse 3) s;
          s \<leftarrow> parse 1 s;
          s \<leftarrow> parse 0 s;
          when_do (XLogRecHasBlockRef r 2) (parse 2) s }"

definition polar_btree_xlog_unlink_page_save :: "u8 \<Rightarrow> 's parse \<Rightarrow> XLogReaderState \<Rightarrow> 's \<Rightarrow> 's option" where
  "polar_btree_xlog_unlink_page_save info parse r s =
     do { s \<leftarrow> parse 2 s;
          s \<leftarrow> when_do (XLogRecHasBlockRef r 1) (parse 1) s;
          s \<leftarrow> parse 0 s;
          s \<leftarrow> when_do (XLogRecHasBlockRef r 3) (parse 3) s;
          when_do (info = XLOG_BTREE_UNLINK_PAGE_META) (parse 4) s }"

definition polar_btree_xlog_newroot_save :: "'s parse \<Rightarrow> XLogReaderState \<Rightarrow> 's \<Rightarrow> 's option" where
  "polar_btree_xlog_newroot_save parse r s =
     do { s \<leftarrow> parse 0 s;
          s \<leftarrow> when_do (XLogRecHasBlockRef r 1) (parse 1) s;
          parse 2 s }"

definition polar_btree_idx_save :: "'s parse \<Rightarrow> XLogReaderState \<Rightarrow> 's \<Rightarrow> (bool \<times> 's) option" where
  "polar_btree_idx_save parse r s =
     (let info = rec_info r
      in do { s \<leftarrow>
                (if info = XLOG_BTREE_INSERT_LEAF then polar_btree_xlog_insert_save True False parse r s
                 else if info = XLOG_BTREE_INSERT_UPPER then polar_btree_xlog_insert_save False False parse r s
                 else if info = XLOG_BTREE_INSERT_META then polar_btree_xlog_insert_save False True parse r s
                 else if info = XLOG_BTREE_SPLIT_L \<or> info = XLOG_BTREE_SPLIT_R then polar_btree_xlog_split_save parse r s
                 else if info = XLOG_BTREE_INSERT_POST then polar_btree_xlog_insert_save True False parse r s
                 else if info = XLOG_BTREE_DEDUP then parse 0 s
                 else if info = XLOG_BTREE_VACUUM then parse 0 s
                 else if info = XLOG_BTREE_DELETE then parse 0 s
                 else if info = XLOG_BTREE_MARK_PAGE_HALFDEAD then do { s \<leftarrow> parse 1 s; parse 0 s }
                 else if info = XLOG_BTREE_UNLINK_PAGE \<or> info = XLOG_BTREE_UNLINK_PAGE_META then polar_btree_xlog_unlink_page_save info parse r s
                 else if info = XLOG_BTREE_NEWROOT then polar_btree_xlog_newroot_save parse r s
                 else if info = XLOG_BTREE_REUSE_PAGE then Some s
                 else if info = XLOG_BTREE_META_CLEANUP then parse 0 s
                 else None);
              Some (True, s) })"

section \<open>Hash indexes\<close>

abbreviation (input) XLOG_HASH_INIT_META_PAGE :: u8 where "XLOG_HASH_INIT_META_PAGE \<equiv> 0x00"
abbreviation (input) XLOG_HASH_INIT_BITMAP_PAGE :: u8 where "XLOG_HASH_INIT_BITMAP_PAGE \<equiv> 0x10"
abbreviation (input) XLOG_HASH_INSERT :: u8 where "XLOG_HASH_INSERT \<equiv> 0x20"
abbreviation (input) XLOG_HASH_ADD_OVFL_PAGE :: u8 where "XLOG_HASH_ADD_OVFL_PAGE \<equiv> 0x30"
abbreviation (input) XLOG_HASH_SPLIT_ALLOCATE_PAGE :: u8 where "XLOG_HASH_SPLIT_ALLOCATE_PAGE \<equiv> 0x40"
abbreviation (input) XLOG_HASH_SPLIT_PAGE :: u8 where "XLOG_HASH_SPLIT_PAGE \<equiv> 0x50"
abbreviation (input) XLOG_HASH_SPLIT_COMPLETE :: u8 where "XLOG_HASH_SPLIT_COMPLETE \<equiv> 0x60"
abbreviation (input) XLOG_HASH_MOVE_PAGE_CONTENTS :: u8 where "XLOG_HASH_MOVE_PAGE_CONTENTS \<equiv> 0x70"
abbreviation (input) XLOG_HASH_SQUEEZE_PAGE :: u8 where "XLOG_HASH_SQUEEZE_PAGE \<equiv> 0x80"
abbreviation (input) XLOG_HASH_DELETE :: u8 where "XLOG_HASH_DELETE \<equiv> 0x90"
abbreviation (input) XLOG_HASH_SPLIT_CLEANUP :: u8 where "XLOG_HASH_SPLIT_CLEANUP \<equiv> 0xA0"
abbreviation (input) XLOG_HASH_UPDATE_META_PAGE :: u8 where "XLOG_HASH_UPDATE_META_PAGE \<equiv> 0xB0"
abbreviation (input) XLOG_HASH_VACUUM_ONE_PAGE :: u8 where "XLOG_HASH_VACUUM_ONE_PAGE \<equiv> 0xC0"

definition polar_hash_xlog_add_ovfl_page_save :: "'s parse \<Rightarrow> XLogReaderState \<Rightarrow> 's \<Rightarrow> 's option" where
  "polar_hash_xlog_add_ovfl_page_save parse r s =
     do { s \<leftarrow> parse 0 s;
          s \<leftarrow> parse 1 s;
          s \<leftarrow> when_do (XLogRecHasBlockRef r 2) (parse 2) s;
          s \<leftarrow> when_do (XLogRecHasBlockRef r 3) (parse 3) s;
          parse 4 s }"

definition polar_hash_xlog_move_page_contents_save :: "'s parse \<Rightarrow> XLogReaderState \<Rightarrow> 's \<Rightarrow> 's option" where
  "polar_hash_xlog_move_page_contents_save parse r s =
     do { s \<leftarrow> (if XLogRecHasBlockRef r 0 then do { s \<leftarrow> parse 0 s; parse 1 s } else parse 1 s);
          parse 2 s }"

definition polar_hash_xlog_squeeze_page_save :: "'s parse \<Rightarrow> XLogReaderState \<Rightarrow> 's \<Rightarrow> 's option" where
  "polar_hash_xlog_squeeze_page_save parse r s =
     do { s \<leftarrow> (if XLogRecHasBlockRef r 0 then do { s \<leftarrow> parse 0 s; parse 1 s } else parse 1 s);
          s \<leftarrow> parse 2 s;
          s \<leftarrow> when_do (XLogRecHasBlockRef r 3) (parse 3) s;
          s \<leftarrow> when_do (XLogRecHasBlockRef r 4) (parse 4) s;
          s \<leftarrow> parse 5 s;
          when_do (XLogRecHasBlockRef r 6) (parse 6) s }"

definition polar_hash_xlog_delete_save :: "'s parse \<Rightarrow> XLogReaderState \<Rightarrow> 's \<Rightarrow> 's option" where
  "polar_hash_xlog_delete_save parse r s =
     (if XLogRecHasBlockRef r 0 then do { s \<leftarrow> parse 0 s; parse 1 s } else parse 1 s)"

definition polar_hash_idx_save :: "'s parse \<Rightarrow> XLogReaderState \<Rightarrow> 's \<Rightarrow> (bool \<times> 's) option" where
  "polar_hash_idx_save parse r s =
     (let info = rec_info r
      in do { s \<leftarrow>
                (if info = XLOG_HASH_INIT_META_PAGE then parse 0 s
                 else if info = XLOG_HASH_INIT_BITMAP_PAGE then do { s \<leftarrow> parse 0 s; parse 1 s }
                 else if info = XLOG_HASH_INSERT then do { s \<leftarrow> parse 0 s; parse 1 s }
                 else if info = XLOG_HASH_ADD_OVFL_PAGE then polar_hash_xlog_add_ovfl_page_save parse r s
                 else if info = XLOG_HASH_SPLIT_ALLOCATE_PAGE then do { s \<leftarrow> parse 0 s; s \<leftarrow> parse 1 s; parse 2 s }
                 else if info = XLOG_HASH_SPLIT_PAGE then parse 0 s
                 else if info = XLOG_HASH_SPLIT_COMPLETE then do { s \<leftarrow> parse 0 s; parse 1 s }
                 else if info = XLOG_HASH_MOVE_PAGE_CONTENTS then polar_hash_xlog_move_page_contents_save parse r s
                 else if info = XLOG_HASH_SQUEEZE_PAGE then polar_hash_xlog_squeeze_page_save parse r s
                 else if info = XLOG_HASH_DELETE then polar_hash_xlog_delete_save parse r s
                 else if info = XLOG_HASH_SPLIT_CLEANUP \<or> info = XLOG_HASH_UPDATE_META_PAGE then parse 0 s
                 else if info = XLOG_HASH_VACUUM_ONE_PAGE then do { s \<leftarrow> parse 0 s; parse 1 s }
                 else None);
              Some (True, s) })"

section \<open>GIN indexes\<close>

abbreviation (input) XLOG_GIN_CREATE_PTREE :: u8 where "XLOG_GIN_CREATE_PTREE \<equiv> 0x10"
abbreviation (input) XLOG_GIN_INSERT :: u8 where "XLOG_GIN_INSERT \<equiv> 0x20"
abbreviation (input) XLOG_GIN_SPLIT :: u8 where "XLOG_GIN_SPLIT \<equiv> 0x30"
abbreviation (input) XLOG_GIN_VACUUM_PAGE :: u8 where "XLOG_GIN_VACUUM_PAGE \<equiv> 0x40"
abbreviation (input) XLOG_GIN_DELETE_PAGE :: u8 where "XLOG_GIN_DELETE_PAGE \<equiv> 0x50"
abbreviation (input) XLOG_GIN_UPDATE_META_PAGE :: u8 where "XLOG_GIN_UPDATE_META_PAGE \<equiv> 0x60"
abbreviation (input) XLOG_GIN_INSERT_LISTPAGE :: u8 where "XLOG_GIN_INSERT_LISTPAGE \<equiv> 0x70"
abbreviation (input) XLOG_GIN_DELETE_LISTPAGE :: u8 where "XLOG_GIN_DELETE_LISTPAGE \<equiv> 0x80"
abbreviation (input) XLOG_GIN_VACUUM_DATA_LEAF_PAGE :: u8 where "XLOG_GIN_VACUUM_DATA_LEAF_PAGE \<equiv> 0x90"
abbreviation (input) GIN_NDELETE_AT_ONCE :: nat where "GIN_NDELETE_AT_ONCE \<equiv> 16"

definition polar_gin_redo_insert_save :: "'s parse \<Rightarrow> XLogReaderState \<Rightarrow> 's \<Rightarrow> 's option" where
  "polar_gin_redo_insert_save parse r s =
     do { s \<leftarrow> when_do (XLogRecHasBlockRef r 1) (parse 1) s;
          parse 0 s }"

definition polar_gin_redo_split_save :: "'s parse \<Rightarrow> XLogReaderState \<Rightarrow> 's \<Rightarrow> 's option" where
  "polar_gin_redo_split_save parse r s =
     do { s \<leftarrow> when_do (XLogRecHasBlockRef r 3) (parse 3) s;
          s \<leftarrow> parse 0 s;
          s \<leftarrow> parse 1 s;
          when_do (XLogRecHasBlockRef r 2) (parse 2) s }"

definition polar_gin_redo_update_metapage_save :: "'s parse \<Rightarrow> XLogReaderState \<Rightarrow> 's \<Rightarrow> 's option" where
  "polar_gin_redo_update_metapage_save parse r s =
     do { s \<leftarrow> parse 0 s;
          when_do (XLogRecHasBlockRef r 1) (parse 1) s }"

definition polar_gin_redo_delete_list_pages_save :: "'s parse \<Rightarrow> XLogReaderState \<Rightarrow> 's \<Rightarrow> 's option" where
  "polar_gin_redo_delete_list_pages_save parse r s =
     do { s \<leftarrow> parse 0 s;
          parse_while parse r [1..<GIN_NDELETE_AT_ONCE + 1] s }"

text \<open>Index creation and unknown codes are not entered: the record is replayed at once.\<close>

definition polar_gin_idx_save :: "'s parse \<Rightarrow> XLogReaderState \<Rightarrow> 's \<Rightarrow> (bool \<times> 's) option" where
  "polar_gin_idx_save parse r s =
     (let info = rec_info r
      in if info = XLOG_GIN_CREATE_PTREE then
           do { s \<leftarrow> parse 0 s; Some (True, s) }
         else if info = XLOG_GIN_INSERT then
           do { s \<leftarrow> polar_gin_redo_insert_save parse r s; Some (True, s) }
         else if info = XLOG_GIN_SPLIT then
           do { s \<leftarrow> polar_gin_redo_split_save parse r s; Some (True, s) }
         else if info = XLOG_GIN_VACUUM_PAGE \<or> info = XLOG_GIN_VACUUM_DATA_LEAF_PAGE then
           do { s \<leftarrow> parse 0 s; Some (True, s) }
         else if info = XLOG_GIN_DELETE_PAGE then
           do { s \<leftarrow> do { s \<leftarrow> parse 2 s; s \<leftarrow> parse 0 s; parse 1 s }; Some (True, s) }
         else if info = XLOG_GIN_UPDATE_META_PAGE then
           do { s \<leftarrow> polar_gin_redo_update_metapage_save parse r s; Some (True, s) }
         else if info = XLOG_GIN_INSERT_LISTPAGE then
           do { s \<leftarrow> parse 0 s; Some (True, s) }
         else if info = XLOG_GIN_DELETE_LISTPAGE then
           do { s \<leftarrow> polar_gin_redo_delete_list_pages_save parse r s; Some (True, s) }
         else Some (False, s))"

section \<open>GiST indexes\<close>

abbreviation (input) XLOG_GIST_PAGE_UPDATE :: u8 where "XLOG_GIST_PAGE_UPDATE \<equiv> 0x00"
abbreviation (input) XLOG_GIST_DELETE :: u8 where "XLOG_GIST_DELETE \<equiv> 0x10"
abbreviation (input) XLOG_GIST_PAGE_REUSE :: u8 where "XLOG_GIST_PAGE_REUSE \<equiv> 0x20"
abbreviation (input) XLOG_GIST_PAGE_SPLIT :: u8 where "XLOG_GIST_PAGE_SPLIT \<equiv> 0x30"
abbreviation (input) XLOG_GIST_PAGE_DELETE :: u8 where "XLOG_GIST_PAGE_DELETE \<equiv> 0x60"
abbreviation (input) XLOG_GIST_ASSIGN_LSN :: u8 where "XLOG_GIST_ASSIGN_LSN \<equiv> 0x70"

definition polar_gist_redo_page_update_record_save :: "'s parse \<Rightarrow> XLogReaderState \<Rightarrow> 's \<Rightarrow> 's option" where
  "polar_gist_redo_page_update_record_save parse r s =
     do { s \<leftarrow> parse 0 s;
          when_do (XLogRecHasBlockRef r 1) (parse 1) s }"

definition polar_gist_redo_page_split_record_save :: "'s parse \<Rightarrow> XLogReaderState \<Rightarrow> 's \<Rightarrow> 's option" where
  "polar_gist_redo_page_split_record_save parse r s =
     do { s \<leftarrow> parse 1 s;
          s \<leftarrow> parse_while parse r [2..<XLR_MAX_BLOCK_ID + 1] s;
          when_do (XLogRecHasBlockRef r 0) (parse 0) s }"

definition polar_gist_idx_save :: "'s parse \<Rightarrow> XLogReaderState \<Rightarrow> 's \<Rightarrow> (bool \<times> 's) option" where
  "polar_gist_idx_save parse r s =
     (let info = rec_info r
      in do { s \<leftarrow>
                (if info = XLOG_GIST_PAGE_UPDATE then polar_gist_redo_page_update_record_save parse r s
                 else if info = XLOG_GIST_DELETE then parse 0 s
                 else if info = XLOG_GIST_PAGE_REUSE then Some s
                 else if info = XLOG_GIST_PAGE_SPLIT then polar_gist_redo_page_split_record_save parse r s
                 else if info = XLOG_GIST_PAGE_DELETE then do { s \<leftarrow> parse 0 s; parse 1 s }
                 else if info = XLOG_GIST_ASSIGN_LSN then Some s
                 else None);
              Some (True, s) })"

section \<open>SP-GiST and BRIN indexes\<close>

abbreviation (input) XLOG_SPGIST_ADD_LEAF :: u8 where "XLOG_SPGIST_ADD_LEAF \<equiv> 0x10"
abbreviation (input) XLOG_SPGIST_MOVE_LEAFS :: u8 where "XLOG_SPGIST_MOVE_LEAFS \<equiv> 0x20"
abbreviation (input) XLOG_SPGIST_ADD_NODE :: u8 where "XLOG_SPGIST_ADD_NODE \<equiv> 0x30"
abbreviation (input) XLOG_SPGIST_SPLIT_TUPLE :: u8 where "XLOG_SPGIST_SPLIT_TUPLE \<equiv> 0x40"
abbreviation (input) XLOG_SPGIST_PICKSPLIT :: u8 where "XLOG_SPGIST_PICKSPLIT \<equiv> 0x50"
abbreviation (input) XLOG_SPGIST_VACUUM_LEAF :: u8 where "XLOG_SPGIST_VACUUM_LEAF \<equiv> 0x60"
abbreviation (input) XLOG_SPGIST_VACUUM_ROOT :: u8 where "XLOG_SPGIST_VACUUM_ROOT \<equiv> 0x70"
abbreviation (input) XLOG_SPGIST_VACUUM_REDIRECT :: u8 where "XLOG_SPGIST_VACUUM_REDIRECT \<equiv> 0x80"
abbreviation (input) XLOG_BRIN_CREATE_INDEX :: u8 where "XLOG_BRIN_CREATE_INDEX \<equiv> 0x00"
abbreviation (input) XLOG_BRIN_INSERT :: u8 where "XLOG_BRIN_INSERT \<equiv> 0x10"
abbreviation (input) XLOG_BRIN_UPDATE :: u8 where "XLOG_BRIN_UPDATE \<equiv> 0x20"
abbreviation (input) XLOG_BRIN_SAMEPAGE_UPDATE :: u8 where "XLOG_BRIN_SAMEPAGE_UPDATE \<equiv> 0x30"
abbreviation (input) XLOG_BRIN_REVMAP_EXTEND :: u8 where "XLOG_BRIN_REVMAP_EXTEND \<equiv> 0x40"
abbreviation (input) XLOG_BRIN_DESUMMARIZE :: u8 where "XLOG_BRIN_DESUMMARIZE \<equiv> 0x50"
abbreviation (input) XLOG_BRIN_OPMASK :: u8 where "XLOG_BRIN_OPMASK \<equiv> 0x70"

definition polar_spg_redo_add_node_save :: "'s parse \<Rightarrow> XLogReaderState \<Rightarrow> 's \<Rightarrow> 's option" where
  "polar_spg_redo_add_node_save parse r s =
     (if \<not> XLogRecHasBlockRef r 1 then parse 0 s
      else do { s \<leftarrow> parse 1 s;
                s \<leftarrow> parse 0 s;
                when_do (XLogRecHasBlockRef r 2) (parse 2) s })"

definition polar_spg_redo_pick_split_save :: "'s parse \<Rightarrow> XLogReaderState \<Rightarrow> 's \<Rightarrow> 's option" where
  "polar_spg_redo_pick_split_save parse r s =
     do { s \<leftarrow> when_do (XLogRecHasBlockRef r 0) (parse 0) s;
          s \<leftarrow> when_do (XLogRecHasBlockRef r 1) (parse 1) s;
          s \<leftarrow> parse 2 s;
          when_do (XLogRecHasBlockRef r 3) (parse 3) s }"

definition polar_spg_idx_save :: "'s parse \<Rightarrow> XLogReaderState \<Rightarrow> 's \<Rightarrow> (bool \<times> 's) option" where
  "polar_spg_idx_save parse r s =
     (let info = rec_info r
      in do { s \<leftarrow>
                (if info = XLOG_SPGIST_ADD_LEAF then do { s \<leftarrow> parse 0 s; when_do (XLogRecHasBlockRef r 1) (parse 1) s }
                 else if info = XLOG_SPGIST_MOVE_LEAFS then do { s \<leftarrow> parse 1 s; s \<leftarrow> parse 0 s; parse 2 s }
                 else if info = XLOG_SPGIST_ADD_NODE then polar_spg_redo_add_node_save parse r s
                 else if info = XLOG_SPGIST_SPLIT_TUPLE then do { s \<leftarrow> when_do (XLogRecHasBlockRef r 1) (parse 1) s; parse 0 s }
                 else if info = XLOG_SPGIST_PICKSPLIT then polar_spg_redo_pick_split_save parse r s
                 else if info = XLOG_SPGIST_VACUUM_LEAF \<or> info = XLOG_SPGIST_VACUUM_ROOT \<or> info = XLOG_SPGIST_VACUUM_REDIRECT then parse 0 s
                 else None);
              Some (True, s) })"

definition polar_brin_idx_save :: "'s parse \<Rightarrow> XLogReaderState \<Rightarrow> 's \<Rightarrow> (bool \<times> 's) option" where
  "polar_brin_idx_save parse r s =
     (let info = rec_info r AND XLOG_BRIN_OPMASK
      in if info = XLOG_BRIN_CREATE_INDEX then
           do { s \<leftarrow> parse 0 s; Some (True, s) }
         else if info = XLOG_BRIN_INSERT then
           do { s \<leftarrow> do { s \<leftarrow> parse 0 s; parse 1 s }; Some (True, s) }
         else if info = XLOG_BRIN_UPDATE then
           do { s \<leftarrow> do { s \<leftarrow> parse 2 s; s \<leftarrow> parse 0 s; parse 1 s }; Some (True, s) }
         else if info = XLOG_BRIN_SAMEPAGE_UPDATE then
           do { s \<leftarrow> parse 0 s; Some (True, s) }
         else if info = XLOG_BRIN_REVMAP_EXTEND then
           do { s \<leftarrow> do { s \<leftarrow> parse 0 s; parse 1 s }; Some (True, s) }
         else if info = XLOG_BRIN_DESUMMARIZE then
           do { s \<leftarrow> do { s \<leftarrow> parse 0 s; parse 1 s }; Some (True, s) }
         else Some (False, s))"

section \<open>Dispatch\<close>

definition idx_save :: "'s parse \<Rightarrow> XLogReaderState \<Rightarrow> 's \<Rightarrow> (bool \<times> 's) option" where
  "idx_save parse r s =
     (if rmid r = RM_XLOG_ID then polar_xlog_idx_save parse r s
      else if rmid r = RM_HEAP2_ID then polar_heap2_idx_save parse r s
      else if rmid r = RM_HEAP_ID then polar_heap_idx_save parse r s
      else if rmid r = RM_BTREE_ID then polar_btree_idx_save parse r s
      else if rmid r = RM_HASH_ID then polar_hash_idx_save parse r s
      else if rmid r = RM_GIN_ID then polar_gin_idx_save parse r s
      else if rmid r = RM_GIST_ID then polar_gist_idx_save parse r s
      else if rmid r = RM_SEQ_ID then polar_seq_idx_save parse r s
      else if rmid r = RM_SPGIST_ID then polar_spg_idx_save parse r s
      else if rmid r = RM_BRIN_ID then polar_brin_idx_save parse r s
      else if rmid r = RM_GENERIC_ID then polar_generic_idx_save parse r s
      else Some (False, s))"

definition ParseLogIndexXlog ::
    "(HashMap \<Rightarrow> malloc_block) \<Rightarrow> XLogReaderState \<Rightarrow> HashMap \<Rightarrow> (bool \<times> HashMap) option" where
  "ParseLogIndexXlog alloc r = idx_save (ParseXLogBlocksLsn alloc r) r"

end
