(* ===== verification/WalTags.thy ===== *)
theory WalTags
  imports WalIndex
begin

text \<open>
  The blocks of a WAL record as a list of buffer tags: \<open>GetXlogBuffTagList\<close> of \<open>logindex_func.c\<close> and the
  \<open>*_get_bufftag_list\<close> functions, which a node without the storage role uses to replay a record on
  the pages of its buffer pool.
\<close>

section \<open>The output arguments\<close>

text \<open>
  The state of such a function: its local variables \<open>rnode\<close>, \<open>forkNumber\<close>, \<open>blockNumber\<close> together (unset
  at first, and left alone by \<open>XLogRecGetBlockTag\<close> for a block that is not in use), the array it
  allocated, with \<^term>\<open>None\<close> for an entry that was not written, and \<open>tagCount\<close>.
\<close>

type_synonym tag_state = "BufferTag option \<times> BufferTag option list \<times> nat"

definition malloc_tags :: "nat \<Rightarrow> tag_state" where
  "malloc_tags n = (None, replicate n None, 0)"

definition read_tag :: "XLogReaderState \<Rightarrow> nat \<Rightarrow> BufferTag option \<Rightarrow> BufferTag option" where
  "read_tag r i cur = (case XLogRecGetBlockTag r i of Some t \<Rightarrow> Some t | None \<Rightarrow> cur)"

text \<open>
  \<open>INIT_BUFFERTAG((*buffertagList)[tagCount], \<dots>)\<close> writes the entry \<open>tagCount\<close> of the array.
\<close>

definition add_tag_paren :: "XLogReaderState \<Rightarrow> nat \<Rightarrow> tag_state \<Rightarrow> tag_state option" where
  "add_tag_paren r i s =
     (case s of (cur, arr, n) \<Rightarrow>
        do { t \<leftarrow> read_tag r i cur;
             arr \<leftarrow> arr_upd arr (int n) (\<lambda>_. Some t);
             Some (Some t, arr, n + 1) })"

text \<open>
  \<open>INIT_BUFFERTAG(*buffertagList[tagCount], \<dots>)\<close> is \<open>*(buffertagList[tagCount])\<close>: the argument is the
  address of one pointer, so that an index above 0 reads a pointer from beyond it.
\<close>

definition add_tag :: "XLogReaderState \<Rightarrow> nat \<Rightarrow> tag_state \<Rightarrow> tag_state option" where
  "add_tag r i s =
     (case s of (cur, arr, n) \<Rightarrow>
        do { t \<leftarrow> read_tag r i cur;
             arr \<leftarrow> (if n = 0 then arr_upd arr 0 (\<lambda>_. Some t) else None);
             Some (Some t, arr, n + 1) })"

text \<open>
  The result: whether the record is one of pages, the array (empty while the pointer is still
  \<open>NULL\<close>), and \<open>*tagNum\<close>, which is not set on some paths.
\<close>

type_synonym tag_result = "bool \<times> BufferTag option list \<times> nat option"

definition tags_done :: "tag_state \<Rightarrow> tag_result" where
  "tags_done s = (case s of (cur, arr, n) \<Rightarrow> (True, arr, Some n))"

abbreviation (input) tags_unset :: tag_result where "tags_unset \<equiv> (True, [], None)"

section \<open>Full-page images, sequences, generic records\<close>

definition polar_xlog_idx_get_bufftag_list :: "XLogReaderState \<Rightarrow> tag_result option" where
  "polar_xlog_idx_get_bufftag_list r =
     (if rec_info r \<noteq> XLOG_FPI \<and> rec_info r \<noteq> XLOG_FPI_FOR_HINT then Some (False, [], None)
      else map_option tags_done
        (foldm (add_tag_paren r) [0..<nat (max_block_id r + 1)] (malloc_tags (nat (max_block_id r)))))"

definition polar_seq_idx_get_bufftag_list :: "XLogReaderState \<Rightarrow> tag_result option" where
  "polar_seq_idx_get_bufftag_list r =
     (if rec_info r = XLOG_SEQ_LOG then map_option tags_done (add_tag r 0 (malloc_tags 1)) else None)"

definition polar_generic_idx_get_bufftag_list :: "XLogReaderState \<Rightarrow> tag_result option" where
  "polar_generic_idx_get_bufftag_list r =
     map_option tags_done
       (foldm (\<lambda>i. when_do (XLogRecHasBlockRef r i) (add_tag r i)) [0..<MAX_GENERIC_XLOG_PAGES + 1] (malloc_tags 4))"

section \<open>Heap\<close>

definition polar_heap_insert_get_bufftag_list :: "XLogReaderState \<Rightarrow> tag_state option" where
  "polar_heap_insert_get_bufftag_list r =
     do { vm \<leftarrow> flag_set r off_insert XLH_INSERT_ALL_VISIBLE_CLEARED;
          s \<leftarrow> when_do vm (add_tag_paren r 1) (malloc_tags 2);
          add_tag_paren r 0 s }"

definition polar_heap_delete_get_bufftag_list :: "XLogReaderState \<Rightarrow> tag_state option" where
  "polar_heap_delete_get_bufftag_list r =
     do { vm \<leftarrow> flag_set r off_delete XLH_DELETE_ALL_VISIBLE_CLEARED;
          s \<leftarrow> when_do vm (add_tag r 1) (malloc_tags 2);
          add_tag r 0 s }"

definition polar_heap_xlog_update_get_bufftag_list :: "XLogReaderState \<Rightarrow> tag_state option" where
  "polar_heap_xlog_update_get_bufftag_list r =
     do { new \<leftarrow> XLogRecGetBlockTag r 0;
          let newblk = blockNum new;
          let oldblk = (case XLogRecGetBlockTag r 1 of Some old \<Rightarrow> blockNum old | None \<Rightarrow> newblk);
          old_vm \<leftarrow> flag_set r off_update XLH_UPDATE_OLD_ALL_VISIBLE_CLEARED;
          new_vm \<leftarrow> flag_set r off_update XLH_UPDATE_NEW_ALL_VISIBLE_CLEARED;
          (s, old_cleared_vm) \<leftarrow>
            (if old_vm then
               (let vm_block = (if oldblk = newblk then 2 else 3)
                in do { s \<leftarrow> add_tag r vm_block (malloc_tags 4); tag \<leftarrow> XLogRecGetBlockTag r vm_block; Some (s, Some tag) })
             else Some (malloc_tags 4, None));
          s \<leftarrow> add_tag r (if oldblk = newblk then 0 else 1) s;
          when_do (oldblk \<noteq> newblk)
            (\<lambda>s. do { s \<leftarrow> add_tag r 0 s;
                      when_do new_vm
                        (\<lambda>s. do { new_cleared_vm \<leftarrow> XLogRecGetBlockTag r 2;
                                  when_do (old_cleared_vm \<noteq> Some new_cleared_vm) (add_tag r 2) s }) s }) s }"

definition polar_heap_lock_get_bufftag_list :: "XLogReaderState \<Rightarrow> tag_state option" where
  "polar_heap_lock_get_bufftag_list r =
     do { vm \<leftarrow> flag_set r off_lock XLH_LOCK_ALL_FROZEN_CLEARED;
          s \<leftarrow> when_do vm (add_tag r 1) (malloc_tags 2);
          add_tag r 0 s }"

definition polar_heap_idx_get_bufftag_list :: "XLogReaderState \<Rightarrow> tag_result option" where
  "polar_heap_idx_get_bufftag_list r =
     (let info = rec_info r AND XLOG_HEAP_OPMASK
      in if info = XLOG_HEAP_INSERT then
           map_option tags_done (polar_heap_insert_get_bufftag_list r)
         else if info = XLOG_HEAP_DELETE then
           map_option tags_done (polar_heap_delete_get_bufftag_list r)
         else if info = XLOG_HEAP_UPDATE then
           map_option tags_done (polar_heap_xlog_update_get_bufftag_list r)
         else if info = XLOG_HEAP_TRUNCATE then
           Some tags_unset
         else if info = XLOG_HEAP_HOT_UPDATE then
           map_option tags_done (polar_heap_xlog_update_get_bufftag_list r)
         else if info = XLOG_HEAP_CONFIRM then
           map_option tags_done (add_tag r 0 (malloc_tags 1))
         else if info = XLOG_HEAP_LOCK then
           map_option tags_done (polar_heap_lock_get_bufftag_list r)
         else if info = XLOG_HEAP_INPLACE then
           map_option tags_done (add_tag r 0 (malloc_tags 1))
         else None)"

definition polar_heap_multi_insert_get_bufftag_list :: "XLogReaderState \<Rightarrow> tag_state option" where
  "polar_heap_multi_insert_get_bufftag_list r =
     do { vm \<leftarrow> flag_set r off_multi_insert XLH_INSERT_ALL_VISIBLE_CLEARED;
          s \<leftarrow> when_do vm (add_tag r 1) (malloc_tags 2);
          add_tag r 0 s }"

definition polar_heap_lock_update_get_bufftag_list :: "XLogReaderState \<Rightarrow> tag_state option" where
  "polar_heap_lock_update_get_bufftag_list r =
     do { vm \<leftarrow> flag_set r off_lock_updated XLH_LOCK_ALL_FROZEN_CLEARED;
          s \<leftarrow> when_do vm (add_tag r 1) (malloc_tags 2);
          add_tag r 0 s }"

definition polar_heap2_idx_get_bufftag_list :: "XLogReaderState \<Rightarrow> tag_result option" where
  "polar_heap2_idx_get_bufftag_list r =
     (let info = rec_info r AND XLOG_HEAP_OPMASK
      in if info = XLOG_HEAP2_CLEAN \<or> info = XLOG_HEAP2_FREEZE_PAGE then
           map_option tags_done (add_tag r 0 (malloc_tags 1))
         else if info = XLOG_HEAP2_CLEANUP_INFO then
           Some tags_unset
         else if info = XLOG_HEAP2_VISIBLE then
           map_option tags_done (do { s \<leftarrow> add_tag r 1 (malloc_tags 2); add_tag r 0 s })
         else if info = XLOG_HEAP2_MULTI_INSERT then
           map_option tags_done (polar_heap_multi_insert_get_bufftag_list r)
         else if info = XLOG_HEAP2_LOCK_UPDATED then
           map_option tags_done (polar_heap_lock_update_get_bufftag_list r)
         else if info = XLOG_HEAP2_NEW_CID then
           Some tags_unset
         else if info = XLOG_HEAP2_REWRITE then
           Some (True, [], Some 0)
         else None)"

section \<open>B-tree and hash indexes\<close>

definition polar_btree_xlog_insert_get_bufftag_list :: "bool \<Rightarrow> bool \<Rightarrow> XLogReaderState \<Rightarrow> tag_state option" where
  "polar_btree_xlog_insert_get_bufftag_list isleaf ismeta r =
     do { s \<leftarrow> when_do (\<not> isleaf) (add_tag r 1) (malloc_tags 3);
          s \<leftarrow> add_tag r 0 s;
          when_do ismeta (add_tag r 2) s }"

definition polar_btree_xlog_split_get_bufftag_list :: "XLogReaderState \<Rightarrow> tag_state option" where
  "polar_btree_xlog_split_get_bufftag_list r =
     do { s \<leftarrow> when_do (XLogRecHasBlockRef r 3) (add_tag r 3) (malloc_tags 4);
          s \<leftarrow> add_tag r 1 s;
          s \<leftarrow> add_tag r 0 s;
          when_do (XLogRecHasBlockRef r 2) (add_tag r 2) s }"

definition polar_btree_xlog_unlink_page_get_bufftag_list :: "u8 \<Rightarrow> XLogReaderState \<Rightarrow> tag_state option" where
  "polar_btree_xlog_unlink_page_get_bufftag_list info r =
     do { s \<leftarrow> add_tag r 2 (malloc_tags 5);
          s \<leftarrow> when_do (XLogRecHasBlockRef r 1) (add_tag r 1) s;
          s \<leftarrow> add_tag r 0 s;
          s \<leftarrow> when_do (XLogRecHasBlockRef r 3) (add_tag r 3) s;
          when_do (info = XLOG_BTREE_UNLINK_PAGE_META) (add_tag r 4) s }"

definition polar_btree_xlog_newroot_get_bufftag_list :: "XLogReaderState \<Rightarrow> tag_state option" where
  "polar_btree_xlog_newroot_get_bufftag_list r =
     do { s \<leftarrow> add_tag r 0 (malloc_tags 3);
          s \<leftarrow> when_do (XLogRecHasBlockRef r 1) (add_tag r 1) s;
          add_tag r 2 s }"

definition polar_btree_idx_get_bufftag_list :: "XLogReaderState \<Rightarrow> tag_result option" where
  "polar_btree_idx_get_bufftag_list r =
     (let info = rec_info r
      in if info = XLOG_BTREE_INSERT_LEAF then
           map_option tags_done (polar_btree_xlog_insert_get_bufftag_list True False r)
         else if info = XLOG_BTREE_INSERT_UPPER then
           map_option tags_done (polar_btree_xlog_insert_get_bufftag_list False False r)
         else if info = XLOG_BTREE_INSERT_META then
           map_option tags_done (polar_btree_xlog_insert_get_bufftag_list False True r)
         else if info = XLOG_BTREE_SPLIT_L \<or> info = XLOG_BTREE_SPLIT_R then
           map_option tags_done (polar_btree_xlog_split_get_bufftag_list r)
         else if info = XLOG_BTREE_INSERT_POST then
           map_option tags_done (polar_btree_xlog_insert_get_bufftag_list True False r)
         else if info = XLOG_BTREE_DEDUP then
           map_option tags_done (add_tag r 0 (malloc_tags 1))
         else if info = XLOG_BTREE_VACUUM then
           map_option tags_done (add_tag r 0 (malloc_tags 1))
         else if info = XLOG_BTREE_DELETE then
           map_option tags_done (add_tag r 0 (malloc_tags 1))
         else if info = XLOG_BTREE_MARK_PAGE_HALFDEAD then
           map_option tags_done (do { s \<leftarrow> add_tag r 1 (malloc_tags 2); add_tag r 0 s })
         else if info = XLOG_BTREE_UNLINK_PAGE \<or> info = XLOG_BTREE_UNLINK_PAGE_META then
           map_option tags_done (polar_btree_xlog_unlink_page_get_bufftag_list info r)
         else if info = XLOG_BTREE_NEWROOT then
           map_option tags_done (polar_btree_xlog_newroot_get_bufftag_list r)
         else if info = XLOG_BTREE_REUSE_PAGE then
           Some tags_unset
         else if info = XLOG_BTREE_META_CLEANUP then
           map_option tags_done (add_tag r 0 (malloc_tags 1))
         else None)"

definition polar_hash_xlog_add_ovfl_page_get_bufftag_list :: "XLogReaderState \<Rightarrow> tag_state option" where
  "polar_hash_xlog_add_ovfl_page_get_bufftag_list r =
     do { s \<leftarrow> add_tag r 0 (malloc_tags 5);
          s \<leftarrow> add_tag r 1 s;
          s \<leftarrow> when_do (XLogRecHasBlockRef r 2) (add_tag r 2) s;
          s \<leftarrow> when_do (XLogRecHasBlockRef r 3) (add_tag r 3) s;
          add_tag r 4 s }"

definition polar_hash_xlog_move_page_contents_get_bufftag_list :: "XLogReaderState \<Rightarrow> tag_state option" where
  "polar_hash_xlog_move_page_contents_get_bufftag_list r =
     do { s \<leftarrow> (if XLogRecHasBlockRef r 0 then do { s \<leftarrow> add_tag r 0 (malloc_tags 3); add_tag r 1 s } else add_tag r 1 (malloc_tags 3));
          add_tag r 2 s }"

definition polar_hash_xlog_squeeze_page_get_bufftag_list :: "XLogReaderState \<Rightarrow> tag_state option" where
  "polar_hash_xlog_squeeze_page_get_bufftag_list r =
     do { s \<leftarrow> (if XLogRecHasBlockRef r 0 then do { s \<leftarrow> add_tag r 0 (malloc_tags 7); add_tag r 1 s } else add_tag r 1 (malloc_tags 7));
          s \<leftarrow> add_tag r 2 s;
          s \<leftarrow> when_do (XLogRecHasBlockRef r 3) (add_tag r 3) s;
          s \<leftarrow> when_do (XLogRecHasBlockRef r 4) (add_tag r 4) s;
          s \<leftarrow> add_tag r 5 s;
          when_do (XLogRecHasBlockRef r 6) (add_tag r 6) s }"

definition polar_hash_xlog_delete_get_bufftag_list :: "XLogReaderState \<Rightarrow> tag_state option" where
  "polar_hash_xlog_delete_get_bufftag_list r =
     (if XLogRecHasBlockRef r 0 then do { s \<leftarrow> add_tag r 0 (malloc_tags 2); add_tag r 1 s } else add_tag r 1 (malloc_tags 2))"

definition polar_hash_idx_get_bufftag_list :: "XLogReaderState \<Rightarrow> tag_result option" where
  "polar_hash_idx_get_bufftag_list r =
     (let info = rec_info r
      in if info = XLOG_HASH_INIT_META_PAGE then
           map_option tags_done (add_tag r 0 (malloc_tags 1))
         else if info = XLOG_HASH_INIT_BITMAP_PAGE then
           map_option tags_done (do { s \<leftarrow> add_tag r 0 (malloc_tags 2); add_tag r 1 s })
         else if info = XLOG_HASH_INSERT then
           map_option tags_done (do { s \<leftarrow> add_tag r 0 (malloc_tags 2); add_tag r 1 s })
         else if info = XLOG_HASH_ADD_OVFL_PAGE then
           map_option tags_done (polar_hash_xlog_add_ovfl_page_get_bufftag_list r)
         else if info = XLOG_HASH_SPLIT_ALLOCATE_PAGE then
           map_option tags_done (do { s \<leftarrow> add_tag r 0 (malloc_tags 3); s \<leftarrow> add_tag r 1 s; add_tag r 2 s })
         else if info = XLOG_HASH_SPLIT_PAGE then
           map_option tags_done (add_tag r 0 (malloc_tags 1))
         else if info = XLOG_HASH_SPLIT_COMPLETE then
           map_option tags_done (do { s \<leftarrow> add_tag r 0 (malloc_tags 2); add_tag r 1 s })
         else if info = XLOG_HASH_MOVE_PAGE_CONTENTS then
           map_option tags_done (polar_hash_xlog_move_page_contents_get_bufftag_list r)
         else if info = XLOG_HASH_SQUEEZE_PAGE then
           map_option tags_done (polar_hash_xlog_squeeze_page_get_bufftag_list r)
         else if info = XLOG_HASH_DELETE then
           map_option tags_done (polar_hash_xlog_delete_get_bufftag_list r)
         else if info = XLOG_HASH_SPLIT_CLEANUP \<or> info = XLOG_HASH_UPDATE_META_PAGE then
           map_option tags_done (add_tag r 0 (malloc_tags 1))
         else if info = XLOG_HASH_VACUUM_ONE_PAGE then
           map_option tags_done (do { s \<leftarrow> add_tag r 0 (malloc_tags 2); add_tag r 1 s })
         else None)"

section \<open>GIN and GiST indexes\<close>

definition polar_gin_redo_insert_get_bufftag_list :: "XLogReaderState \<Rightarrow> tag_state option" where
  "polar_gin_redo_insert_get_bufftag_list r =
     do { s \<leftarrow> when_do (XLogRecHasBlockRef r 1) (add_tag r 1) (malloc_tags 2);
          add_tag r 0 s }"

definition polar_gin_redo_split_get_bufftag_list :: "XLogReaderState \<Rightarrow> tag_state option" where
  "polar_gin_redo_split_get_bufftag_list r =
     do { s \<leftarrow> when_do (XLogRecHasBlockRef r 3) (add_tag r 3) (malloc_tags 4);
          s \<leftarrow> add_tag r 0 s;
          s \<leftarrow> add_tag r 1 s;
          when_do (XLogRecHasBlockRef r 2) (add_tag r 2) s }"

definition polar_gin_redo_update_metapage_get_bufftag_list :: "XLogReaderState \<Rightarrow> tag_state option" where
  "polar_gin_redo_update_metapage_get_bufftag_list r =
     do { s \<leftarrow> add_tag r 0 (malloc_tags 2);
          when_do (XLogRecHasBlockRef r 1) (add_tag r 1) s }"

definition polar_gin_redo_delete_list_pages_get_bufftag_list :: "XLogReaderState \<Rightarrow> tag_state option" where
  "polar_gin_redo_delete_list_pages_get_bufftag_list r =
     (let tagCount = 1 + length (takeWhile (XLogRecHasBlockRef r) [1..<GIN_NDELETE_AT_ONCE + 1])
      in do { s \<leftarrow> add_tag r 0 (malloc_tags tagCount);
              parse_while (add_tag r) r [1..<GIN_NDELETE_AT_ONCE + 1] s })"

definition polar_gin_idx_get_bufftag_list :: "XLogReaderState \<Rightarrow> tag_result option" where
  "polar_gin_idx_get_bufftag_list r =
     (let info = rec_info r
      in if info = XLOG_GIN_CREATE_PTREE then
           map_option tags_done (add_tag r 0 (malloc_tags 1))
         else if info = XLOG_GIN_INSERT then
           map_option tags_done (polar_gin_redo_insert_get_bufftag_list r)
         else if info = XLOG_GIN_SPLIT then
           map_option tags_done (polar_gin_redo_split_get_bufftag_list r)
         else if info = XLOG_GIN_VACUUM_PAGE \<or> info = XLOG_GIN_VACUUM_DATA_LEAF_PAGE then
           map_option tags_done (add_tag r 0 (malloc_tags 1))
         else if info = XLOG_GIN_DELETE_PAGE then
           map_option tags_done (do { s \<leftarrow> add_tag r 2 (malloc_tags 3); s \<leftarrow> add_tag r 0 s; add_tag r 1 s })
         else if info = XLOG_GIN_UPDATE_META_PAGE then
           map_option tags_done (polar_gin_redo_update_metapage_get_bufftag_list r)
         else if info = XLOG_GIN_INSERT_LISTPAGE then
           map_option tags_done (add_tag r 0 (malloc_tags 1))
         else if info = XLOG_GIN_DELETE_LISTPAGE then
           map_option tags_done (polar_gin_redo_delete_list_pages_get_bufftag_list r)
         else Some (False, [], None))"

definition polar_gist_redo_page_update_record_get_bufftag_list :: "XLogReaderState \<Rightarrow> tag_state option" where
  "polar_gist_redo_page_update_record_get_bufftag_list r =
     do { s \<leftarrow> add_tag r 0 (malloc_tags 2);
          when_do (XLogRecHasBlockRef r 1) (add_tag r 1) s }"

definition polar_gist_redo_page_split_record_get_bufftag_list :: "XLogReaderState \<Rightarrow> tag_state option" where
  "polar_gist_redo_page_split_record_get_bufftag_list r =
     (let tagCount = 1 + length (takeWhile (XLogRecHasBlockRef r) [2..<XLR_MAX_BLOCK_ID + 1]) + (if XLogRecHasBlockRef r 0 then 1 else 0)
      in do { s \<leftarrow> add_tag r 1 (malloc_tags tagCount);
              s \<leftarrow> parse_while (add_tag r) r [2..<XLR_MAX_BLOCK_ID + 1] s;
              when_do (XLogRecHasBlockRef r 0) (add_tag r 0) s })"

definition polar_gist_idx_get_bufftag_list :: "XLogReaderState \<Rightarrow> tag_result option" where
  "polar_gist_idx_get_bufftag_list r =
     (let info = rec_info r
      in if info = XLOG_GIST_PAGE_UPDATE then
           map_option tags_done (polar_gist_redo_page_update_record_get_bufftag_list r)
         else if info = XLOG_GIST_DELETE then
           map_option tags_done (add_tag r 0 (malloc_tags 1))
         else if info = XLOG_GIST_PAGE_REUSE then
           Some tags_unset
         else if info = XLOG_GIST_PAGE_SPLIT then
           map_option tags_done (polar_gist_redo_page_split_record_get_bufftag_list r)
         else if info = XLOG_GIST_PAGE_DELETE then
           map_option tags_done (do { s \<leftarrow> add_tag r 0 (malloc_tags 2); add_tag r 1 s })
         else if info = XLOG_GIST_ASSIGN_LSN then
           Some tags_unset
         else None)"

section \<open>SP-GiST and BRIN indexes\<close>

definition polar_spg_redo_add_node_get_bufftag_list :: "XLogReaderState \<Rightarrow> tag_state option" where
  "polar_spg_redo_add_node_get_bufftag_list r =
     (if \<not> XLogRecHasBlockRef r 1 then add_tag r 0 (malloc_tags 3)
      else do { s \<leftarrow> add_tag r 1 (malloc_tags 3);
                s \<leftarrow> add_tag r 0 s;
                when_do (XLogRecHasBlockRef r 2) (add_tag r 2) s })"

definition polar_spg_redo_pick_split_get_bufftag_list :: "XLogReaderState \<Rightarrow> tag_state option" where
  "polar_spg_redo_pick_split_get_bufftag_list r =
     do { s \<leftarrow> when_do (XLogRecHasBlockRef r 0) (add_tag r 0) (malloc_tags 4);
          s \<leftarrow> when_do (XLogRecHasBlockRef r 1) (add_tag r 1) s;
          s \<leftarrow> add_tag r 2 s;
          when_do (XLogRecHasBlockRef r 3) (add_tag r 3) s }"

definition polar_spg_idx_get_bufftag_list :: "XLogReaderState \<Rightarrow> tag_result option" where
  "polar_spg_idx_get_bufftag_list r =
     (let info = rec_info r
      in if info = XLOG_SPGIST_ADD_LEAF then
           map_option tags_done (do { s \<leftarrow> add_tag r 0 (malloc_tags 2); when_do (XLogRecHasBlockRef r 1) (add_tag r 1) s })
         else if info = XLOG_SPGIST_MOVE_LEAFS then
           map_option tags_done (do { s \<leftarrow> add_tag r 0 (malloc_tags 3); s \<leftarrow> add_tag r 1 s; add_tag r 2 s })
         else if info = XLOG_SPGIST_ADD_NODE then
           map_option tags_done (polar_spg_redo_add_node_get_bufftag_list r)
         else if info = XLOG_SPGIST_SPLIT_TUPLE then
           map_option tags_done (do { s \<leftarrow> when_do (XLogRecHasBlockRef r 1) (add_tag r 1) (malloc_tags 2); add_tag r 0 s })
         else if info = XLOG_SPGIST_PICKSPLIT then
           map_option tags_done (polar_spg_redo_pick_split_get_bufftag_list r)
         else if info = XLOG_SPGIST_VACUUM_LEAF \<or> info = XLOG_SPGIST_VACUUM_ROOT \<or> info = XLOG_SPGIST_VACUUM_REDIRECT then
           map_option tags_done (add_tag r 0 (malloc_tags 1))
         else None)"

definition polar_brin_idx_get_bufftag_list :: "XLogReaderState \<Rightarrow> tag_result option" where
  "polar_brin_idx_get_bufftag_list r =
     (let info = rec_info r AND XLOG_BRIN_OPMASK
      in if info = XLOG_BRIN_CREATE_INDEX then
           map_option tags_done (add_tag r 0 (malloc_tags 1))
         else if info = XLOG_BRIN_INSERT then
           map_option tags_done (do { s \<leftarrow> add_tag r 0 (malloc_tags 2); add_tag r 1 s })
         else if info = XLOG_BRIN_UPDATE then
           map_option tags_done (do { s \<leftarrow> add_tag r 2 (malloc_tags 3); s \<leftarrow> add_tag r 0 s; add_tag r 1 s })
         else if info = XLOG_BRIN_SAMEPAGE_UPDATE then
           map_option tags_done (add_tag r 0 (malloc_tags 1))
         else if info = XLOG_BRIN_REVMAP_EXTEND then
           map_option tags_done (do { s \<leftarrow> add_tag r 0 (malloc_tags 2); add_tag r 1 s })
         else if info = XLOG_BRIN_DESUMMARIZE then
           map_option tags_done (do { s \<leftarrow> add_tag r 0 (malloc_tags 2); add_tag r 1 s })
         else Some (False, [], None))"

section \<open>Dispatch\<close>

definition GetXlogBuffTagList :: "XLogReaderState \<Rightarrow> tag_result option" where
  "GetXlogBuffTagList r =
     (if rmid r = RM_XLOG_ID then polar_xlog_idx_get_bufftag_list r
      else if rmid r = RM_HEAP2_ID then polar_heap2_idx_get_bufftag_list r
      else if rmid r = RM_HEAP_ID then polar_heap_idx_get_bufftag_list r
      else if rmid r = RM_BTREE_ID then polar_btree_idx_get_bufftag_list r
      else if rmid r = RM_HASH_ID then polar_hash_idx_get_bufftag_list r
      else if rmid r = RM_GIN_ID then polar_gin_idx_get_bufftag_list r
      else if rmid r = RM_GIST_ID then polar_gist_idx_get_bufftag_list r
      else if rmid r = RM_SEQ_ID then polar_seq_idx_get_bufftag_list r
      else if rmid r = RM_SPGIST_ID then polar_spg_idx_get_bufftag_list r
      else if rmid r = RM_BRIN_ID then polar_brin_idx_get_bufftag_list r
      else if rmid r = RM_GENERIC_ID then polar_generic_idx_get_bufftag_list r
      else Some (False, [], None))"

end
