(* ===== verification/WalLaws.thy ===== *)
theory WalLaws
  imports WalTags
begin

text \<open>
  Facts about indexing: a save function makes a fixed sequence of calls, which only depends on the
  record; what the calls do to the page version map; and which blocks the heap records get from the
  decoding pass.
\<close>

section \<open>The blocks a record is entered under\<close>

definition collect :: "nat \<Rightarrow> nat list \<Rightarrow> nat list option" where
  "collect i ids = Some (ids @ [i])"

definition record_blocks :: "XLogReaderState \<Rightarrow> (bool \<times> nat list) option" where
  "record_blocks r = idx_save collect r []"

lemma collect_simp [simp]: "collect i ids = Some (ids @ [i])"
  by (simp add: collect_def)

lemma foldm_collect [simp]: "foldm collect xs ids = Some (ids @ xs)"
  by (induction xs arbitrary: ids) simp_all

lemma foldm_when: "foldm (\<lambda>i. when_do (P i) (f i)) xs s = foldm f (filter P xs) s"
  by (induction xs arbitrary: s) (simp_all add: when_do_def)

lemma parse_while_eq: "parse_while f r is = foldm f (takeWhile (XLogRecHasBlockRef r) is)"
proof (induction "is")
  case (Cons i "is")
  show ?case by (rule ext) (simp add: Cons.IH)
qed (simp add: fun_eq_iff)

lemmas save_loops = parse_all_def parse_used_def foldm_when parse_while_eq foldm_append

lemmas straight_defs = polar_heap_insert_save_def polar_heap_delete_save_def polar_heap_lock_save_def
  polar_heap_multi_insert_save_def polar_heap_lock_update_save_def
  polar_btree_xlog_insert_save_def polar_btree_xlog_split_save_def polar_btree_xlog_unlink_page_save_def
  polar_btree_xlog_newroot_save_def polar_hash_xlog_add_ovfl_page_save_def
  polar_hash_xlog_move_page_contents_save_def polar_hash_xlog_squeeze_page_save_def polar_hash_xlog_delete_save_def
  polar_gin_redo_insert_save_def polar_gin_redo_split_save_def polar_gin_redo_update_metapage_save_def
  polar_gist_redo_page_update_record_save_def polar_spg_redo_add_node_save_def polar_spg_redo_pick_split_save_def

lemmas save_defs = straight_defs polar_gin_redo_delete_list_pages_save_def polar_gist_redo_page_split_record_save_def

lemmas idx_save_defs = polar_xlog_idx_save_def polar_seq_idx_save_def polar_generic_idx_save_def
  polar_heap_idx_save_def polar_heap2_idx_save_def polar_btree_idx_save_def polar_hash_idx_save_def
  polar_gin_idx_save_def polar_gist_idx_save_def polar_spg_idx_save_def polar_brin_idx_save_def

text \<open>A save function run with the call \<open>v\<close> makes the calls on the blocks it names and nothing else.\<close>

abbreviation replays :: "(bool \<times> nat list) option \<Rightarrow> 's parse \<Rightarrow> 's \<Rightarrow> (bool \<times> 's) option" where
  "replays bs v s \<equiv> Option.bind bs (\<lambda>(p, ids). map_option (Pair p) (foldm v ids s))"

lemma bind_None_right: "Option.bind x (\<lambda>_. None) = None"
  by (cases x) simp_all

lemma map_option_bind: "map_option f (Option.bind x g) = Option.bind x (\<lambda>y. map_option f (g y))"
  by (cases x) simp_all

lemma bind_Some_Pair: "Option.bind x (\<lambda>s. Some (p, s)) = map_option (Pair p) x"
  by (cases x) simp_all

lemmas run_simps = save_defs save_loops Let_def when_do_def bind_None_right map_option_bind bind_Some_Pair Option.bind_assoc

lemma small_save:
  "polar_xlog_idx_save v r s = replays (polar_xlog_idx_save collect r []) v s"
  "polar_seq_idx_save v r s = replays (polar_seq_idx_save collect r []) v s"
  "polar_generic_idx_save v r s = replays (polar_generic_idx_save collect r []) v s"
  by (simp_all add: polar_xlog_idx_save_def polar_seq_idx_save_def polar_generic_idx_save_def run_simps)

lemma heap2_save: "polar_heap2_idx_save v r s = replays (polar_heap2_idx_save collect r []) v s"
  by (cases "flag_set r 7 1"; cases "flag_set r 0 1") (simp_all add: polar_heap2_idx_save_def run_simps)

lemma btree_save: "polar_btree_idx_save v r s = replays (polar_btree_idx_save collect r []) v s"
  by (simp add: polar_btree_idx_save_def run_simps)

lemma hash_save: "polar_hash_idx_save v r s = replays (polar_hash_idx_save collect r []) v s"
  by (simp add: polar_hash_idx_save_def run_simps)

lemma gin_save: "polar_gin_idx_save v r s = replays (polar_gin_idx_save collect r []) v s"
  by (simp add: polar_gin_idx_save_def run_simps)

lemma gist_save: "polar_gist_idx_save v r s = replays (polar_gist_idx_save collect r []) v s"
  by (simp add: polar_gist_idx_save_def run_simps)

lemma spg_save: "polar_spg_idx_save v r s = replays (polar_spg_idx_save collect r []) v s"
  by (simp add: polar_spg_idx_save_def run_simps)

lemma brin_save: "polar_brin_idx_save v r s = replays (polar_brin_idx_save collect r []) v s"
  by (simp add: polar_brin_idx_save_def run_simps)

lemma update_save:
  "polar_heap_xlog_update_save v r s =
     Option.bind (polar_heap_xlog_update_save collect r []) (\<lambda>ids. foldm v ids s)"
  by (cases "XLogRecGetBlockTag r 0"; cases "flag_set r 7 1"; cases "flag_set r 7 2";
      cases "XLogRecGetBlockTag r 2"; cases "XLogRecGetBlockTag r 3")
    (simp_all add: polar_heap_xlog_update_save_def run_simps)

lemma heap_save: "polar_heap_idx_save v r s = replays (polar_heap_idx_save collect r []) v s"
  by (cases "flag_set r 7 1"; cases "flag_set r 2 1"; cases "polar_heap_xlog_update_save collect r []")
    (simp_all add: polar_heap_idx_save_def run_simps update_save [of v r s])

lemma idx_save_run: "idx_save v r s = replays (record_blocks r) v s"
  unfolding idx_save_def record_blocks_def small_save [of v r s] heap2_save [of v r s] heap_save [of v r s]
    btree_save [of v r s] hash_save [of v r s] gin_save [of v r s] gist_save [of v r s] spg_save [of v r s]
    brin_save [of v r s]
  by simp

section \<open>What indexing a record does to the map\<close>

text \<open>The chain of a page and the LSN it is replayed up to; empty and 0 for an unknown page.\<close>

definition entries :: "HashMap \<Rightarrow> KeyType \<Rightarrow> LsnEntry list \<times> u64" where
  "entries m k = (case versions m k of None \<Rightarrow> ([], 0) | Some x \<Rightarrow> x)"

definition enters :: "XLogReaderState \<Rightarrow> nat \<Rightarrow> bool" where
  "enters r i \<longleftrightarrow> int i \<le> max_block_id r \<and> XLogRecHasBlockRef r i"

definition keys_of :: "XLogReaderState \<Rightarrow> nat list \<Rightarrow> KeyType set" where
  "keys_of r ids = (\<lambda>i. block_key (blocks r i)) ` {i \<in> set ids. enters r i}"

definition record_keys :: "XLogReaderState \<Rightarrow> KeyType set" where
  "record_keys r = (case record_blocks r of None \<Rightarrow> {} | Some (p, ids) \<Rightarrow> keys_of r ids)"

definition add_entry :: "u64 \<Rightarrow> LsnEntry list \<times> u64 \<Rightarrow> LsnEntry list \<times> u64" where
  "add_entry l x = (fst x @ [\<lparr>lsn = l, pageNum = 0\<rparr>], snd x)"

text \<open>All LSNs in the map are below \<open>l\<close>: the WAL is indexed in order.\<close>

definition older :: "HashMap \<Rightarrow> u64 \<Rightarrow> bool" where
  "older m l \<longleftrightarrow> (\<forall>k. \<forall>e \<in> set (fst (entries m k)). lsn e < l)"

lemma entries_insert:
  assumes "entries m k = x \<or> entries m k = add_entry l x" "\<forall>e \<in> set (fst x). lsn e < l"
    and "hm_free m" "v = fst (v_insert blk (versions m) k l 0 True)"
  shows "v = (versions m)(k \<mapsto> add_entry l x)"
proof (cases "versions m k")
  case None
  with assms show ?thesis by (auto simp: v_insert_def v_first_def entries_def add_entry_def)
next
  case (Some y)
  then have es: "fst (entries m k) \<noteq> []" using hm.chain_law [OF assms(3), of k "fst y" "snd y"] by (simp add: entries_def)
  have y: "entries m k = y" using Some by (simp add: entries_def)
  from assms(1) show ?thesis
  proof
    assume x: "entries m k = x"
    then have "lsn (last (fst x)) < l" using assms(2) es by simp
    with Some x y assms(4) show ?thesis by (auto simp: v_insert_def v_append_def add_entry_def split: prod.splits)
  next
    assume "entries m k = add_entry l x"
    with Some y have "versions m k = Some (fst x @ [\<lparr>lsn = l, pageNum = 0\<rparr>], snd x)" by (simp add: add_entry_def)
    with assms(4) show ?thesis by (simp add: v_insert_def v_append_def add_entry_def)
  qed
qed

lemma ParseXLogBlocksLsn_ok:
  assumes "hm_free m" "fresh_block (alloc m) m" "ReadRecPtr r \<noteq> 0"
    and "enters r i \<Longrightarrow> entries m (block_key (blocks r i)) = x \<or> entries m (block_key (blocks r i)) = add_entry (ReadRecPtr r) x"
    and "\<forall>e \<in> set (fst x). lsn e < ReadRecPtr r"
  obtains m' where "ParseXLogBlocksLsn alloc r i m = Some m'" "hm_free m'"
    "versions m' = (if enters r i then (versions m)(block_key (blocks r i) \<mapsto> add_entry (ReadRecPtr r) x) else versions m)"
proof (cases "enters r i")
  case True
  from hm.ins_law [OF assms(1-3), of "block_key (blocks r i)" 0 True] obtain m' res where m':
    "HashMapInsertKey (alloc m) m (block_key (blocks r i)) (ReadRecPtr r) 0 True = Some (m', res)" "hm_free m'"
    "versions m' = fst (v_insert (alloc m) (versions m) (block_key (blocks r i)) (ReadRecPtr r) 0 True)" by blast
  with entries_insert [OF assms(4) [OF True] assms(5,1) m'(3)] True that show ?thesis
    by (simp add: ParseXLogBlocksLsn_def enters_def XLogRecHasBlockRef_def XLogRecGetBlockTag_def)
next
  case False
  with that assms(1) show ?thesis by (auto simp: ParseXLogBlocksLsn_def enters_def XLogRecHasBlockRef_def)
qed

lemma index_blocks:
  assumes "hm_free m" and alloc: "\<And>m. hm_free m \<Longrightarrow> fresh_block (alloc m) m" and r: "ReadRecPtr r \<noteq> 0"
    and "\<And>k. entries m k = (if k \<in> K then add_entry (ReadRecPtr r) (X k) else X k)"
    and X: "\<And>k. \<forall>e \<in> set (fst (X k)). lsn e < ReadRecPtr r"
  shows "\<exists>m'. foldm (ParseXLogBlocksLsn alloc r) ids m = Some m' \<and> hm_free m' \<and>
    (\<forall>k. entries m' k = (if k \<in> K \<union> keys_of r ids then add_entry (ReadRecPtr r) (X k) else X k))"
  using assms(1,4)
proof (induction ids arbitrary: m K)
  case Nil
  then show ?case by (simp add: keys_of_def)
next
  case (Cons i ids)
  let ?k = "block_key (blocks r i)" and ?l = "ReadRecPtr r"
  have k: "entries m ?k = X ?k \<or> entries m ?k = add_entry ?l (X ?k)" using Cons.prems(2) by simp
  obtain m1 where m1: "ParseXLogBlocksLsn alloc r i m = Some m1" "hm_free m1"
    "versions m1 = (if enters r i then (versions m)(?k \<mapsto> add_entry ?l (X ?k)) else versions m)"
    by (rule ParseXLogBlocksLsn_ok [of m alloc r i "X ?k", OF Cons.prems(1) alloc [OF Cons.prems(1)] r k X])
  let ?K = "if enters r i then insert ?k K else K"
  have "entries m1 k = (if k \<in> ?K then add_entry ?l (X k) else X k)" for k
    using Cons.prems(2) [of k] m1(3) by (auto simp: entries_def)
  from Cons.IH [OF m1(2) this] obtain m' where m': "foldm (ParseXLogBlocksLsn alloc r) ids m1 = Some m'" "hm_free m'"
    "\<forall>k. entries m' k = (if k \<in> ?K \<union> keys_of r ids then add_entry ?l (X k) else X k)" by blast
  have "K \<union> keys_of r (i # ids) = ?K \<union> keys_of r ids" by (auto simp: keys_of_def)
  with m1(1) m' show ?case by simp
qed

lemma ParseLogIndexXlog_ok:
  assumes "hm_free m" "\<And>m. hm_free m \<Longrightarrow> fresh_block (alloc m) m" "ReadRecPtr r \<noteq> 0" "older m (ReadRecPtr r)"
    and "record_blocks r = Some (p, ids)"
  shows "\<exists>m'. ParseLogIndexXlog alloc r m = Some (p, m') \<and> hm_free m' \<and>
    (\<forall>k. entries m' k = (if k \<in> record_keys r then add_entry (ReadRecPtr r) (entries m k) else entries m k))"
proof -
  have "\<exists>m'. foldm (ParseXLogBlocksLsn alloc r) ids m = Some m' \<and> hm_free m' \<and>
      (\<forall>k. entries m' k = (if k \<in> {} \<union> keys_of r ids then add_entry (ReadRecPtr r) (entries m k) else entries m k))"
    by (rule index_blocks [OF assms(1-3)]) (use assms(4) in \<open>auto simp: older_def\<close>)
  with assms(5) show ?thesis by (auto simp: ParseLogIndexXlog_def idx_save_run record_keys_def)
qed

end
