(* ===== verification/WalProps.thy ===== *)
theory WalProps
  imports WalLaws VersionProps
begin

text \<open>
  The properties of the log index: entering a record, the visibility-map blocks of heap records, and
  the lists of buffer tags.
\<close>

section \<open>Tag lists\<close>

text \<open>
  What a \<open>*_get_bufftag_list\<close> function with the misplaced parentheses makes of a record with the
  blocks \<open>ids\<close>: nothing to report, one tag, or a fault.
\<close>

definition tag_outcome :: "XLogReaderState \<Rightarrow> nat list \<Rightarrow> tag_result option \<Rightarrow> bool" where
  "tag_outcome r ids res \<longleftrightarrow>
     (case ids of
        [] \<Rightarrow> (\<exists>arr n. res = Some (True, arr, n) \<and> (n = None \<or> n = Some 0))
      | [i] \<Rightarrow> (\<exists>arr. res = Some (True, Some (block_tag (blocks r i)) # arr, Some 1))
      | _ \<Rightarrow> res = None)"

lemma tag_outcome_simps [simp]:
  "tag_outcome r [] res \<longleftrightarrow> (\<exists>arr n. res = Some (True, arr, n) \<and> (n = None \<or> n = Some 0))"
  "tag_outcome r (i # ids) res \<longleftrightarrow>
     (if ids = [] then \<exists>arr. res = Some (True, Some (block_tag (blocks r i)) # arr, Some 1) else res = None)"
  by (simp_all add: tag_outcome_def split: list.splits)

lemma add_tag_first [simp]:
  "in_use (blocks r i) \<Longrightarrow> 0 < n \<Longrightarrow>
   add_tag r i (malloc_tags n) = Some (Some (block_tag (blocks r i)), Some (block_tag (blocks r i)) # replicate (n - 1) None, 1)"
  by (cases n) (simp_all add: add_tag_def malloc_tags_def read_tag_def XLogRecGetBlockTag_def)

lemma add_tag_later [simp]: "0 < n \<Longrightarrow> add_tag r i (cur, arr, n) = None"
  by (simp add: add_tag_def split: option.splits)

lemma foldm_add_tag [simp]: "0 < n \<Longrightarrow> foldm (add_tag r) ids (cur, arr, n) = (if ids = [] then Some (cur, arr, n) else None)"
  by (cases ids) simp_all

lemma tags_done_simps [simp]: "tags_done (cur, arr, n) = (True, arr, Some n)" "tags_done (malloc_tags n) = (True, replicate n None, Some 0)"
  by (simp_all add: tags_done_def malloc_tags_def)

lemmas tag_defs = polar_heap_delete_get_bufftag_list_def polar_heap_lock_get_bufftag_list_def
  polar_heap_multi_insert_get_bufftag_list_def polar_heap_lock_update_get_bufftag_list_def
  polar_btree_xlog_insert_get_bufftag_list_def polar_btree_xlog_split_get_bufftag_list_def
  polar_btree_xlog_unlink_page_get_bufftag_list_def polar_btree_xlog_newroot_get_bufftag_list_def
  polar_hash_xlog_add_ovfl_page_get_bufftag_list_def polar_hash_xlog_move_page_contents_get_bufftag_list_def
  polar_hash_xlog_squeeze_page_get_bufftag_list_def polar_hash_xlog_delete_get_bufftag_list_def
  polar_gin_redo_insert_get_bufftag_list_def polar_gin_redo_split_get_bufftag_list_def
  polar_gin_redo_update_metapage_get_bufftag_list_def
  polar_gist_redo_page_update_record_get_bufftag_list_def
  polar_spg_redo_add_node_get_bufftag_list_def polar_spg_redo_pick_split_get_bufftag_list_def

lemmas tag_run = straight_defs tag_defs save_loops Let_def when_do_def

abbreviation used :: "XLogReaderState \<Rightarrow> nat list \<Rightarrow> bool" where
  "used r ids \<equiv> \<forall>i \<in> set ids. in_use (blocks r i)"

lemma btree_tags:
  "polar_btree_idx_save collect r [] = Some (True, ids) \<Longrightarrow> used r ids \<Longrightarrow>
   tag_outcome r ids (polar_btree_idx_get_bufftag_list r)"
  by (auto simp: polar_btree_idx_save_def polar_btree_idx_get_bufftag_list_def tag_run split: if_splits)

lemma hash_tags:
  "polar_hash_idx_save collect r [] = Some (True, ids) \<Longrightarrow> used r ids \<Longrightarrow>
   tag_outcome r ids (polar_hash_idx_get_bufftag_list r)"
  by (auto simp: polar_hash_idx_save_def polar_hash_idx_get_bufftag_list_def tag_run split: if_splits)

text \<open>The blocks from \<open>a\<close> on, up to the first one that is not in use.\<close>

definition later :: "XLogReaderState \<Rightarrow> nat \<Rightarrow> nat \<Rightarrow> nat list" where
  "later r a b = takeWhile (XLogRecHasBlockRef r) [a..<b]"

lemma gin_list_pages:
  "polar_gin_redo_delete_list_pages_save collect r [] = Some (0 # later r 1 (16 + 1))"
  "in_use (blocks r 0) \<Longrightarrow> polar_gin_redo_delete_list_pages_get_bufftag_list r =
    (if later r 1 (16 + 1) = []
     then Some (Some (block_tag (blocks r 0)), [Some (block_tag (blocks r 0))], 1) else None)"
  unfolding polar_gin_redo_delete_list_pages_save_def polar_gin_redo_delete_list_pages_get_bufftag_list_def Let_def
    parse_while_eq later_def [symmetric] by simp_all

lemma gist_split_pages:
  "polar_gist_redo_page_split_record_save collect r [] =
    Some (1 # later r 2 (32 + 1) @ (if XLogRecHasBlockRef r 0 then [0] else []))"
  "in_use (blocks r 1) \<Longrightarrow> polar_gist_redo_page_split_record_get_bufftag_list r =
    (if later r 2 (32 + 1) = [] \<and> \<not> XLogRecHasBlockRef r 0
     then Some (Some (block_tag (blocks r 1)), [Some (block_tag (blocks r 1))], 1) else None)"
  unfolding polar_gist_redo_page_split_record_save_def polar_gist_redo_page_split_record_get_bufftag_list_def Let_def
    parse_while_eq later_def [symmetric] by (simp_all add: when_do_def)

lemma gin_tags:
  "polar_gin_idx_save collect r [] = Some (True, ids) \<Longrightarrow> used r ids \<Longrightarrow>
   tag_outcome r ids (polar_gin_idx_get_bufftag_list r)"
  by (auto simp: polar_gin_idx_save_def polar_gin_idx_get_bufftag_list_def tag_run gin_list_pages split: if_splits)

lemma gist_tags:
  "polar_gist_idx_save collect r [] = Some (True, ids) \<Longrightarrow> used r ids \<Longrightarrow>
   tag_outcome r ids (polar_gist_idx_get_bufftag_list r)"
  by (auto simp: polar_gist_idx_save_def polar_gist_idx_get_bufftag_list_def tag_run gist_split_pages split: if_splits)

lemma spg_tags:
  "polar_spg_idx_save collect r [] = Some (True, ids) \<Longrightarrow> used r ids \<Longrightarrow>
   tag_outcome r ids (polar_spg_idx_get_bufftag_list r)"
  by (auto simp: polar_spg_idx_save_def polar_spg_idx_get_bufftag_list_def tag_run split: if_splits)

lemma brin_tags:
  "polar_brin_idx_save collect r [] = Some (True, ids) \<Longrightarrow> used r ids \<Longrightarrow>
   tag_outcome r ids (polar_brin_idx_get_bufftag_list r)"
  by (auto simp: polar_brin_idx_save_def polar_brin_idx_get_bufftag_list_def tag_run split: if_splits)

lemma heap2_tags:
  "polar_heap2_idx_save collect r [] = Some (True, ids) \<Longrightarrow> used r ids \<Longrightarrow>
   tag_outcome r ids (polar_heap2_idx_get_bufftag_list r)"
  by (cases "flag_set r 7 1"; cases "flag_set r 0 1") (auto simp: polar_heap2_idx_save_def polar_heap2_idx_get_bufftag_list_def tag_run split: if_splits)

lemma seq_tags:
  "polar_seq_idx_save collect r [] = Some (True, ids) \<Longrightarrow> used r ids \<Longrightarrow>
   tag_outcome r ids (polar_seq_idx_get_bufftag_list r)"
  by (auto simp: polar_seq_idx_save_def polar_seq_idx_get_bufftag_list_def tag_run split: if_splits)

lemma generic_tags:
  "polar_generic_idx_save collect r [] = Some (True, ids) \<Longrightarrow> used r ids \<Longrightarrow>
   tag_outcome r ids (polar_generic_idx_get_bufftag_list r)"
  unfolding polar_generic_idx_save_def polar_generic_idx_get_bufftag_list_def parse_used_def foldm_when
  by (cases ids) auto

text \<open>The full-page images are written through the right pointer, into an array that is one entry short.\<close>

lemma add_tag_paren_step:
  assumes "add_tag_paren r i (cur, arr, n) = Some (cur', arr', n')"
  shows "length arr' = length arr \<and> n' = Suc n \<and> n' \<le> length arr"
  using assms by (auto simp: add_tag_paren_def arr_upd_def split: if_splits option.splits)

lemma foldm_add_tag_paren:
  assumes "foldm (add_tag_paren r) ids (cur, arr, n) = Some (cur', arr', n')" "ids \<noteq> []"
  shows "length arr' = length arr \<and> n' = n + length ids \<and> n' \<le> length arr"
  using assms
proof (induction ids arbitrary: cur arr n)
  case (Cons i ids)
  then obtain cur1 arr1 n1 where one: "add_tag_paren r i (cur, arr, n) = Some (cur1, arr1, n1)"
    and rest: "foldm (add_tag_paren r) ids (cur1, arr1, n1) = Some (cur', arr', n')" by auto
  from add_tag_paren_step [OF one] have step: "length arr1 = length arr" "n1 = Suc n" "n1 \<le> length arr" by auto
  show ?case
  proof (cases "ids = []")
    case True
    with rest step show ?thesis by simp
  next
    case False
    from Cons.IH [OF rest False] step show ?thesis by simp
  qed
qed simp

lemma xlog_tags:
  assumes "polar_xlog_idx_save collect r [] = Some (True, ids)" "ids \<noteq> []"
  shows "polar_xlog_idx_get_bufftag_list r = None"
proof -
  from assms have fpi: "rec_info r = XLOG_FPI \<or> rec_info r = XLOG_FPI_FOR_HINT" and ids: "ids = [0..<nat (max_block_id r + 1)]"
    by (auto simp: polar_xlog_idx_save_def parse_all_def split: if_splits)
  have "foldm (add_tag_paren r) ids (malloc_tags (nat (max_block_id r))) = None"
  proof (rule ccontr)
    assume "foldm (add_tag_paren r) ids (malloc_tags (nat (max_block_id r))) \<noteq> None"
    then obtain c a n where "foldm (add_tag_paren r) ids (malloc_tags (nat (max_block_id r))) = Some (c, a, n)"
      by (metis not_None_eq prod_cases3)
    from foldm_add_tag_paren [OF this [unfolded malloc_tags_def] assms(2)]
    have "nat (max_block_id r + 1) \<le> nat (max_block_id r)" using ids by simp
    moreover have "0 \<le> max_block_id r" using assms(2) ids by simp
    ultimately show False by simp
  qed
  with fpi ids show ?thesis by (auto simp: polar_xlog_idx_get_bufftag_list_def)
qed

definition heap_insert :: "XLogReaderState \<Rightarrow> bool" where
  "heap_insert r \<longleftrightarrow> rmid r = RM_HEAP_ID \<and> rec_info r AND XLOG_HEAP_OPMASK = XLOG_HEAP_INSERT"

lemma update_tags:
  assumes "polar_heap_xlog_update_save collect r [] = Some ids" "used r ids"
  shows "tag_outcome r ids (map_option tags_done (polar_heap_xlog_update_get_bufftag_list r))"
  using assms
  by (cases "flag_set r 7 1"; cases "flag_set r 7 2"; cases "XLogRecGetBlockTag r 2"; cases "XLogRecGetBlockTag r 3")
    (auto simp: polar_heap_xlog_update_save_def polar_heap_xlog_update_get_bufftag_list_def when_do_def Let_def
      XLogRecGetBlockTag_def split: if_splits)

lemma heap_tags:
  assumes "polar_heap_idx_save collect r [] = Some (True, ids)" "used r ids"
    "rec_info r AND XLOG_HEAP_OPMASK \<noteq> XLOG_HEAP_INSERT"
  shows "tag_outcome r ids (polar_heap_idx_get_bufftag_list r)"
  using assms update_tags [of r ids]
  by (cases "flag_set r 7 1"; cases "polar_heap_xlog_update_save collect r []")
    (auto simp: polar_heap_idx_save_def polar_heap_idx_get_bufftag_list_def tag_run split: if_splits)

lemma insert_tags:
  assumes "polar_heap_idx_save collect r [] = Some (True, ids)" "used r ids"
    "rec_info r AND XLOG_HEAP_OPMASK = XLOG_HEAP_INSERT"
  shows "\<exists>arr. polar_heap_idx_get_bufftag_list r = Some (True, arr, Some (length ids)) \<and>
    take (length ids) arr = map (\<lambda>i. Some (block_tag (blocks r i))) ids"
  using assms
  by (cases "flag_set r 2 1")
    (auto simp: polar_heap_idx_save_def polar_heap_idx_get_bufftag_list_def polar_heap_insert_get_bufftag_list_def
      add_tag_paren_def read_tag_def malloc_tags_def XLogRecGetBlockTag_def tags_done_def arr_upd_def tag_run
      numeral_2_eq_2 split: if_splits)

lemma GetXlogBuffTagList_outcome:
  assumes "record_blocks r = Some (True, ids)" "used r ids"
  shows "if heap_insert r
    then \<exists>arr. GetXlogBuffTagList r = Some (True, arr, Some (length ids)) \<and>
      take (length ids) arr = map (\<lambda>i. Some (block_tag (blocks r i))) ids
    else if rmid r = RM_XLOG_ID \<and> ids \<noteq> [] then GetXlogBuffTagList r = None
    else tag_outcome r ids (GetXlogBuffTagList r)"
proof -
  have fpi: "tag_outcome r [] (polar_xlog_idx_get_bufftag_list r)" if "polar_xlog_idx_save collect r [] = Some (True, [])"
    using that by (auto simp: polar_xlog_idx_save_def polar_xlog_idx_get_bufftag_list_def parse_all_def malloc_tags_def split: if_splits)
  show ?thesis
    using assms fpi xlog_tags [of r ids] heap2_tags [of r ids] heap_tags [of r ids] insert_tags [of r ids] btree_tags [of r ids]
      hash_tags [of r ids] gin_tags [of r ids] gist_tags [of r ids] seq_tags [of r ids] spg_tags [of r ids]
      brin_tags [of r ids] generic_tags [of r ids]
    unfolding record_blocks_def idx_save_def GetXlogBuffTagList_def heap_insert_def
    by (simp split: if_splits)
qed

section \<open>Visibility-map blocks\<close>

definition vm_tag :: "BufferTag \<Rightarrow> BufferTag" where
  "vm_tag t = \<lparr>rnode = rnode t, forkNum = VISIBILITYMAP_FORKNUM, blockNum = HEAPBLK_TO_MAPBLOCK (blockNum t)\<rparr>"

text \<open>The heap pages for which a record clears bits of the visibility map.\<close>

definition cleared_pages :: "XLogReaderState \<Rightarrow> BufferTag list" where
  "cleared_pages r =
     (let op = rec_info r AND XLOG_HEAP_OPMASK;
          page = (\<lambda>i. block_tag (blocks r i));
          moved = (XLogRecHasBlockRef r 1 \<and> blkno (blocks r 1) \<noteq> blkno (blocks r 0));
          one = (\<lambda>offset. if flag_set r offset 1 = Some True then [page 0] else [])
      in if rmid r = RM_HEAP_ID then
           (if op = XLOG_HEAP_INSERT then one off_insert
            else if op = XLOG_HEAP_DELETE then one off_delete
            else if op = XLOG_HEAP_LOCK then one off_lock
            else if op = XLOG_HEAP_UPDATE \<or> op = XLOG_HEAP_HOT_UPDATE then
              (if flag_set r off_update XLH_UPDATE_OLD_ALL_VISIBLE_CLEARED = Some True then [page (if moved then 1 else 0)] else []) @
              (if moved \<and> flag_set r off_update XLH_UPDATE_NEW_ALL_VISIBLE_CLEARED = Some True then [page 0] else [])
            else [])
         else if rmid r = RM_HEAP2_ID then
           (if op = XLOG_HEAP2_MULTI_INSERT then one off_multi_insert
            else if op = XLOG_HEAP2_LOCK_UPDATED then one off_lock_updated
            else [])
         else [])"

text \<open>A heap record as the WAL reader delivers it.\<close>

definition heap_record :: "XLogReaderState \<Rightarrow> bool" where
  "heap_record r \<longleftrightarrow> (rmid r = RM_HEAP_ID \<or> rmid r = RM_HEAP2_ID) \<and> XLogRecHasBlockRef r 0 \<and>
     (rmid r = RM_HEAP2_ID \<longrightarrow> rec_info r AND XLOG_HEAP_OPMASK = XLOG_HEAP2_VISIBLE \<longrightarrow> XLogRecHasBlockRef r 1) \<and>
     (\<forall>i. XLogRecHasBlockRef r i \<longrightarrow> int i \<le> max_block_id r)"

lemma save_vm_block_simps [simp]:
  "main_data (polar_heap_save_vm_block i j r) = main_data r" "rmid (polar_heap_save_vm_block i j r) = rmid r"
  "rec_info (polar_heap_save_vm_block i j r) = rec_info r" "flag_set (polar_heap_save_vm_block i j r) = flag_set r"
  "max_block_id (polar_heap_save_vm_block i j r) = max (max_block_id r) (int j)"
  "k \<noteq> j \<Longrightarrow> blocks (polar_heap_save_vm_block i j r) k = blocks r k"
  "in_use (blocks (polar_heap_save_vm_block i j r) j)"
  "block_tag (blocks (polar_heap_save_vm_block i j r) j) = vm_tag (block_tag (blocks r i))"
  by (simp_all add: polar_heap_save_vm_block_def Let_def rec_info_def flag_set_def fun_eq_iff block_tag_def vm_tag_def)

text \<open>The blocks of a decoded record: as they were, or the visibility-map page of one of its heap pages.\<close>

definition vm_extension :: "XLogReaderState \<Rightarrow> XLogReaderState \<Rightarrow> nat \<Rightarrow> bool" where
  "vm_extension r r' i \<longleftrightarrow> enters r' i \<and>
     (blocks r' i = blocks r i \<or>
      (\<exists>j. XLogRecHasBlockRef r j \<and> block_tag (blocks r' i) = vm_tag (block_tag (blocks r j))))"

abbreviation moved :: "XLogReaderState \<Rightarrow> bool" where
  "moved r \<equiv> in_use (blocks r 1) \<and> blkno (blocks r 1) \<noteq> blkno (blocks r 0)"

lemma update_ids:
  assumes "flag_set r 7 1 = Some old" "flag_set r 7 2 = Some new" "in_use (blocks r 0)"
  shows "polar_heap_xlog_update_save collect r [] =
    (if \<not> moved r then (if old then if in_use (blocks r 2) then Some [2, 0] else None else Some [0])
     else if old \<and> \<not> in_use (blocks r 3) then None
     else if new \<and> \<not> in_use (blocks r 2) then None
     else Some ((if old then [3] else []) @ [1, 0] @
       (if new \<and> \<not> (old \<and> block_tag (blocks r 3) = block_tag (blocks r 2)) then [2] else [])))"
  using assms unfolding polar_heap_xlog_update_save_def XLogRecGetBlockTag_def Let_def when_do_def
  by (cases old; cases new; cases "in_use (blocks r 1)") (simp_all add: block_tag_def)

lemma update_decoded:
  assumes r: "in_use (blocks r 0)" "0 \<le> max_block_id r" "in_use (blocks r 1) \<Longrightarrow> 1 \<le> max_block_id r"
    and flags: "flag_set r 7 1 = Some old" "flag_set r 7 2 = Some new"
    and r': "polar_heap_update_save_vm_logindex r = Some r'" and ids: "polar_heap_xlog_update_save collect r' [] = Some ids"
  shows "\<forall>i \<in> set ids. vm_extension r r' i"
    and "old \<Longrightarrow> \<exists>i \<in> set ids. block_tag (blocks r' i) = vm_tag (block_tag (blocks r (if moved r then 1 else 0)))"
    and "new \<Longrightarrow> moved r \<Longrightarrow> \<exists>i \<in> set ids. block_tag (blocks r' i) = vm_tag (block_tag (blocks r 0))"
proof -
  let ?a = "if old then polar_heap_save_vm_block 1 3 r else r"
  have r'_eq: "r' = (if moved r then if new then polar_heap_save_vm_block 0 2 ?a else ?a
      else if old then polar_heap_save_vm_block 0 2 r else r)"
    using r' flags by (auto simp: polar_heap_update_save_vm_logindex_def Let_def)
  have same: "blocks r' 0 = blocks r 0" "blocks r' 1 = blocks r 1" "flag_set r' = flag_set r"
    by (auto simp: r'_eq)
  have ids_eq: "ids = (if \<not> moved r then if old then [2, 0] else [0]
      else (if old then [3] else []) @ [1, 0] @
       (if new \<and> \<not> (old \<and> block_tag (blocks r' 3) = block_tag (blocks r' 2)) then [2] else []))"
    using ids update_ids [of r' old new] flags r(1) same by (auto split: if_splits)
  show "\<forall>i \<in> set ids. vm_extension r r' i"
    using r unfolding ids_eq
    by (cases "moved r"; cases old; cases new)
      (auto simp: r'_eq vm_extension_def enters_def XLogRecHasBlockRef_def)
  show "\<exists>i \<in> set ids. block_tag (blocks r' i) = vm_tag (block_tag (blocks r (if moved r then 1 else 0)))" if old
    using that unfolding ids_eq by (cases "moved r"; cases new) (auto simp: r'_eq)
  show "\<exists>i \<in> set ids. block_tag (blocks r' i) = vm_tag (block_tag (blocks r 0))" if new "moved r"
    using that unfolding ids_eq by (cases old) (auto simp: r'_eq)
qed

text \<open>What is to be shown of a decoded record \<open>r'\<close> that is entered under the blocks \<open>ids\<close>.\<close>

definition vm_complete :: "XLogReaderState \<Rightarrow> XLogReaderState \<Rightarrow> nat list \<Rightarrow> BufferTag list \<Rightarrow> bool" where
  "vm_complete r r' ids ts \<longleftrightarrow> (\<forall>i \<in> set ids. vm_extension r r' i) \<and>
     (\<forall>t \<in> set ts. \<exists>i \<in> set ids. block_tag (blocks r' i) = vm_tag t)"

lemma vm_complete_one:
  assumes "in_use (blocks r 0)" "0 \<le> max_block_id r"
  shows "vm_complete r (if v then polar_heap_save_vm_block 0 1 r else r) (if v then [1, 0] else [0]) (if v then [block_tag (blocks r 0)] else [])"
  using assms by (auto simp: vm_complete_def vm_extension_def enters_def XLogRecHasBlockRef_def)

lemma vm_complete_same: "\<forall>i \<in> set ids. enters r i \<Longrightarrow> vm_complete r r ids []"
  by (simp add: vm_complete_def vm_extension_def)

lemma heap_complete:
  assumes r: "rmid r = RM_HEAP_ID" "in_use (blocks r 0)" "0 \<le> max_block_id r" "in_use (blocks r 1) \<Longrightarrow> 1 \<le> max_block_id r"
    and r': "polar_xlog_queue_decode_heap r = Some r'" and ids: "polar_heap_idx_save collect r' [] = Some (p, ids)"
  shows "vm_complete r r' ids (cleared_pages r)"
proof -
  let ?op = "rec_info r AND XLOG_HEAP_OPMASK"
  note one = vm_complete_one [OF r(2,3)]
  have enters0: "enters r 0" using r by (simp add: enters_def XLogRecHasBlockRef_def)
  consider (upd) "?op = XLOG_HEAP_UPDATE \<or> ?op = XLOG_HEAP_HOT_UPDATE"
    | (vm) off :: int where "off = 2 \<and> ?op = XLOG_HEAP_INSERT \<or> off = 7 \<and> (?op = XLOG_HEAP_DELETE \<or> ?op = XLOG_HEAP_LOCK)"
    | (other) "?op \<notin> {XLOG_HEAP_UPDATE, XLOG_HEAP_HOT_UPDATE, XLOG_HEAP_INSERT, XLOG_HEAP_DELETE, XLOG_HEAP_LOCK}"
    by blast
  then show ?thesis
  proof cases
    case upd
    with r' have dec: "polar_heap_update_save_vm_logindex r = Some r'" by (auto simp: polar_xlog_queue_decode_heap_def)
    then obtain old new where flags: "flag_set r 7 1 = Some old" "flag_set r 7 2 = Some new"
      by (auto simp: polar_heap_update_save_vm_logindex_def Let_def)
    have "rec_info r' = rec_info r" using dec flags by (auto simp: polar_heap_update_save_vm_logindex_def Let_def)
    with ids upd have ids: "polar_heap_xlog_update_save collect r' [] = Some ids" by (auto simp: polar_heap_idx_save_def)
    from upd r(1) flags have "set (cleared_pages r) \<subseteq> (if old then {block_tag (blocks r (if moved r then 1 else 0))} else {}) \<union>
        (if new \<and> moved r then {block_tag (blocks r 0)} else {})"
      by (auto simp: cleared_pages_def Let_def XLogRecHasBlockRef_def)
    with update_decoded [OF r(2,3,4) flags dec ids] show ?thesis
      unfolding vm_complete_def by (auto split: if_splits)
  next
    case (vm off)
    from vm r' obtain v where v: "flag_set r off 1 = Some v" "r' = (if v then polar_heap_save_vm_block 0 1 r else r)"
      by (auto simp: polar_xlog_queue_decode_heap_def)
    from v ids vm have "ids = (if v then [1, 0] else [0])"
      by (auto simp: polar_heap_idx_save_def straight_defs when_do_def)
    moreover from vm v(1) r(1) have "cleared_pages r = (if v then [block_tag (blocks r 0)] else [])"
      by (auto simp: cleared_pages_def)
    ultimately show ?thesis using one [of v] v(2) by simp
  next
    case other
    then have "r' = r" "cleared_pages r = []" "set ids \<subseteq> {0}"
      using r' ids r(1) by (auto simp: polar_xlog_queue_decode_heap_def cleared_pages_def polar_heap_idx_save_def Let_def split: if_splits)
    with enters0 vm_complete_same [of ids r] show ?thesis by auto
  qed
qed

lemma heap2_complete:
  assumes r: "rmid r = RM_HEAP2_ID" "in_use (blocks r 0)" "0 \<le> max_block_id r"
    and visible: "rec_info r AND XLOG_HEAP_OPMASK = XLOG_HEAP2_VISIBLE \<Longrightarrow> enters r 1"
    and r': "polar_xlog_queue_decode_heap2 r = Some r'" and ids: "polar_heap2_idx_save collect r' [] = Some (p, ids)"
  shows "vm_complete r r' ids (cleared_pages r)"
proof -
  let ?op = "rec_info r AND XLOG_HEAP_OPMASK"
  have enters0: "enters r 0" using r by (simp add: enters_def XLogRecHasBlockRef_def)
  consider (vm) off :: int where "off = 0 \<and> ?op = XLOG_HEAP2_MULTI_INSERT \<or> off = 7 \<and> ?op = XLOG_HEAP2_LOCK_UPDATED"
    | (other) "?op \<notin> {XLOG_HEAP2_MULTI_INSERT, XLOG_HEAP2_LOCK_UPDATED}" by blast
  then show ?thesis
  proof cases
    case (vm off)
    from vm r' obtain v where v: "flag_set r off 1 = Some v" "r' = (if v then polar_heap_save_vm_block 0 1 r else r)"
      by (auto simp: polar_xlog_queue_decode_heap2_def)
    from v ids vm have "ids = (if v then [1, 0] else [0])"
      by (auto simp: polar_heap2_idx_save_def straight_defs when_do_def)
    moreover from vm v(1) r(1) have "cleared_pages r = (if v then [block_tag (blocks r 0)] else [])"
      by (auto simp: cleared_pages_def)
    ultimately show ?thesis using vm_complete_one [OF r(2,3), of v] v(2) by simp
  next
    case other
    then have "r' = r" "cleared_pages r = []" "\<forall>i \<in> set ids. enters r i"
      using r' ids r(1) enters0 visible
      by (auto simp: polar_xlog_queue_decode_heap2_def cleared_pages_def polar_heap2_idx_save_def Let_def split: if_splits)
    with vm_complete_same [of ids r] show ?thesis by simp
  qed
qed

lemma decoded_complete:
  assumes r: "heap_record r" and r': "polar_xlog_decode_data_vm r = Some r'" and ids: "record_blocks r' = Some (p, ids)"
  shows "vm_complete r r' ids (cleared_pages r)"
proof -
  have max: "int i \<le> max_block_id r" if "in_use (blocks r i)" for i
    using r that by (simp add: heap_record_def XLogRecHasBlockRef_def)
  from r have b: "in_use (blocks r 0)" "rmid r = RM_HEAP_ID \<or> rmid r = RM_HEAP2_ID"
    by (simp_all add: heap_record_def XLogRecHasBlockRef_def)
  from max [of 0] max [of 1] b(1) have m: "0 \<le> max_block_id r" "in_use (blocks r 1) \<Longrightarrow> 1 \<le> max_block_id r" by auto
  have visible: "enters r 1" if "rmid r = RM_HEAP2_ID" "rec_info r AND XLOG_HEAP_OPMASK = XLOG_HEAP2_VISIBLE"
    using r that m(2) by (auto simp: heap_record_def enters_def XLogRecHasBlockRef_def)
  have same: "rmid r' = rmid r"
    using r' by (auto simp: polar_xlog_decode_data_vm_def polar_xlog_queue_decode_heap_def polar_xlog_queue_decode_heap2_def
        polar_heap_update_save_vm_logindex_def Let_def split: if_splits)
  from b(2) show ?thesis
  proof
    assume "rmid r = RM_HEAP_ID"
    with r' ids same show ?thesis
      by (intro heap_complete [of r r' p]) (auto simp: polar_xlog_decode_data_vm_def record_blocks_def idx_save_def b m)
  next
    assume "rmid r = RM_HEAP2_ID"
    with r' ids same visible show ?thesis
      by (intro heap2_complete [of r r' p]) (auto simp: polar_xlog_decode_data_vm_def record_blocks_def idx_save_def b m)
  qed
qed

section \<open>Properties\<close>

text \<open>An insertion that clears the all-visible bit of its page, before and after decoding.\<close>

definition demo_block :: DecodedBkpBlock where
  "demo_block = \<lparr>in_use = True, blk_rnode = \<lparr>spcNode = 1663, dbNode = 13580, relNode = 16384\<rparr>, forknum = 0, blkno = 40000,
     has_image = False, apply_image = False, has_data = True\<rparr>"

definition demo_record :: XLogReaderState where
  "demo_record = \<lparr>ReadRecPtr = 300, rmid = RM_HEAP_ID, xl_info = 0, max_block_id = 0,
     blocks = (\<lambda>i. demo_block\<lparr>in_use := i = 0\<rparr>), main_data = [1, 0, 1]\<rparr>"

lemma demo_decoded:
  "polar_xlog_decode_data_vm demo_record = Some (polar_heap_save_vm_block 0 1 demo_record)"
  "record_blocks (polar_heap_save_vm_block 0 1 demo_record) = Some (True, [1, 0])"
proof -
  have f: "flag_set demo_record 2 1 = Some True" "rec_info demo_record = 0" "rmid demo_record = RM_HEAP_ID"
    by (simp_all add: flag_set_def demo_record_def rec_info_def)
  then show "polar_xlog_decode_data_vm demo_record = Some (polar_heap_save_vm_block 0 1 demo_record)"
    by (simp add: polar_xlog_decode_data_vm_def polar_xlog_queue_decode_heap_def)
  from f show "record_blocks (polar_heap_save_vm_block 0 1 demo_record) = Some (True, [1, 0])"
    by (simp add: record_blocks_def idx_save_def polar_heap_idx_save_def polar_heap_insert_save_def)
qed

lemma demo_decoded_blocks:
  defines "r \<equiv> polar_heap_save_vm_block 0 1 demo_record"
  shows "blocks r 0 = demo_block" "block_key (blocks r 1) = block_key (demo_block\<lparr>forknum := 2, blkno := 1\<rparr>)"
    and "enters r 0" "enters r 1" "rec_info r = 0" "rmid r = RM_HEAP_ID" "ReadRecPtr r = 300"
  by (simp_all add: r_def polar_heap_save_vm_block_def demo_record_def demo_block_def Let_def HEAPBLK_TO_MAPBLOCK_def
      block_key_def enters_def XLogRecHasBlockRef_def rec_info_def polar_reset_blk_def)



text \<open>C22: after \<open>polar_xlog_decode_data\<close> every block that the save function of a heap record names is
  present in the record, so that none is silently dropped; each is a block the record had before or
  the visibility-map page of one of its heap pages; and for every heap page whose visibility bits the
  record clears, the visibility-map page is among them.\<close>

theorem vm_blocks_indexed:
  assumes "heap_record r" and "polar_xlog_decode_data_vm r = Some r'" and "record_blocks r' = Some (p, ids)"
  shows "(\<forall>i \<in> set ids. enters r' i \<and>
      (blocks r' i = blocks r i \<or>
       (\<exists>j. XLogRecHasBlockRef r j \<and> block_tag (blocks r' i) = vm_tag (block_tag (blocks r j))))) \<and>
    (\<forall>t \<in> set (cleared_pages r). \<exists>i \<in> set ids. block_tag (blocks r' i) = vm_tag t)"
  using decoded_complete [OF assms] by (simp add: vm_complete_def vm_extension_def)

theorem vm_blocks_indexed_witness:
  "heap_record demo_record \<and> cleared_pages demo_record = [block_tag demo_block] \<and>
   (\<exists>i \<in> set [1, 0]. block_tag (blocks (polar_heap_save_vm_block 0 1 demo_record) i) = vm_tag (block_tag demo_block))"
proof -
  have h: "heap_record demo_record"
    by (simp add: heap_record_def demo_record_def XLogRecHasBlockRef_def)
  moreover have c: "cleared_pages demo_record = [block_tag demo_block]"
    by (simp add: cleared_pages_def demo_record_def rec_info_def flag_set_def block_tag_def demo_block_def)
  ultimately show ?thesis using vm_blocks_indexed [OF h demo_decoded] by simp
qed

text \<open>C23: for a record whose blocks \<open>ids\<close> are entered into the log index and are all present,
  \<open>GetXlogBuffTagList\<close> returns their tags only for heap insertions and for records of one block. For
  every other record of two or more blocks it writes through a pointer read from beyond its
  argument (\<open>*buffertagList[i]\<close> for \<open>(*buffertagList)[i]\<close>), and for full-page images it writes past
  the end of its array.\<close>

theorem tag_list_faults:
  assumes "record_blocks r = Some (True, ids)" and "\<forall>i \<in> set ids. in_use (blocks r i)"
  shows "if heap_insert r
    then \<exists>arr. GetXlogBuffTagList r = Some (True, arr, Some (length ids)) \<and>
      take (length ids) arr = map (\<lambda>i. Some (block_tag (blocks r i))) ids
    else if rmid r = RM_XLOG_ID \<and> ids \<noteq> [] then GetXlogBuffTagList r = None
    else tag_outcome r ids (GetXlogBuffTagList r)"
  by (rule GetXlogBuffTagList_outcome [OF assms])

theorem tag_list_faults_witness:
  "GetXlogBuffTagList (demo_record\<lparr>rmid := RM_HASH_ID, xl_info := 0x20, blocks := \<lambda>i. demo_block\<rparr>) = None \<and>
   (\<exists>arr. GetXlogBuffTagList (polar_heap_save_vm_block 0 1 demo_record) = Some (True, arr, Some 2) \<and>
     take 2 arr = [Some (vm_tag (block_tag demo_block)), Some (block_tag demo_block)])"
proof
  let ?h = "demo_record\<lparr>rmid := RM_HASH_ID, xl_info := 0x20, blocks := \<lambda>i. demo_block\<rparr>"
  have "record_blocks ?h = Some (True, [0, 1])"
    by (simp add: record_blocks_def idx_save_def polar_hash_idx_save_def rec_info_def)
  from tag_list_faults [OF this] show "GetXlogBuffTagList ?h = None"
    by (simp add: heap_insert_def demo_block_def)
  let ?r = "polar_heap_save_vm_block 0 1 demo_record"
  have "heap_insert ?r" unfolding heap_insert_def demo_decoded_blocks(5,6) by simp
  moreover have "block_tag (blocks ?r 1) = vm_tag (block_tag demo_block)"
    using save_vm_block_simps(8) [of 0 1 demo_record] by (simp add: demo_record_def block_tag_def)
  ultimately show "\<exists>arr. GetXlogBuffTagList ?r = Some (True, arr, Some 2) \<and>
     take 2 arr = [Some (vm_tag (block_tag demo_block)), Some (block_tag demo_block)]"
    using demo_decoded_blocks(1) tag_list_faults [OF demo_decoded(2)] by (simp add: demo_block_def numeral_2_eq_2)
qed

end
