(* ===== verification/RelCache.thy ===== *)
theory RelCache
  imports KvStore
begin

text \<open>
  The cache of relation sizes (\<open>backend/storage/rel_cache/rel_cache.c\<close> and \<open>builtin_shmht.cpp\<close>): a shared
  hash table from relation forks to their number of blocks, guarded by 128 reader/writer locks that
  are chosen by a hash of the key. The hash table of PostgreSQL (\<open>dynahash.c\<close>) is a partial map here.
\<close>

section \<open>The table\<close>

abbreviation (input) NUM_REL_SIZE_LWLOCKS :: nat where "NUM_REL_SIZE_LWLOCKS \<equiv> 128"

record RelKey =
  SpcId :: u64
  DbId :: u64
  RelId :: u64
  relForkNum :: u32

record RelTag =
  reln :: RelFileNode
  forkNumber :: u32

record rel_cache =
  SharedRelSizeHash :: "RelTag \<rightharpoonup> u32" \<comment> \<open>the field \<open>relSize\<close>, an \<open>int\<close>\<close>
  relSizePthreadLocks :: "rwlock list"

definition RelSizeTableLookup :: "RelTag \<Rightarrow> rel_cache \<Rightarrow> u32" where
  "RelSizeTableLookup tag c = (case SharedRelSizeHash c tag of None \<Rightarrow> - 1 | Some relSize \<Rightarrow> relSize)"

definition RelSizeTableInsert :: "RelTag \<Rightarrow> u32 \<Rightarrow> rel_cache \<Rightarrow> u32 \<times> rel_cache" where
  "RelSizeTableInsert tag relSize c =
     (let found = (SharedRelSizeHash c tag \<noteq> None);
          c = c\<lparr>SharedRelSizeHash := (SharedRelSizeHash c)(tag \<mapsto> relSize)\<rparr>
      in if found then (relSize, c) else (- 1, c))"

definition RelSizeTableDelete :: "RelTag \<Rightarrow> rel_cache \<Rightarrow> rel_cache option" where
  "RelSizeTableDelete tag c =
     (if SharedRelSizeHash c tag = None then None
      else Some (c\<lparr>SharedRelSizeHash := (SharedRelSizeHash c)(tag := None)\<rparr>))"

definition ParseRelKey2RelTag :: "RelKey \<Rightarrow> RelTag" where
  "ParseRelKey2RelTag k =
     \<lparr>reln = \<lparr>spcNode = ucast (SpcId k), dbNode = ucast (DbId k), relNode = ucast (RelId k)\<rparr>, forkNumber = relForkNum k\<rparr>"

definition InsertRelSizeCache :: "RelKey \<Rightarrow> u32 \<Rightarrow> rel_cache \<Rightarrow> rel_cache" where
  "InsertRelSizeCache k n c = snd (RelSizeTableInsert (ParseRelKey2RelTag k) n c)"

text \<open>\<^term>\<open>None\<close> is the result \<open>false\<close>.\<close>

definition GetRelSizeCache :: "RelKey \<Rightarrow> rel_cache \<Rightarrow> u32 option" where
  "GetRelSizeCache k c =
     (let re = RelSizeTableLookup (ParseRelKey2RelTag k) c in if re = - 1 then None else Some re)"

section \<open>The locks\<close>

definition HashRelKey :: "RelKey \<Rightarrow> u32" where
  "HashRelKey k =
     (let res = 0;
          res = res + ucast ((SpcId k AND 0xFF) * 13 + 7);
          res = res + ucast ((DbId k AND 0xFF) * 17 + 5);
          res = res + ucast ((RelId k AND 0xFF) * 11 + 7);
          res = res + ((relForkNum k AND 0xFF) * 3 + 29)
      in res)"

definition rel_bucket :: "RelKey \<Rightarrow> nat" where
  "rel_bucket k = unat (HashRelKey k mod of_nat NUM_REL_SIZE_LWLOCKS)"

definition RelSizePthreadLockInit :: "rel_cache \<Rightarrow> rel_cache" where
  "RelSizePthreadLockInit c = c\<lparr>relSizePthreadLocks := replicate NUM_REL_SIZE_LWLOCKS Unlocked\<rparr>"

definition rel_lock :: "(rwlock \<Rightarrow> rwlock option) \<Rightarrow> RelKey \<Rightarrow> rel_cache \<Rightarrow> rel_cache option" where
  "rel_lock f k c =
     do { l \<leftarrow> arr_get (relSizePthreadLocks c) (int (rel_bucket k));
          l \<leftarrow> f l;
          ls \<leftarrow> arr_upd (relSizePthreadLocks c) (int (rel_bucket k)) (\<lambda>_. l);
          Some (c\<lparr>relSizePthreadLocks := ls\<rparr>) }"

definition RelSizePthreadReadLock :: "RelKey \<Rightarrow> rel_cache \<Rightarrow> rel_cache option" where
  "RelSizePthreadReadLock = rel_lock rdlock"

definition RelSizePthreadWriteLock :: "RelKey \<Rightarrow> rel_cache \<Rightarrow> rel_cache option" where
  "RelSizePthreadWriteLock = rel_lock wrlock"

definition RelSizePthreadUnlock :: "RelKey \<Rightarrow> rel_cache \<Rightarrow> rel_cache option" where
  "RelSizePthreadUnlock = rel_lock unlock"

section \<open>The contract\<close>

text \<open>How the handlers of the server use the cache: a locked read, and a locked update.\<close>

definition locked_read ::
    "(RelKey \<Rightarrow> 's \<Rightarrow> 's option) \<Rightarrow> (RelKey \<Rightarrow> 's \<Rightarrow> 's option) \<Rightarrow> (RelKey \<Rightarrow> 's \<Rightarrow> u32 option) \<Rightarrow>
     RelKey \<Rightarrow> 's \<Rightarrow> (u32 option \<times> 's) option" where
  "locked_read rd un get k s = do { s \<leftarrow> rd k s; let v = get k s; s \<leftarrow> un k s; Some (v, s) }"

definition locked_update ::
    "(RelKey \<Rightarrow> 's \<Rightarrow> 's option) \<Rightarrow> (RelKey \<Rightarrow> 's \<Rightarrow> 's option) \<Rightarrow> ('s \<Rightarrow> 's) \<Rightarrow> RelKey \<Rightarrow> 's \<Rightarrow> 's option" where
  "locked_update wr un upd k s = do { s \<leftarrow> wr k s; un k (upd s) }"

text \<open>The meaning of a stored size: -1 is the same as no entry.\<close>

definition stored :: "u32 \<Rightarrow> u32 option" where
  "stored n = (if n = - 1 then None else Some n)"

definition same_rel :: "RelKey \<Rightarrow> RelKey \<Rightarrow> bool" where
  "same_rel k k' \<longleftrightarrow> ParseRelKey2RelTag k = ParseRelKey2RelTag k'"

locale size_cache =
  fixes ok :: "'s \<Rightarrow> bool"
    and busy :: "'s \<Rightarrow> RelKey \<Rightarrow> bool"
    and rd wr un :: "RelKey \<Rightarrow> 's \<Rightarrow> 's option"
    and get :: "RelKey \<Rightarrow> 's \<Rightarrow> u32 option"
    and put :: "RelKey \<Rightarrow> u32 \<Rightarrow> 's \<Rightarrow> 's"
  assumes lock_law: "ok s \<Longrightarrow> \<exists>s'. rd k s = Some s' \<and> busy s' k \<and> (\<forall>k'. get k' s' = get k' s)"
      "ok s \<Longrightarrow> \<exists>s'. wr k s = Some s' \<and> busy s' k \<and> (\<forall>k'. get k' s' = get k' s)"
    and unlock_law: "busy s k \<Longrightarrow> \<exists>s'. un k s = Some s' \<and> ok s' \<and> (\<forall>k'. get k' s' = get k' s)"
    and put_law: "get k' (put k n s) = (if same_rel k k' then stored n else get k' s)"
      "busy s k'' \<Longrightarrow> busy (put k n s) k''" "ok s \<Longrightarrow> ok (put k n s)"
begin

lemma read_ok:
  assumes "ok s"
  obtains s' where "locked_read rd un get k s = Some (get k s, s')" "ok s'" "\<And>k'. get k' s' = get k' s"
proof -
  obtain s1 where s1: "rd k s = Some s1" "busy s1 k" "\<forall>k'. get k' s1 = get k' s" using lock_law(1) [OF assms] by blast
  obtain s2 where "un k s1 = Some s2" "ok s2" "\<forall>k'. get k' s2 = get k' s1" using unlock_law [OF s1(2)] by blast
  with s1 that show ?thesis by (simp add: locked_read_def)
qed

text \<open>Storing a size under the lock, possibly only when nothing is stored yet.\<close>

lemma update_ok:
  assumes "ok s"
  obtains s' where "locked_update wr un (\<lambda>s. if P (get k s) then put k n s else s) k s = Some s'" "ok s'"
    "\<And>k'. get k' s' = (if P (get k s) \<and> same_rel k k' then stored n else get k' s)"
proof -
  obtain s1 where s1: "wr k s = Some s1" "busy s1 k" "\<forall>k'. get k' s1 = get k' s" using lock_law(2) [OF assms] by blast
  let ?s = "if P (get k s1) then put k n s1 else s1"
  have "busy ?s k" using s1(2) put_law(2) by simp
  then obtain s2 where "un k ?s = Some s2" "ok s2" "\<forall>k'. get k' s2 = get k' ?s" using unlock_law by blast
  with s1 that put_law(1) show ?thesis by (simp add: locked_update_def)
qed

end

definition cache_ok :: "rel_cache \<Rightarrow> bool" where
  "cache_ok c \<longleftrightarrow> relSizePthreadLocks c = replicate NUM_REL_SIZE_LWLOCKS Unlocked"

definition cache_busy :: "rel_cache \<Rightarrow> RelKey \<Rightarrow> bool" where
  "cache_busy c k \<longleftrightarrow> (\<exists>l \<in> {RdLocked 1, WrLocked}. relSizePthreadLocks c = (replicate NUM_REL_SIZE_LWLOCKS Unlocked)[rel_bucket k := l])"

lemma rel_bucket_less: "rel_bucket k < NUM_REL_SIZE_LWLOCKS"
  by (simp add: rel_bucket_def unat_mod_distrib)

lemma rel_lock_free:
  assumes "cache_ok c" "f Unlocked = Some l"
  shows "rel_lock f k c = Some (c\<lparr>relSizePthreadLocks := (replicate NUM_REL_SIZE_LWLOCKS Unlocked)[rel_bucket k := l]\<rparr>)"
  using assms rel_bucket_less [of k] by (simp add: rel_lock_def cache_ok_def)

lemma rel_unlock:
  assumes "cache_busy c k"
  shows "rel_lock unlock k c = Some (c\<lparr>relSizePthreadLocks := replicate NUM_REL_SIZE_LWLOCKS Unlocked\<rparr>)"
  using assms rel_bucket_less [of k] by (auto simp: rel_lock_def cache_busy_def list_update_same_conv)

lemma GetRelSizeCache_alt: "GetRelSizeCache k c = Option.bind (SharedRelSizeHash c (ParseRelKey2RelTag k)) stored"
  by (auto simp: GetRelSizeCache_def RelSizeTableLookup_def stored_def Let_def split: option.splits)

interpretation sizes: size_cache cache_ok cache_busy RelSizePthreadReadLock RelSizePthreadWriteLock RelSizePthreadUnlock
  GetRelSizeCache InsertRelSizeCache
proof
  fix c k k' k'' n
  show "\<exists>c'. RelSizePthreadReadLock k c = Some c' \<and> cache_busy c' k \<and> (\<forall>k'. GetRelSizeCache k' c' = GetRelSizeCache k' c)"
    if "cache_ok c" using rel_lock_free [OF that, of rdlock] by (simp add: RelSizePthreadReadLock_def cache_busy_def GetRelSizeCache_alt)
  show "\<exists>c'. RelSizePthreadWriteLock k c = Some c' \<and> cache_busy c' k \<and> (\<forall>k'. GetRelSizeCache k' c' = GetRelSizeCache k' c)"
    if "cache_ok c" using rel_lock_free [OF that, of wrlock] by (simp add: RelSizePthreadWriteLock_def cache_busy_def GetRelSizeCache_alt)
  show "\<exists>c'. RelSizePthreadUnlock k c = Some c' \<and> cache_ok c' \<and> (\<forall>k'. GetRelSizeCache k' c' = GetRelSizeCache k' c)"
    if "cache_busy c k" using rel_unlock [OF that] by (simp add: RelSizePthreadUnlock_def cache_ok_def GetRelSizeCache_alt)
  show "GetRelSizeCache k' (InsertRelSizeCache k n c) = (if same_rel k k' then stored n else GetRelSizeCache k' c)"
    by (simp add: GetRelSizeCache_alt InsertRelSizeCache_def RelSizeTableInsert_def same_rel_def Let_def)
  show "cache_busy (InsertRelSizeCache k n c) k''" if "cache_busy c k''"
    using that by (simp add: cache_busy_def InsertRelSizeCache_def RelSizeTableInsert_def Let_def)
  show "cache_ok (InsertRelSizeCache k n c)" if "cache_ok c"
    using that by (simp add: cache_ok_def InsertRelSizeCache_def RelSizeTableInsert_def Let_def)
qed

end
