(* ===== verification/PageServer.thy ===== *)
theory PageServer
  imports WalProps RelCache PageStore RedoProps
begin

text \<open>
  The storage node: the startup process that indexes the WAL (\<open>StartupXLOG\<close> of \<open>xlog.c\<close>) and the RPC
  handlers that serve pages and relation sizes (\<open>DataPageAccessHandler\<close> of \<open>rpcserver.cpp\<close>), on top of
  the page version map, the page store, the redo pool and the cache of relation sizes.
\<close>

section \<open>State\<close>

text \<open>
  The surroundings of the server: what is left in the uninitialised \<open>err\<close> of \<open>KvDelete\<close>, RocksDB, the
  redo processes with the outcome of the system calls, and the allocator of the version map.
\<close>

record ('d, 'w, 'r) server_env =
  env_err :: "string option"
  env_db :: "'d rocksdb"
  env_redo :: "('w, 'r) redo_client"
  env_alloc :: "HashMap \<Rightarrow> malloc_block"

record ('d, 'w) server_state =
  pageVersionHashMap :: HashMap
  kvStore :: "'d kv"
  redoPool :: "'w redo_pool"
  relSizes :: rel_cache
  XLogParseUpto :: u64
  RpcXLogFlushedLsn :: u64
  reachXlogTempEnd :: bool

section \<open>Indexing the WAL\<close>

definition TransRelNode2RelKey :: "RelFileNode \<Rightarrow> u32 \<Rightarrow> RelKey" where
  "TransRelNode2RelKey node f =
     \<lparr>SpcId = ucast (spcNode node), DbId = ucast (dbNode node), RelId = ucast (relNode node), relForkNum = f\<rparr>"

abbreviation sync_rel_size ::
    "('w, 'r) redo_client \<Rightarrow> 'w redo_pool \<Rightarrow> RelFileNode \<Rightarrow> u32 \<Rightarrow> u64 \<Rightarrow> (u32 \<times> 'w redo_pool) option" where
  "sync_rel_size c pool rn f l \<equiv> SyncGetRelSize (rc_env c) (rc_sched c 18 4) (rc_tid c) rn f l pool"

text \<open>
  The size cache after a block reference. \<open>baseRelSize > blkno + 1\<close> compares an \<open>int\<close> with a \<open>uint32\<close>: it
  is an unsigned comparison.
\<close>

definition update_rel_size ::
    "('d, 'w, 'r) server_env \<Rightarrow> XLogReaderState \<Rightarrow> nat \<Rightarrow> ('d, 'w) server_state \<Rightarrow> ('d, 'w) server_state option" where
  "update_rel_size env r i s =
     (let b = blocks r i in
      if \<not> in_use b then Some s
      else (let relKey = TransRelNode2RelKey (blk_rnode b) (forknum b) in
        case GetRelSizeCache relKey (relSizes s) of
          Some result \<Rightarrow>
            Some (if result < blkno b + 1 then s\<lparr>relSizes := InsertRelSizeCache relKey (blkno b + 1) (relSizes s)\<rparr> else s)
        | None \<Rightarrow>
            do { (baseRelSize, pool) \<leftarrow> sync_rel_size (env_redo env) (redoPool s) (blk_rnode b) (forknum b) (ReadRecPtr r);
                 let s = s\<lparr>redoPool := pool\<rparr>;
                 Some (if blkno b + 1 < baseRelSize then s\<lparr>relSizes := InsertRelSizeCache relKey baseRelSize (relSizes s)\<rparr>
                       else s\<lparr>relSizes := InsertRelSizeCache relKey (blkno b + 1) (relSizes s)\<rparr>) }))"

definition sized_rmids :: "u8 list" where
  "sized_rmids = [RM_XLOG_ID, RM_SMGR_ID, RM_HEAP2_ID, RM_HEAP_ID, RM_BTREE_ID, RM_HASH_ID, RM_GIN_ID, RM_GIST_ID,
     RM_SEQ_ID, RM_SPGIST_ID, RM_BRIN_ID, RM_GENERIC_ID]"

text \<open>
  One record of the startup process of a storage node. A record that is not entered is replayed by
  its resource manager at once, on the files of the startup process, which are not part of this state.
\<close>

definition StartupXLOG_record ::
    "('d, 'w, 'r) server_env \<Rightarrow> XLogReaderState \<Rightarrow> u64 \<Rightarrow> ('d, 'w) server_state \<Rightarrow> ('d, 'w) server_state option" where
  "StartupXLOG_record env r endRecPtr s =
     do { r \<leftarrow> polar_xlog_decode_data_vm r;
          s \<leftarrow> (if rmid r \<in> set sized_rmids \<and> 0 \<le> max_block_id r
               then foldm (update_rel_size env r) [0..<nat (max_block_id r + 1)] s else Some s);
          (parsed, m) \<leftarrow> ParseLogIndexXlog (env_alloc env) r (pageVersionHashMap s);
          let parsedUpto = (if XLogParseUpto s < endRecPtr then endRecPtr else XLogParseUpto s);
          let parsedUpto = (if parsedUpto < ReadRecPtr r then ReadRecPtr r else parsedUpto);
          Some (s\<lparr>pageVersionHashMap := m, XLogParseUpto := parsedUpto\<rparr>) }"

section \<open>Waiting for the index\<close>

text \<open>
  \<open>WaitParse\<close> polls \<open>XLogParseUpto\<close> and \<open>reachXlogTempEnd\<close>, which the startup process and the WAL receiver
  set; \<open>obs\<close> are the values it sees, one pair for each test of the loop. \<^term>\<open>None\<close> is a loop that has
  not ended yet.
\<close>

fun wait_loop :: "u64 \<Rightarrow> (u64 \<times> bool) list \<Rightarrow> u64 option" where
  "wait_loop targetLsn [] = None"
| "wait_loop targetLsn ((parsedUpto, reached) # obs) =
     (if parsedUpto < targetLsn - 64 \<and> \<not> reached then wait_loop targetLsn obs else Some parsedUpto)"

definition WaitParse :: "u64 \<Rightarrow> (u64 \<times> bool) list \<Rightarrow> ('d, 'w) server_state \<Rightarrow> ('d, 'w) server_state option" where
  "WaitParse l obs s =
     (if XLogParseUpto s < l \<and> XLogParseUpto s < RpcXLogFlushedLsn s \<and> XLogParseUpto s \<noteq> 0
      then do { let targetLsn = (if l < RpcXLogFlushedLsn s then l else RpcXLogFlushedLsn s);
                parsedUpto \<leftarrow> wait_loop targetLsn obs;
                Some (s\<lparr>XLogParseUpto := parsedUpto, reachXlogTempEnd := False\<rparr>) }
      else Some s)"

section \<open>Pages\<close>

record Smgr_Relation =
  spc_node :: u64
  db_node :: u64
  rel_node :: u64

definition reln_node :: "Smgr_Relation \<Rightarrow> RelFileNode" where
  "reln_node r = \<lparr>spcNode = ucast (spc_node r), dbNode = ucast (db_node r), relNode = ucast (rel_node r)\<rparr>"

text \<open>\<open>_return.assign(page, BLCKSZ)\<close>.\<close>

definition assign_page :: "bytes \<Rightarrow> bytes option" where
  "assign_page p = (if length p < BLCKSZ then None else Some (take BLCKSZ p))"

text \<open>Replaying the records that \<open>HashMapGetBlockReplayList\<close> has handed out.\<close>

definition replay_page ::
    "('d, 'w, 'r) server_env \<Rightarrow> BufferTag \<Rightarrow> u64 \<Rightarrow> u64 list \<Rightarrow> ('d, 'w) server_state \<Rightarrow> (bytes \<times> ('d, 'w) server_state) option" where
  "replay_page env bufferTag replayed toReplayList s =
     (if 0 < replayed
      then do { (basePage, kv) \<leftarrow> GetPageFromRocksdb (env_db env) (kvStore s) bufferTag replayed;
                basePage \<leftarrow> basePage;
                basePage \<leftarrow> assign_page basePage;
                (page2, pool) \<leftarrow> apply_list (env_redo env) (redoPool s) bufferTag toReplayList basePage;
                Some (page2, s\<lparr>kvStore := kv, redoPool := pool\<rparr>) }
      else do { (page2, pool) \<leftarrow> apply_disk (env_redo env) (redoPool s) bufferTag toReplayList;
                Some (page2, s\<lparr>redoPool := pool\<rparr>) })"

definition ReadBufferCommon ::
    "('d, 'w, 'r) server_env \<Rightarrow> (u64 \<times> bool) list \<Rightarrow> Smgr_Relation \<Rightarrow> u32 \<Rightarrow> u32 \<Rightarrow> u64 \<Rightarrow> ('d, 'w) server_state \<Rightarrow>
     (bytes \<times> ('d, 'w) server_state) option" where
  "ReadBufferCommon env obs rel f blknum l s =
     do { s \<leftarrow> WaitParse l obs s;
          let key = \<lparr>SpcID = spc_node rel, DbID = db_node rel, RelID = rel_node rel, ForkNum = f, BlkNum = scast blknum\<rparr>;
          let bufferTag = \<lparr>rnode = reln_node rel, forkNum = f, blockNum = blknum\<rparr>;
          (m, res) \<leftarrow> HashMapGetBlockReplayList (pageVersionHashMap s) key l;
          let s = s\<lparr>pageVersionHashMap := m\<rparr>;
          (case res of
             None \<Rightarrow>
               do { (buff, pool) \<leftarrow> base_page (env_redo env) (redoPool s) bufferTag;
                    page \<leftarrow> assign_page buff;
                    Some (page, s\<lparr>redoPool := pool\<rparr>) }
           | Some (replayed, toReplayList) \<Rightarrow>
               if toReplayList = [] then
                 do { (targetPage, kv) \<leftarrow> GetPageFromRocksdb (env_db env) (kvStore s) bufferTag replayed;
                      targetPage \<leftarrow> targetPage;
                      page \<leftarrow> assign_page targetPage;
                      Some (page, s\<lparr>kvStore := kv\<rparr>) }
               else
                 do { (page2, s) \<leftarrow> replay_page env bufferTag replayed toReplayList s;
                      kv \<leftarrow> PutPage2Rocksdb (env_db env) (kvStore s) bufferTag (last toReplayList) page2;
                      (m, _) \<leftarrow> HashMapUpdateReplayedLsn (pageVersionHashMap s) key (last toReplayList) True;
                      kv \<leftarrow> (if replayed \<noteq> 0 then DeletePageFromRocksdb (env_err env) (env_db env) kv bufferTag replayed
                            else Some kv);
                      page \<leftarrow> assign_page page2;
                      Some (page, s\<lparr>pageVersionHashMap := m, kvStore := kv\<rparr>) }) }"

text \<open>\<open>RpcMdRead\<close> asks a redo process for the page, whatever the LSN of the request is.\<close>

definition RpcMdRead ::
    "('d, 'w, 'r) server_env \<Rightarrow> (u64 \<times> bool) list \<Rightarrow> u64 option \<Rightarrow> Smgr_Relation \<Rightarrow> u32 \<Rightarrow> u64 \<Rightarrow> u64 \<Rightarrow> ('d, 'w) server_state \<Rightarrow>
     (bytes \<times> ('d, 'w) server_state) option" where
  "RpcMdRead env obs flushedUpto rel f blknum l s =
     do { s \<leftarrow> WaitParse l obs s;
          let c = env_redo env;
          (buff, pool) \<leftarrow> GetPageByLsn (rc_env c) (rc_sched c 13 0) (rc_sched c 22 BLCKSZ) (rc_tid c) flushedUpto
            (reln_node rel) f (ucast blknum) 0 (redoPool s);
          page \<leftarrow> assign_page buff;
          Some (page, s\<lparr>redoPool := pool\<rparr>) }"

section \<open>Relations\<close>

definition RpcMdNblocks ::
    "('d, 'w, 'r) server_env \<Rightarrow> (u64 \<times> bool) list \<Rightarrow> Smgr_Relation \<Rightarrow> u32 \<Rightarrow> u64 \<Rightarrow> ('d, 'w) server_state \<Rightarrow>
     (u32 \<times> ('d, 'w) server_state) option" where
  "RpcMdNblocks env obs rel f l s =
     do { s \<leftarrow> WaitParse l obs s;
          let relKey = TransRelNode2RelKey (reln_node rel) f;
          c \<leftarrow> RelSizePthreadReadLock relKey (relSizes s);
          (case GetRelSizeCache relKey c of
             Some foundPageNum \<Rightarrow>
               do { c \<leftarrow> RelSizePthreadUnlock relKey c; Some (foundPageNum, s\<lparr>relSizes := c\<rparr>) }
           | None \<Rightarrow>
               do { c \<leftarrow> RelSizePthreadUnlock relKey c;
                    (relSize, pool) \<leftarrow> sync_rel_size (env_redo env) (redoPool s) (reln_node rel) f 0;
                    c \<leftarrow> RelSizePthreadWriteLock relKey c;
                    let c = (if 0 \<le> sint relSize \<and> GetRelSizeCache relKey c = None then InsertRelSizeCache relKey relSize c else c);
                    c \<leftarrow> RelSizePthreadUnlock relKey c;
                    Some (relSize, s\<lparr>redoPool := pool, relSizes := c\<rparr>) }) }"

definition RpcMdExists ::
    "('d, 'w, 'r) server_env \<Rightarrow> (u64 \<times> bool) list \<Rightarrow> Smgr_Relation \<Rightarrow> u32 \<Rightarrow> u64 \<Rightarrow> ('d, 'w) server_state \<Rightarrow>
     (bool \<times> ('d, 'w) server_state) option" where
  "RpcMdExists env obs rel f l s =
     do { s \<leftarrow> WaitParse l obs s;
          let relKey = TransRelNode2RelKey (reln_node rel) f;
          c \<leftarrow> RelSizePthreadReadLock relKey (relSizes s);
          let found = GetRelSizeCache relKey c;
          c \<leftarrow> RelSizePthreadUnlock relKey c;
          if found \<noteq> None then Some (True, s\<lparr>relSizes := c\<rparr>)
          else do { (relSize, pool) \<leftarrow> sync_rel_size (env_redo env) (redoPool s) (reln_node rel) f l;
                    c \<leftarrow> RelSizePthreadWriteLock relKey c;
                    let c = (if 0 \<le> sint relSize \<and> GetRelSizeCache relKey c = None then InsertRelSizeCache relKey relSize c else c);
                    c \<leftarrow> RelSizePthreadUnlock relKey c;
                    Some (0 \<le> sint relSize, s\<lparr>redoPool := pool, relSizes := c\<rparr>) } }"

definition RpcMdCreate ::
    "('d, 'w, 'r) server_env \<Rightarrow> Smgr_Relation \<Rightarrow> u32 \<Rightarrow> ('d, 'w) server_state \<Rightarrow> ('d, 'w) server_state option" where
  "RpcMdCreate env rel f s =
     do { let c = env_redo env;
          pool \<leftarrow> WalRedoCreateRel (rc_env c) (rc_sched c 18 4) (rc_tid c) (reln_node rel) f (redoPool s);
          Some (s\<lparr>redoPool := pool\<rparr>) }"

text \<open>\<open>_buff.copy\<close> copies as many bytes as there are; \<open>rest\<close> is what \<open>malloc\<close> left behind them.\<close>

definition RpcMdExtend ::
    "('d, 'w, 'r) server_env \<Rightarrow> bytes \<Rightarrow> Smgr_Relation \<Rightarrow> u32 \<Rightarrow> u32 \<Rightarrow> bytes \<Rightarrow> ('d, 'w) server_state \<Rightarrow>
     ('d, 'w) server_state option" where
  "RpcMdExtend env rest rel f blknum buff s =
     do { let c = env_redo env;
          let extendPage = take BLCKSZ (buff @ drop (length buff) rest);
          (_, pool) \<leftarrow> WalRedoExtendRel (rc_env c) (rc_sched c 8214 4) (rc_tid c) (reln_node rel) f blknum extendPage (redoPool s);
          Some (s\<lparr>redoPool := pool\<rparr>) }"

definition RpcTruncate ::
    "(u64 \<times> bool) list \<Rightarrow> Smgr_Relation \<Rightarrow> u32 \<Rightarrow> u32 \<Rightarrow> u64 \<Rightarrow> ('d, 'w) server_state \<Rightarrow> ('d, 'w) server_state option" where
  "RpcTruncate obs rel f blknum l s =
     do { s \<leftarrow> WaitParse l obs s;
          let relKey = TransRelNode2RelKey (reln_node rel) f;
          c \<leftarrow> RelSizePthreadWriteLock relKey (relSizes s);
          c \<leftarrow> RelSizePthreadUnlock relKey (InsertRelSizeCache relKey blknum c);
          Some (s\<lparr>relSizes := c\<rparr>) }"

end
