(* ===== verification/Vacuumer.thy ===== *)
theory Vacuumer
  imports PageServer
begin

text \<open>
  The background vacuumer of the storage node
  (\<open>backend/access/logindex/background_hashmap_vacuumer.cpp\<close>): it goes through the buckets of the
  version map, replays the oldest unreplayed records of the pages it finds, and frees the element
  nodes whose records are all replayed.
\<close>

abbreviation (input) ITER_BATCH_SIZE :: nat where "ITER_BATCH_SIZE \<equiv> 10"
abbreviation (input) MAX_REPLAY_VERSION_SIZE :: nat where "MAX_REPLAY_VERSION_SIZE \<equiv> 20"
abbreviation (input) ITER_BUCKET_INTERVAL :: int where "ITER_BUCKET_INTERVAL \<equiv> 300"
abbreviation (input) ITER_HEAD_INTERVAL :: int where "ITER_HEAD_INTERVAL \<equiv> 300"

section \<open>One page\<close>

definition VacuumHashNode :: "addr \<Rightarrow> addr \<Rightarrow> HashMap \<Rightarrow> HashMap option" where
  "VacuumHashNode head ele m =
     do { h \<leftarrow> heads m head;
          e \<leftarrow> eles m ele;
          m \<leftarrow> (if nextEle h = Some ele
               then do { m \<leftarrow> upd_head head (\<lambda>h. h\<lparr>nextEle := e_nextEle e\<rparr>) m;
                         (case e_nextEle e of None \<Rightarrow> Some m | Some n \<Rightarrow> upd_ele n (\<lambda>e. e\<lparr>e_prevEle := None\<rparr>) m) }
               else do { p \<leftarrow> e_prevEle e;
                         m \<leftarrow> upd_ele p (\<lambda>x. x\<lparr>e_nextEle := e_nextEle e\<rparr>) m;
                         (case e_nextEle e of None \<Rightarrow> Some m | Some n \<Rightarrow> upd_ele n (\<lambda>x. x\<lparr>e_prevEle := e_prevEle e\<rparr>) m) });
          Some (m\<lparr>eles := (eles m)(ele := None)\<rparr>) }"

text \<open>
  The loop over the entries of a node. \<open>lsnList\<close> is an array of \<open>MAX_REPLAY_VERSION_SIZE\<close> entries; a write
  behind it is a fault.
\<close>

fun collect_unreplayed :: "u64 \<Rightarrow> LsnEntry list \<Rightarrow> nat list \<Rightarrow> u64 list \<Rightarrow> u64 list option" where
  "collect_unreplayed replayed entry [] lsnList = Some lsnList"
| "collect_unreplayed replayed entry (i # is) lsnList =
     do { e \<leftarrow> arr_get entry (int i);
          lsnList \<leftarrow> (if replayed < lsn e
            then if length lsnList < MAX_REPLAY_VERSION_SIZE then Some (lsnList @ [lsn e]) else None
            else Some lsnList);
          if MAX_REPLAY_VERSION_SIZE \<le> length lsnList then Some lsnList
          else collect_unreplayed replayed entry is lsnList }"

partial_function (option) vacuum_eles ::
    "addr \<Rightarrow> u64 \<Rightarrow> ptr \<Rightarrow> HashMap \<Rightarrow> u64 list \<Rightarrow> (HashMap \<times> u64 list) option" where
  "vacuum_eles head replayed ele m lsnList =
     (case ele of
        None \<Rightarrow> Some (m, lsnList)
      | Some x \<Rightarrow>
          do { e \<leftarrow> eles m x;
               lastEntry \<leftarrow> arr_get (e_lsnEntry e) (e_entryNum e - 1);
               lsnList \<leftarrow> (if replayed < lsn lastEntry
                 then collect_unreplayed replayed (e_lsnEntry e) [0..<nat (e_entryNum e)] lsnList else Some lsnList);
               if replayed < lsn lastEntry \<and> length lsnList = MAX_REPLAY_VERSION_SIZE
               then do { m \<leftarrow> (if last lsnList = lsn lastEntry \<and> e_nextEle e \<noteq> None then VacuumHashNode head x m else Some m);
                         Some (m, lsnList) }
               else do { m \<leftarrow> (if e_nextEle e \<noteq> None then VacuumHashNode head x m else Some m);
                         vacuum_eles head replayed (e_nextEle e) m lsnList } })"

definition key_tag :: "KeyType \<Rightarrow> BufferTag" where
  "key_tag k = \<lparr>rnode = \<lparr>spcNode = ucast (SpcID k), dbNode = ucast (DbID k), relNode = ucast (RelID k)\<rparr>,
     forkNum = ForkNum k, blockNum = ucast (BlkNum k)\<rparr>"

text \<open>The records to replay: at most \<open>MAX_REPLAY_VERSION_SIZE\<close>, the oldest first. Nodes are freed on the way.\<close>

definition collect_versions :: "addr \<Rightarrow> HashMap \<Rightarrow> (HashMap \<times> u64 list) option" where
  "collect_versions head m =
     do { h \<leftarrow> heads m head;
          lastEntry \<leftarrow> arr_get (lsnEntry h) (entryNum h - 1);
          lsnList \<leftarrow> (if replayedLsn h < lsn lastEntry
            then collect_unreplayed (replayedLsn h) (lsnEntry h) [0..<nat (entryNum h)] [] else Some []);
          vacuum_eles head (replayedLsn h) (nextEle h) m lsnList }"

definition BackgroundReplayHeadNode ::
    "('d, 'w, 'r) server_env \<Rightarrow> addr \<Rightarrow> ('d, 'w) server_state \<Rightarrow> ('d, 'w) server_state option" where
  "BackgroundReplayHeadNode env head s =
     do { h \<leftarrow> heads (pageVersionHashMap s) head;
          let bufferTag = key_tag (key h);
          (m, lsnList) \<leftarrow> collect_versions head (pageVersionHashMap s);
          let s = s\<lparr>pageVersionHashMap := m\<rparr>;
          if lsnList = [] then Some s
          else do { (replayedPage, s) \<leftarrow> replay_page env bufferTag (replayedLsn h) lsnList s;
                    kv \<leftarrow> PutPage2Rocksdb (env_db env) (kvStore s) bufferTag (last lsnList) replayedPage;
                    kv \<leftarrow> (if 0 < replayedLsn h then DeletePageFromRocksdb (env_err env) (env_db env) kv bufferTag (replayedLsn h)
                          else Some kv);
                    m \<leftarrow> upd_head head (\<lambda>h. h\<lparr>replayedLsn := last lsnList\<rparr>) (pageVersionHashMap s);
                    Some (s\<lparr>pageVersionHashMap := m, kvStore := kv\<rparr>) } }"

section \<open>One bucket\<close>

fun skip_heads :: "(addr \<rightharpoonup> HashNodeHead) \<Rightarrow> nat \<Rightarrow> ptr \<Rightarrow> ptr option" where
  "skip_heads hp 0 iter = Some iter"
| "skip_heads hp (Suc n) None = skip_heads hp n None"
| "skip_heads hp (Suc n) (Some a) = do { h \<leftarrow> hp a; skip_heads hp n (nextHead h) }"

text \<open>A batch: the heads with something to replay, the next head, and whether the end was reached.\<close>

fun collect_heads :: "(addr \<rightharpoonup> HashNodeHead) \<Rightarrow> nat \<Rightarrow> ptr \<Rightarrow> (addr list \<times> ptr \<times> bool) option" where
  "collect_heads hp 0 iter = Some ([], iter, False)"
| "collect_heads hp (Suc n) None = Some ([], None, True)"
| "collect_heads hp (Suc n) (Some a) =
     do { h \<leftarrow> hp a;
          (headNodes, iter, finish) \<leftarrow> collect_heads hp n (nextHead h);
          Some (if replayedLsn h < maxLsn h then a # headNodes else headNodes, iter, finish) }"

text \<open>\<open>clock a\<close> is what \<open>gettimeofday\<close> returns when the head \<open>a\<close> is visited.\<close>

definition vacuum_head ::
    "('d, 'w, 'r) server_env \<Rightarrow> (addr \<Rightarrow> timeval) \<Rightarrow> addr \<Rightarrow> ('d, 'w) server_state \<Rightarrow> ('d, 'w) server_state option" where
  "vacuum_head env clock a s =
     do { h \<leftarrow> heads (pageVersionHashMap s) a;
          (case wrlock (headLock h) of
             None \<Rightarrow> Some s
           | Some l \<Rightarrow>
               do { m \<leftarrow> lock_head wrlock a (pageVersionHashMap s);
                    let s = s\<lparr>pageVersionHashMap := m\<rparr>;
                    s \<leftarrow> (if ITER_HEAD_INTERVAL \<le> tv_sec (clock a) - tv_sec (finishVacuumTime h)
                         then do { s \<leftarrow> BackgroundReplayHeadNode env a s;
                                   m \<leftarrow> upd_head a (\<lambda>h. h\<lparr>finishVacuumTime := clock a\<rparr>) (pageVersionHashMap s);
                                   Some (s\<lparr>pageVersionHashMap := m\<rparr>) }
                         else Some s);
                    m \<leftarrow> lock_head unlock a (pageVersionHashMap s);
                    Some (s\<lparr>pageVersionHashMap := m\<rparr>) }) }"

partial_function (option) scan_heads ::
    "('d, 'w, 'r) server_env \<Rightarrow> (addr \<Rightarrow> timeval) \<Rightarrow> nat \<Rightarrow> nat \<Rightarrow> ptr \<Rightarrow> ('d, 'w) server_state \<Rightarrow> ('d, 'w) server_state option" where
  "scan_heads env clock i currentFinishHeadNum iter s =
     do { m \<leftarrow> lock_bucket rdlock i (pageVersionHashMap s);
          iter \<leftarrow> skip_heads (heads m) currentFinishHeadNum iter;
          (headNodes, iter, finish) \<leftarrow> collect_heads (heads m) ITER_BATCH_SIZE iter;
          m \<leftarrow> lock_bucket unlock i m;
          s \<leftarrow> foldm (vacuum_head env clock) headNodes (s\<lparr>pageVersionHashMap := m\<rparr>);
          if finish then Some s
          else scan_heads env clock i (currentFinishHeadNum + ITER_BATCH_SIZE) iter s }"

text \<open>\<open>now\<close> and \<open>fin\<close> are the times before and after the bucket is scanned.\<close>

definition clean_bucket ::
    "('d, 'w, 'r) server_env \<Rightarrow> timeval \<Rightarrow> (addr \<Rightarrow> timeval) \<Rightarrow> timeval \<Rightarrow> nat \<Rightarrow> ('d, 'w) server_state \<Rightarrow> ('d, 'w) server_state option" where
  "clean_bucket env now clock fin i s =
     do { b \<leftarrow> get_bucket (pageVersionHashMap s) i;
          if replayLock b then Some s
          else do { m \<leftarrow> upd_bucket i (\<lambda>b. b\<lparr>replayLock := True\<rparr>) (pageVersionHashMap s);
                    let s = s\<lparr>pageVersionHashMap := m\<rparr>;
                    s \<leftarrow> (if tv_usec now - tv_usec (lastReplayTime b) < ITER_BUCKET_INTERVAL then Some s
                         else do { s \<leftarrow> scan_heads env clock i 0 (nodeList b) s;
                                   m \<leftarrow> upd_bucket i (\<lambda>b. b\<lparr>lastReplayTime := fin\<rparr>) (pageVersionHashMap s);
                                   Some (s\<lparr>pageVersionHashMap := m\<rparr>) });
                    m \<leftarrow> upd_bucket i (\<lambda>b. b\<lparr>replayLock := False\<rparr>) (pageVersionHashMap s);
                    Some (s\<lparr>pageVersionHashMap := m\<rparr>) } }"

section \<open>The endless loop\<close>

text \<open>The first rounds of the loop, one for each element of \<open>obs\<close>; \<open>i\<close> is \<open>currentBucketID\<close>.\<close>

fun clean_rounds ::
    "('d, 'w, 'r) server_env \<Rightarrow> (timeval \<times> (addr \<Rightarrow> timeval) \<times> timeval) list \<Rightarrow> nat \<Rightarrow> ('d, 'w) server_state \<Rightarrow> ('d, 'w) server_state option" where
  "clean_rounds env [] i s = Some s"
| "clean_rounds env ((now, clock, fin) # obs) i s =
     (let i = (i + 1) mod unat (bucketNum (pageVersionHashMap s))
      in do { s \<leftarrow> clean_bucket env now clock fin i s; clean_rounds env obs i s })"

definition BackgroundHashMapCleanRocksdb ::
    "('d, 'w, 'r) server_env \<Rightarrow> nat \<Rightarrow> (timeval \<times> (addr \<Rightarrow> timeval) \<times> timeval) list \<Rightarrow> ('d, 'w) server_state \<Rightarrow> ('d, 'w) server_state option" where
  "BackgroundHashMapCleanRocksdb env tid obs s =
     (if bucketNum (pageVersionHashMap s) = 0 then None
      else clean_rounds env obs (tid mod unat (bucketNum (pageVersionHashMap s))) s)"

end
