(* ===== verification/VacuumChain.thy ===== *)
theory VacuumChain
  imports Vacuumer
begin

text \<open>
  The vacuumer on one page: which records it collects, which element nodes it frees, and what is left of
  the version chain.
\<close>

section \<open>Collecting\<close>

text \<open>The records a page still has to replay.\<close>

abbreviation unreplayed :: "u64 \<Rightarrow> LsnEntry list \<Rightarrow> u64 list" where
  "unreplayed r es \<equiv> map lsn (filter (\<lambda>e. r < lsn e) es)"

lemma collect_unreplayed_from:
  assumes "n \<le> length entry" "k \<le> n" "length acc < 20"
  shows "collect_unreplayed r entry [k..<n] acc =
    Some (acc @ take (20 - length acc) (unreplayed r (drop k (take n entry))))"
  using assms(2,3)
proof (induction "n - k" arbitrary: k acc)
  case 0
  then show ?case by simp
next
  case (Suc d)
  then have k: "k < n" by simp
  let ?e = "entry ! k"
  have d: "drop k (take n entry) = ?e # drop (Suc k) (take n entry)"
    using k assms(1) by (subst Cons_nth_drop_Suc [symmetric]) auto
  have get: "arr_get entry (int k) = Some ?e" using k assms(1) by simp
  have IH: "length acc' < 20 \<Longrightarrow> collect_unreplayed r entry [Suc k..<n] acc' =
      Some (acc' @ take (20 - length acc') (unreplayed r (drop (Suc k) (take n entry))))" for acc'
    using Suc.hyps(2) k by (intro Suc.hyps(1)) auto
  show ?case
  proof (cases "r < lsn ?e")
    case True
    show ?thesis
    proof (cases "length acc = 19")
      case full: True
      then show ?thesis using True get by (simp add: upt_conv_Cons [OF k] d)
    next
      case False
      with Suc.prems(2) have *: "length acc < 19" by simp
      then have "20 - length acc = Suc (19 - length acc)" by simp
      with * True get IH [of "acc @ [lsn ?e]"] Suc.prems(2) show ?thesis
        by (simp add: upt_conv_Cons [OF k] d)
    qed
  next
    case False
    with get IH [of acc] Suc.prems(2) show ?thesis by (simp add: upt_conv_Cons [OF k] d)
  qed
qed

lemmas collect_unreplayed_all = collect_unreplayed_from [where k = 0, simplified]

lemma unreplayed_none: "lsorted es \<Longrightarrow> es \<noteq> [] \<Longrightarrow> \<not> r < lsn (last es) \<Longrightarrow> unreplayed r es = []"
  using lsorted_last by (fastforce simp: filter_empty_conv)

text \<open>The test of the newest entry only saves work.\<close>

lemma collect_node:
  assumes "lsorted (take n entry)" "0 < n" "n \<le> length entry" "length acc < 20"
    and "lastEntry = entry ! (n - 1)"
  shows "(if r < lsn lastEntry then collect_unreplayed r entry [0..<n] acc else Some acc) =
    Some (acc @ take (20 - length acc) (unreplayed r (take n entry)))"
proof -
  have "last (take n entry) = lastEntry" using assms(2,3,5) by (simp add: last_take_nth)
  moreover have "take n entry \<noteq> []" using assms(2,3) by auto
  ultimately have "\<not> r < lsn lastEntry \<Longrightarrow> unreplayed r (take n entry) = []" using unreplayed_none [OF assms(1)] by simp
  with assms(3,4) show ?thesis by (simp add: collect_unreplayed_all)
qed

section \<open>Freeing the first element node\<close>

lemma lsorted_drop_middle: "lsorted (xs @ ys @ zs) \<Longrightarrow> lsorted (xs @ zs)"
  by (auto simp: sorted_wrt_append)

lemma head_ok_free_first:
  assumes ok: "head_ok E h (x # y # as)"
    and E': "E' = E(y \<mapsto> (the (E y))\<lparr>e_prevEle := None\<rparr>, x := None)"
  shows "head_ok E' (h\<lparr>nextEle := Some y\<rparr>) (y # as)" and "eles_entries E' (y # as) = eles_entries E (y # as)"
proof -
  have seg: "lseg e_nextEle E (Some x) (x # y # as) None" and links: "back_links e_prevEle E None (x # y # as)"
    and nodes: "\<forall>a \<in> set (x # y # as). ele_ok (the (E a))" and sorted: "lsorted (chain E h (x # y # as))"
    and tail: "tailEle h = Some (last (x # y # as))" and last: "maxLsn h = lsn (last (chain E h (x # y # as)))"
    using ok by (auto simp: head_ok_def)
  have dist: "distinct (x # y # as)" using lseg_distinct [OF seg] .
  have seg': "lseg e_nextEle E (Some y) (y # as) None" using seg by auto
  then obtain ey where y: "E y = Some ey" by auto
  have same: "ele_entries (the (E' a)) = ele_entries (the (E a))" "ele_ok (the (E' a)) = ele_ok (the (E a))" if "a \<in> set (y # as)" for a
    using that dist y by (auto simp: E' ele_entries_def ele_ok_def)
  show ents: "eles_entries E' (y # as) = eles_entries E (y # as)" by (rule eles_entries_cong) (rule same)
  have chain: "chain E' (h\<lparr>nextEle := Some y\<rparr>) (y # as) = head_entries h @ eles_entries E (y # as)"
    using ents by (simp add: chain_def head_entries_def)
  have "ele_ok (the (E y))" using nodes by simp
  then have "ele_entries (the (E y)) \<noteq> []" by (rule ele_ok_facts)
  then have "last (head_entries h @ eles_entries E (y # as)) = last (chain E h (x # y # as))" by (simp add: chain_def)
  moreover have "lsorted (head_entries h @ eles_entries E (y # as))"
    by (rule lsorted_drop_middle [of _ "ele_entries (the (E x))"]) (use sorted in \<open>simp add: chain_def\<close>)
  moreover have "lseg e_nextEle E' (Some y) (y # as) None"
    using seg' y dist by (simp add: E' heap_simps)
  moreover have "back_links e_prevEle E' None (y # as)"
    using links y dist by (auto simp: E' back_links_other)
  moreover have "\<forall>a \<in> set (y # as). ele_ok (the (E' a))" using nodes same(2) by (meson list.set_intros(2))
  moreover have "length (lsnEntry h) = 15" "entryNum h = HASH_HEAD_NUM" using ok by (simp_all add: head_ok_def)
  ultimately show "head_ok E' (h\<lparr>nextEle := Some y\<rparr>) (y # as)"
    using tail last unfolding head_ok_def chain by simp
qed

lemma VacuumHashNode_first:
  assumes h: "heads m a = Some h" and ok: "head_ok (eles m) h (x # y # as)"
    and E': "E' = (eles m)(y \<mapsto> (the (eles m y))\<lparr>e_prevEle := None\<rparr>, x := None)"
  shows "VacuumHashNode a x m = Some (m\<lparr>heads := (heads m)(a \<mapsto> h\<lparr>nextEle := Some y\<rparr>), eles := E'\<rparr>)"
proof -
  have seg: "lseg e_nextEle (eles m) (nextEle h) (x # y # as) None" using ok by (simp add: head_ok_def)
  then obtain ex ey where "nextEle h = Some x" "eles m x = Some ex" "e_nextEle ex = Some y" "eles m y = Some ey" by auto
  then show ?thesis using h by (simp add: VacuumHashNode_def upd_head_def upd_ele_def E')
qed


section \<open>The element nodes\<close>

lemma vacuum_eles_None [simp]: "vacuum_eles a r None m acc = Some (m, acc)"
  by (simp add: vacuum_eles.simps)

text \<open>What is left of the element nodes of a head: a suffix, whose first node has lost its back link.\<close>

definition trimmed :: "addr \<Rightarrow> HashMap \<Rightarrow> HashNodeHead \<Rightarrow> addr list \<Rightarrow> HashMap \<Rightarrow> addr list \<Rightarrow> bool" where
  "trimmed a m h as m' as' \<longleftrightarrow>
     (\<exists>rm E h'. as = rm @ as' \<and> h' = h\<lparr>nextEle := (if as' = [] then None else Some (hd as'))\<rparr> \<and>
        m' = m\<lparr>heads := (heads m)(a \<mapsto> h'), eles := E\<rparr> \<and> head_ok E h' as' \<and>
        (\<forall>x. x \<notin> set as \<longrightarrow> E x = eles m x) \<and> (\<forall>x \<in> set rm. E x = None) \<and>
        eles_entries E as' = eles_entries (eles m) as')"

lemma trimmed_refl: "heads m a = Some h \<Longrightarrow> head_ok (eles m) h as \<Longrightarrow> trimmed a m h as m as"
proof -
  assume h: "heads m a = Some h" and ok: "head_ok (eles m) h as"
  then have "h\<lparr>nextEle := (if as = [] then None else Some (hd as))\<rparr> = h" by (cases as) (auto simp: head_ok_def)
  with h ok show ?thesis unfolding trimmed_def by (intro exI [of _ "[]"] exI [of _ "eles m"]) (auto simp: map_upd_triv)
qed

lemma trimmed_first:
  assumes h: "heads m a = Some h" and ok: "head_ok (eles m) h (x # y # as)" and m1: "VacuumHashNode a x m = Some m1"
    and h1: "h1 = h\<lparr>nextEle := Some y\<rparr>"
  shows "trimmed a m h (x # y # as) m1 (y # as)" and "heads m1 a = Some h1" and "head_ok (eles m1) h1 (y # as)"
    and "set bs \<subseteq> set (y # as) \<Longrightarrow> eles_entries (eles m1) bs = eles_entries (eles m) bs"
    and "trimmed a m1 h1 (y # as) m2 as' \<Longrightarrow> trimmed a m h (x # y # as) m2 as'"
proof -
  define E where "E = (eles m)(y \<mapsto> (the (eles m y))\<lparr>e_prevEle := None\<rparr>, x := None)"
  have m1_eq: "m1 = m\<lparr>heads := (heads m)(a \<mapsto> h1), eles := E\<rparr>" using m1 VacuumHashNode_first [OF h ok E_def] h1 by simp
  note free = head_ok_free_first [OF ok E_def]
  show "heads m1 a = Some h1" "head_ok (eles m1) h1 (y # as)" using free by (simp_all add: m1_eq h1)
  have "distinct (x # y # as)" using ok unfolding head_ok_def by (blast dest: lseg_distinct)
  then have x: "x \<notin> set (y # as)" by simp
  show same: "eles_entries (eles m1) bs = eles_entries (eles m) bs" if "set bs \<subseteq> set (y # as)" for bs
    using x that by (intro eles_entries_cong) (auto simp: m1_eq E_def ele_entries_def)
  show "trimmed a m h (x # y # as) m1 (y # as)"
    unfolding trimmed_def using free h1 by (intro exI [of _ "[x]"] exI [of _ E]) (simp add: m1_eq E_def)
  assume "trimmed a m1 h1 (y # as) m2 as'"
  then obtain rm E2 h2 where t: "y # as = rm @ as'" "h2 = h1\<lparr>nextEle := (if as' = [] then None else Some (hd as'))\<rparr>"
    "m2 = m1\<lparr>heads := (heads m1)(a \<mapsto> h2), eles := E2\<rparr>" "head_ok E2 h2 as'" "\<forall>z. z \<notin> set (y # as) \<longrightarrow> E2 z = eles m1 z"
    "\<forall>z \<in> set rm. E2 z = None" "eles_entries E2 as' = eles_entries (eles m1) as'" unfolding trimmed_def by blast
  have "eles_entries (eles m1) as' = eles_entries (eles m) as'" using t(1) by (intro same) auto
  moreover have "\<forall>z. z \<notin> set (x # y # as) \<longrightarrow> E2 z = eles m z" "E2 x = None" using t(5) x by (simp_all add: m1_eq E_def)
  ultimately show "trimmed a m h (x # y # as) m2 as'"
    unfolding trimmed_def using t(1-4,6,7) h1 by (intro exI [of _ "x # rm"] exI [of _ E2]) (simp add: m1_eq)
qed


text \<open>One turn of the loop, with the entries of the node as one list.\<close>

definition vacuum_turn ::
    "addr \<Rightarrow> u64 \<Rightarrow> HashMap \<Rightarrow> addr \<Rightarrow> addr list \<Rightarrow> u64 list \<Rightarrow> LsnEntry list \<Rightarrow> (HashMap \<times> u64 list) option" where
  "vacuum_turn a r m x as acc es =
     (let acc' = acc @ take (20 - length acc) (unreplayed r es); p = (if as = [] then None else Some (hd as)) in
      if length acc' = 20
      then do { m \<leftarrow> (if last acc' = lsn (last es) \<and> as \<noteq> [] then VacuumHashNode a x m else Some m); Some (m, acc') }
      else do { m \<leftarrow> (if as \<noteq> [] then VacuumHashNode a x m else Some m); vacuum_eles a r p m acc' })"

lemma vacuum_eles_step:
  assumes ok: "head_ok (eles m) h (x # as)" and acc: "length acc < 20"
  obtains es where "eles_entries (eles m) (x # as) = es @ eles_entries (eles m) as" "lsorted (es @ eles_entries (eles m) as)"
    "vacuum_eles a r (nextEle h) m acc = vacuum_turn a r m x as acc es"
proof -
  have "lseg e_nextEle (eles m) (nextEle h) (x # as) None" using ok by (simp add: head_ok_def)
  then obtain e where e: "nextEle h = Some x" "eles m x = Some e" "lseg e_nextEle (eles m) (e_nextEle e) as None" by auto
  have next_eq: "e_nextEle e = (if as = [] then None else Some (hd as))" using e(3) by (cases as) auto
  have "ele_ok e" using ok e(2) by (simp add: head_ok_def)
  then obtain n where n: "e_entryNum e = int n" "0 < n" "n \<le> length (e_lsnEntry e)" "ele_entries e = take n (e_lsnEntry e)"
    "ele_entries e \<noteq> []" "last (ele_entries e) = e_lsnEntry e ! (n - 1)" by (rule ele_ok_facts)
  have sorted: "lsorted (ele_entries e @ eles_entries (eles m) as)"
    using ok e(2) by (auto simp: head_ok_def chain_def sorted_wrt_append)
  let ?acc = "acc @ take (20 - length acc) (unreplayed r (ele_entries e))"
  have get: "arr_get (e_lsnEntry e) (e_entryNum e - 1) = Some (last (ele_entries e))"
    using n by (simp add: nat_diff_distrib)
  have coll: "(if r < lsn (last (ele_entries e)) then collect_unreplayed r (e_lsnEntry e) [0..<nat (e_entryNum e)] acc else Some acc) = Some ?acc"
    using collect_node [of n "e_lsnEntry e" acc "last (ele_entries e)" r] sorted n acc by (auto simp: sorted_wrt_append)
  have newer: "r < lsn (last (ele_entries e))" if "length ?acc = 20"
    using that acc unreplayed_none [OF _ n(5), of r] sorted by (force simp: sorted_wrt_append)
  show thesis
  proof (rule that [OF _ sorted])
    show "eles_entries (eles m) (x # as) = ele_entries e @ eles_entries (eles m) as" using e(2) by simp
  qed (use get coll newer e(1,2) next_eq in \<open>subst vacuum_eles.simps, auto simp: Let_def vacuum_turn_def\<close>)
qed

lemma sorted_prefix_last:
  fixes xs :: "'a :: linorder list"
  assumes "sorted_wrt (<) xs" "take n xs \<noteq> []" "last (take n xs) = last xs"
  shows "take n xs = xs"
proof -
  have "drop n xs = []"
  proof (rule ccontr)
    assume ne: "drop n xs \<noteq> []"
    have "sorted_wrt (<) (take n xs @ drop n xs)" using assms(1) by simp
    with assms(2) ne have "last (take n xs) < last (drop n xs)" unfolding sorted_wrt_append by (meson last_in_set)
    with ne assms(3) show False by (simp add: last_drop)
  qed
  then show ?thesis by (metis append_take_drop_id append_Nil2)
qed

lemma batch_complete:
  assumes "lsorted es" "take n (unreplayed r es) \<noteq> []" "last (take n (unreplayed r es)) = lsn (last es)" "e \<in> set es"
  shows "lsn e \<le> r \<or> lsn e \<in> set (take n (unreplayed r es))"
proof -
  from assms(2) obtain z where z: "z \<in> set es" "r < lsn z" by (metis (no_types, lifting) filter_False list.simps(8) not_less take_Nil)
  have "r < lsn (last es)" using z(2) lsorted_last [OF assms(1) z(1)] by (rule less_le_trans)
  moreover have "es = butlast es @ [last es]" using z(1) by (cases es rule: rev_cases) auto
  ultimately have "filter (\<lambda>e. r < lsn e) es = filter (\<lambda>e. r < lsn e) (butlast es) @ [last es]"
    by (metis filter.simps filter_append)
  then have "last (take n (unreplayed r es)) = last (unreplayed r es)" using assms(3) by simp
  moreover have "sorted_wrt (<) (unreplayed r es)" using assms(1) by (simp add: sorted_wrt_map sorted_wrt_filter)
  ultimately have "take n (unreplayed r es) = unreplayed r es" using assms(2) by (intro sorted_prefix_last)
  then show ?thesis using assms(4) by (auto simp: not_less)
qed

definition vacuums :: "addr \<Rightarrow> u64 \<Rightarrow> HashMap \<Rightarrow> HashNodeHead \<Rightarrow> addr list \<Rightarrow> u64 list \<Rightarrow> bool" where
  "vacuums a r m h as acc \<longleftrightarrow>
     (\<exists>m' as'. vacuum_eles a r (nextEle h) m acc =
        Some (m', acc @ take (20 - length acc) (unreplayed r (eles_entries (eles m) as))) \<and> trimmed a m h as m' as' \<and>
      (\<forall>e \<in> set (eles_entries (eles m) as) - set (eles_entries (eles m) as').
         lsn e \<le> r \<or> lsn e \<in> set (take (20 - length acc) (unreplayed r (eles_entries (eles m) as)))))"

lemma vacuums_full:
  assumes h: "heads m a = Some h" and ok: "head_ok (eles m) h (x # as)" and acc: "length acc < 20"
    and es: "eles_entries (eles m) (x # as) = es @ eles_entries (eles m) as" "lsorted (es @ eles_entries (eles m) as)"
    and step: "vacuum_eles a r (nextEle h) m acc = vacuum_turn a r m x as acc es"
    and full: "length (acc @ take (20 - length acc) (unreplayed r es)) = 20"
  shows "vacuums a r m h (x # as) acc"
proof -
  let ?n = "20 - length acc" and ?u = "unreplayed r es" and ?v = "unreplayed r (eles_entries (eles m) as)"
  have l: "?n \<le> length ?u" "take ?n ?u \<noteq> []" using acc full by auto
  have res: "take ?n (unreplayed r (es @ eles_entries (eles m) as)) = take ?n ?u" using l(1) by simp
  show ?thesis
  proof (cases "last (acc @ take ?n ?u) = lsn (last es) \<and> as \<noteq> []")
    case free: True
    then obtain y bs where as: "as = y # bs" by (cases as) auto
    obtain m1 where m1: "VacuumHashNode a x m = Some m1" using VacuumHashNode_first [OF h ok [unfolded as] refl] by blast
    have "\<forall>e \<in> set es. lsn e \<le> r \<or> lsn e \<in> set (take ?n ?u)"
      using batch_complete [OF _ l(2)] es(2) free l(2) by (simp add: sorted_wrt_append)
    with trimmed_first(1) [OF h ok [unfolded as] m1 refl] step full free m1 as show ?thesis
      unfolding vacuums_def es(1) res by (auto simp: Let_def vacuum_turn_def intro!: exI [of _ m1] exI [of _ as])
  next
    case keep: False
    have "es = ele_entries (the (eles m x))" using es(1) by simp
    with keep trimmed_refl [OF h ok] step full show ?thesis
      unfolding vacuums_def es(1) res by (auto simp: Let_def vacuum_turn_def intro!: exI [of _ m] exI [of _ "x # as"])
  qed
qed

lemma vacuums_more:
  assumes h: "heads m a = Some h" and ok: "head_ok (eles m) h (x # as)" and as: "as = y # bs"
    and es: "eles_entries (eles m) (x # as) = es @ eles_entries (eles m) as"
    and step: "vacuum_eles a r (nextEle h) m acc = vacuum_turn a r m x as acc es"
    and l: "length (acc @ unreplayed r es) < 20" "take (20 - length acc) (unreplayed r es) = unreplayed r es"
    and m1: "VacuumHashNode a x m = Some m1" and IH: "vacuums a r m1 (h\<lparr>nextEle := Some y\<rparr>) as (acc @ unreplayed r es)"
  shows "vacuums a r m h (x # as) acc"
proof -
  let ?u = "unreplayed r es" and ?v = "unreplayed r (eles_entries (eles m) as)" and ?h1 = "h\<lparr>nextEle := Some y\<rparr>"
  let ?acc = "acc @ ?u"
  note first = trimmed_first [OF h ok [unfolded as] m1 refl, folded as]
  have same: "eles_entries (eles m1) as = eles_entries (eles m) as" by (rule first(4)) simp
  obtain m2 as' where run: "vacuum_eles a r (nextEle ?h1) m1 ?acc = Some (m2, ?acc @ take (20 - length ?acc) ?v)"
    and trim: "trimmed a m1 ?h1 as m2 as'"
    and gone: "\<forall>e \<in> set (eles_entries (eles m) as) - set (eles_entries (eles m1) as'). lsn e \<le> r \<or> lsn e \<in> set (take (20 - length ?acc) ?v)"
    using IH unfolding vacuums_def same by blast
  have suffix: "eles_entries (eles m1) as' = eles_entries (eles m) as'" by (rule first(4)) (use trim in \<open>auto simp: trimmed_def\<close>)
  have res: "take (20 - length acc) (unreplayed r (es @ eles_entries (eles m) as)) = ?u @ take (20 - length ?acc) ?v" using l by simp
  have "vacuum_eles a r (nextEle h) m acc = Some (m2, acc @ take (20 - length acc) (unreplayed r (es @ eles_entries (eles m) as)))"
    unfolding res step using run l m1 as by (simp add: Let_def vacuum_turn_def)
  moreover have "\<forall>e \<in> set (es @ eles_entries (eles m) as) - set (eles_entries (eles m) as').
      lsn e \<le> r \<or> lsn e \<in> set (take (20 - length acc) (unreplayed r (es @ eles_entries (eles m) as)))"
    using gone unfolding suffix res by (auto simp: not_less)
  ultimately show ?thesis unfolding vacuums_def es using first(5) [OF trim] by blast
qed

lemma vacuum_eles_ok:
  assumes "heads m a = Some h" "head_ok (eles m) h as" "length acc < 20"
  shows "vacuums a r m h as acc"
  using assms
proof (induction as arbitrary: m h acc)
  case Nil
  then have "nextEle h = None" by (simp add: head_ok_def)
  with trimmed_refl [OF Nil.prems(1,2)] show ?case by (auto simp: vacuums_def)
next
  case (Cons x as)
  let ?n = "20 - length acc"
  obtain es where es: "eles_entries (eles m) (x # as) = es @ eles_entries (eles m) as" "lsorted (es @ eles_entries (eles m) as)"
    and step: "vacuum_eles a r (nextEle h) m acc = vacuum_turn a r m x as acc es"
    by (rule vacuum_eles_step [OF Cons.prems(2,3)])
  show ?case
  proof (cases "length (acc @ take ?n (unreplayed r es)) = 20")
    case True
    with Cons.prems es step show ?thesis by (intro vacuums_full)
  next
    case False
    then have l: "length (acc @ unreplayed r es) < 20" "take ?n (unreplayed r es) = unreplayed r es"
      using Cons.prems(3) by (auto simp: min_def split: if_splits)
    show ?thesis
    proof (cases "as = []")
      case True
      with step False es l trimmed_refl [OF Cons.prems(1,2)] show ?thesis
        by (auto simp: vacuums_def Let_def vacuum_turn_def intro!: exI [of _ m] exI [of _ "[x]"])
    next
      case ne: False
      then obtain y bs where as: "as = y # bs" by (cases as) auto
      obtain m1 where m1: "VacuumHashNode a x m = Some m1" using VacuumHashNode_first [OF Cons.prems(1) Cons.prems(2) [unfolded as] refl] by blast
      note first = trimmed_first [OF Cons.prems(1) Cons.prems(2) [unfolded as] m1 refl, folded as]
      from vacuums_more [OF Cons.prems(1,2) as es(1) step l m1 Cons.IH [OF first(2,3) l(1)]] show ?thesis .
    qed
  qed
qed


section \<open>The whole chain\<close>

text \<open>The part \<open>R\<close> of a chain may go: it is neither at the front nor above \<open>l\<close>.\<close>

definition prunes :: "u64 \<Rightarrow> LsnEntry list \<Rightarrow> LsnEntry list \<Rightarrow> bool" where
  "prunes l es es' \<longleftrightarrow> (\<exists>H R K. es = H @ R @ K \<and> es' = H @ K \<and> H \<noteq> [] \<and> (\<forall>e \<in> set R. lsn e \<le> l))"

lemma prunesD:
  assumes "prunes l es es'"
  shows "es' \<noteq> []" "hd es' = hd es" "set es' \<subseteq> set es"
    and "filter (\<lambda>e. l < lsn e) es' = filter (\<lambda>e. l < lsn e) es"
proof -
  obtain H R K where *: "es = H @ R @ K" "es' = H @ K" "H \<noteq> []" "\<forall>e \<in> set R. lsn e \<le> l" using assms by (auto simp: prunes_def)
  then have "filter (\<lambda>e. l < lsn e) R = []" by (auto simp: filter_empty_conv)
  with * show "es' \<noteq> []" "hd es' = hd es" "set es' \<subseteq> set es" "filter (\<lambda>e. l < lsn e) es' = filter (\<lambda>e. l < lsn e) es" by auto
qed

lemma below_batch:
  assumes "lsorted es" "lsn e \<le> r \<or> lsn e \<in> set (take n (unreplayed r es))"
  shows "lsn e \<le> last (r # take n (unreplayed r es))"
proof -
  let ?b = "take n (unreplayed r es)"
  have sorted: "sorted_wrt (<) ?b" using assms(1) by (intro sorted_wrt_take) (simp add: sorted_wrt_map sorted_wrt_filter)
  have above: "r < x" if "x \<in> set ?b" for x using that by (auto dest: in_set_takeD)
  show ?thesis
  proof (cases "?b = []")
    case True
    with assms(2) show ?thesis by simp
  next
    case False
    have le: "x \<le> last ?b" if "x \<in> set ?b" for x
    proof -
      have "?b = butlast ?b @ [last ?b]" using False by simp
      then have "x \<in> set (butlast ?b) \<or> x = last ?b" using that by (metis Un_iff empty_iff empty_set set_ConsD set_append)
      moreover have "sorted_wrt (<) (butlast ?b @ [last ?b])" using sorted False by simp
      ultimately show ?thesis by (auto simp: sorted_wrt_append less_imp_le)
    qed
    have "r < last ?b" using False by (intro above) simp
    with assms(2) le False show ?thesis by (auto intro: order_trans less_imp_le)
  qed
qed

lemma collect_versions_chain:
  assumes h: "heads m a = Some h" and ok: "head_ok (eles m) h as"
    and b: "b = take 20 (unreplayed (replayedLsn h) (chain (eles m) h as))"
  obtains m' as' where "collect_versions a m = Some (m', b)" "trimmed a m h as m' as'"
    "\<forall>e \<in> set (eles_entries (eles m) as) - set (eles_entries (eles m) as'). lsn e \<le> replayedLsn h \<or> lsn e \<in> set b"
proof -
  let ?r = "replayedLsn h"
  obtain n where n: "entryNum h = int n" "0 < n" "n \<le> length (lsnEntry h)" "n \<le> 15" "head_entries h = take n (lsnEntry h)"
    "last (head_entries h) = lsnEntry h ! (n - 1)" "lsorted (take n (lsnEntry h))" using ok by (rule head_ok_facts)
  let ?acc = "unreplayed ?r (head_entries h)"
  have "length ?acc \<le> length (head_entries h)" by simp
  also have "\<dots> \<le> 15" using n by simp
  finally have len: "length ?acc \<le> 15" .
  have get: "arr_get (lsnEntry h) (entryNum h - 1) = Some (last (head_entries h))" using n by (simp add: nat_diff_distrib)
  have coll: "(if ?r < lsn (last (head_entries h)) then collect_unreplayed ?r (lsnEntry h) [0..<nat (entryNum h)] [] else Some []) = Some ?acc"
    using collect_node [OF n(7,2,3), of "[]" "last (head_entries h)" ?r] n len by (simp split: if_splits)
  have "vacuums a ?r m h as ?acc" using len by (intro vacuum_eles_ok [OF h ok]) simp
  then obtain m' as' where run: "vacuum_eles a ?r (nextEle h) m ?acc =
      Some (m', ?acc @ take (20 - length ?acc) (unreplayed ?r (eles_entries (eles m) as)))" "trimmed a m h as m' as'"
    "\<forall>e \<in> set (eles_entries (eles m) as) - set (eles_entries (eles m) as').
       lsn e \<le> ?r \<or> lsn e \<in> set (take (20 - length ?acc) (unreplayed ?r (eles_entries (eles m) as)))"
    unfolding vacuums_def by blast
  have "b = ?acc @ take (20 - length ?acc) (unreplayed ?r (eles_entries (eles m) as))" using len by (simp add: b chain_def)
  with run h get coll that [of m' as'] show thesis by (auto simp: collect_versions_def)
qed

lemma collect_versions_ok:
  assumes ok: "hm_ok m" and h: "heads m a = Some h" and v: "head_version m h = (es, r)" and b: "b = take 20 (unreplayed r es)"
  obtains m' es' h' where "collect_versions a m = Some (m', b)" "hm_ok m'" "versions m' = (versions m)(key h \<mapsto> (es', r))"
    "prunes (last (r # b)) es es'" "bucketList m' = bucketList m" "heads m' = (heads m)(a \<mapsto> h')" "head_index h' = head_index h"
    "headLock h' = headLock h" "replayedLsn h' = r"
proof -
  let ?as = "ele_list m h"
  have hok: "head_ok (eles m) h ?as" by (rule hm_okD(4) [OF ok h])
  have es: "es = chain (eles m) h ?as" "r = replayedLsn h" using v by (simp_all add: head_version_def)
  obtain m' as' where run: "collect_versions a m = Some (m', b)" and trim: "trimmed a m h ?as m' as'"
    and gone: "\<forall>e \<in> set (eles_entries (eles m) ?as) - set (eles_entries (eles m) as'). lsn e \<le> r \<or> lsn e \<in> set b"
    using collect_versions_chain [OF h hok b [unfolded es]] es by metis
  obtain rm E h' where t: "?as = rm @ as'" "h' = h\<lparr>nextEle := (if as' = [] then None else Some (hd as'))\<rparr>"
    "m' = m\<lparr>heads := (heads m)(a \<mapsto> h'), eles := E\<rparr>" "head_ok E h' as'" "\<forall>x. x \<notin> set ?as \<longrightarrow> E x = eles m x"
    "\<forall>x \<in> set rm. E x = None" "eles_entries E as' = eles_entries (eles m) as'" using trim unfolding trimmed_def by blast
  have idx: "head_index h' = head_index h" by (simp add: t(2) head_index_def)
  have sorted: "lsorted es" using hok es(1) by (simp add: head_ok_def)
  let ?H = "head_entries h" and ?R = "eles_entries (eles m) rm" and ?K = "eles_entries (eles m) as'"
  have parts: "es = ?H @ ?R @ ?K" "chain E h' as' = ?H @ ?K" using es(1) t(1,2,7) by (simp_all add: chain_def head_entries_def)
  have "lsn e \<le> last (r # b)" if "e \<in> set ?R" for e
  proof -
    have "e \<notin> set ?K" using that sorted unfolding parts(1) by (auto simp: sorted_wrt_append)
    with that gone t(1) have "lsn e \<le> r \<or> lsn e \<in> set b" by auto
    then show ?thesis unfolding b by (rule below_batch [OF sorted])
  qed
  moreover have "?H \<noteq> []" using hok by (rule head_ok_facts)
  ultimately have "prunes (last (r # b)) es (chain E h' as')" unfolding prunes_def parts by blast
  moreover have "hm_ok m'" "versions m' = (versions m)(key h \<mapsto> (chain E h' as', r))"
    using chain_rewrite [OF ok h idx t(4)] t(1,5,6) es(2) by (auto simp: t(2,3))
  ultimately show thesis using that [OF run] t(2,3) idx es(2) by simp
qed

end
