(* ===== verification/ServerLaws.thy ===== *)
theory ServerLaws
  imports VacuumChain
begin

text \<open>
  Facts about the storage node: how pages, keys and requests correspond, the invariant that ties the
  version map and the page store to the history of the pages, and what indexing, reading and vacuuming
  do under it.
\<close>

section \<open>Pages and keys\<close>

definition tag_key :: "BufferTag \<Rightarrow> KeyType" where
  "tag_key t = \<lparr>SpcID = ucast (spcNode (rnode t)), DbID = ucast (dbNode (rnode t)), RelID = ucast (relNode (rnode t)),
     ForkNum = forkNum t, BlkNum = ucast (blockNum t)\<rparr>"

definition reln_of :: "BufferTag \<Rightarrow> Smgr_Relation" where
  "reln_of t = \<lparr>spc_node = ucast (spcNode (rnode t)), db_node = ucast (dbNode (rnode t)), rel_node = ucast (relNode (rnode t))\<rparr>"

lemma ucast_down_up: "ucast (ucast (x :: u32) :: u64) = x"
  by (rule bit_word_eqI) (simp add: bit_simps)

lemma ucast_u64_eq [simp]: "(ucast (x :: u32) :: u64) = ucast y \<longleftrightarrow> x = y"
  by (metis ucast_down_up)

lemma scast_nonneg: "(x :: u32) < 2 ^ 31 \<Longrightarrow> (scast x :: u64) = ucast x"
proof -
  assume "x < 2 ^ 31"
  then have "uint x < 2 ^ 31" by (simp add: word_less_def)
  moreover have "- (2 ^ 31) \<le> uint x" by (rule order_trans [OF _ uint_ge_0]) simp
  ultimately have "sint x = uint x" by (simp add: sint_uint signed_take_bit_int_eq_self_iff)
  then show ?thesis by (metis of_int_sint of_int_uint)
qed

lemma tag_key_inj [simp]: "tag_key t = tag_key t' \<longleftrightarrow> t = t'"
proof
  assume "tag_key t = tag_key t'"
  then have "spcNode (rnode t) = spcNode (rnode t')" "dbNode (rnode t) = dbNode (rnode t')"
    "relNode (rnode t) = relNode (rnode t')" "forkNum t = forkNum t'" "blockNum t = blockNum t'"
    by (simp_all add: tag_key_def)
  then show "t = t'" by simp
qed simp

lemma block_key_tag: "block_key b = tag_key (block_tag b)"
  by (simp add: block_key_def tag_key_def block_tag_def)

lemma reln_node_of [simp]: "reln_node (reln_of t) = rnode t"
  by (simp add: reln_node_def reln_of_def ucast_down_up)

text \<open>A request for the page \<open>t\<close> looks under the key that the WAL records of \<open>t\<close> are entered under.\<close>

lemma request_key:
  "blockNum t < 2 ^ 31 \<Longrightarrow>
   \<lparr>SpcID = spc_node (reln_of t), DbID = db_node (reln_of t), RelID = rel_node (reln_of t), ForkNum = forkNum t, BlkNum = scast (blockNum t)\<rparr> = tag_key t"
  by (simp add: tag_key_def reln_of_def scast_nonneg)

section \<open>The invariant\<close>

text \<open>The history of a page is the list of the LSNs of its records. \<open>between r l h\<close> is the part of it that takes
  the page from \<open>r\<close> to \<open>l\<close>, and \<open>page_at\<close> the page with the records up to \<open>l\<close> applied to the page on disk.\<close>

abbreviation between :: "u64 \<Rightarrow> u64 \<Rightarrow> u64 list \<Rightarrow> u64 list" where
  "between r l h \<equiv> filter (\<lambda>x. r < x \<and> x \<le> l) h"

definition page_at :: "('d, 'w, 'r) server_env \<Rightarrow> BufferTag \<Rightarrow> u64 list \<Rightarrow> u64 \<Rightarrow> bytes" where
  "page_at env t h l = rc_page (env_redo env) t (filter (\<lambda>x. x \<le> l) h) (rc_base (env_redo env) t)"

definition env_ok :: "('d, 'w, 'r) server_env \<Rightarrow> bool" where
  "env_ok env \<longleftrightarrow> rocksdb_ok (env_db env) \<and> redo_ok (env_redo env) \<and> (\<forall>m. hm_free m \<longrightarrow> fresh_block (env_alloc env m) m)"

abbreviation stored_pages :: "('d, 'w, 'r) server_env \<Rightarrow> ('d, 'w) server_state \<Rightarrow> BufferTag \<times> u64 \<rightharpoonup> bytes" where
  "stored_pages env s \<equiv> page_map (env_db env) (kvStore s)"

text \<open>A chain tracks a history: it has the first record and all that are not replayed; replayed ones may be gone.\<close>

definition tracks :: "u64 list \<Rightarrow> (LsnEntry list \<times> u64) option \<Rightarrow> bool" where
  "tracks h v \<longleftrightarrow> sorted_wrt (<) h \<and> 0 \<notin> set h \<and>
     (case v of
        None \<Rightarrow> h = []
      | Some (es, r) \<Rightarrow> es \<noteq> [] \<and> h \<noteq> [] \<and> lsn (hd es) = hd h \<and> lsn ` set es \<subseteq> set h \<and> (r = 0 \<or> r \<in> set h) \<and>
          unreplayed r es = filter (\<lambda>x. r < x) h)"

text \<open>Between requests all locks are free, the chains track the histories, and for every page that was
  replayed up to some LSN the store holds exactly the page at that LSN, and no other version.\<close>

definition server_ok :: "('d, 'w, 'r) server_env \<Rightarrow> (KeyType \<Rightarrow> u64 list) \<Rightarrow> ('d, 'w) server_state \<Rightarrow> bool" where
  "server_ok env H s \<longleftrightarrow> hm_free (pageVersionHashMap s) \<and> full_pages (stored_pages env s) \<and>
     pool_idle (env_redo env) (redoPool s) \<and> cache_ok (relSizes s) \<and>
     (\<forall>k. tracks (H k) (versions (pageVersionHashMap s) k)) \<and>
     (\<forall>t es r. versions (pageVersionHashMap s) (tag_key t) = Some (es, r) \<longrightarrow> r \<noteq> 0 \<longrightarrow>
        stored_pages env s (t, r) = Some (page_at env t (H (tag_key t)) r)) \<and>
     (\<forall>t r. stored_pages env s (t, r) \<noteq> None \<longrightarrow> r \<noteq> 0 \<and> (\<exists>es. versions (pageVersionHashMap s) (tag_key t) = Some (es, r))) \<and>
     (\<forall>k. H k \<noteq> [] \<longrightarrow> (\<exists>t. k = tag_key t \<and> forkNum t < 256))"

lemma server_okD:
  assumes "server_ok env H s"
  shows "hm_free (pageVersionHashMap s)" "full_pages (stored_pages env s)" "pool_idle (env_redo env) (redoPool s)"
    and "cache_ok (relSizes s)" and "tracks (H k) (versions (pageVersionHashMap s) k)"
    and "versions (pageVersionHashMap s) (tag_key t) = Some (es, r) \<Longrightarrow> r \<noteq> 0 \<Longrightarrow>
      stored_pages env s (t, r) = Some (page_at env t (H (tag_key t)) r)"
    and "stored_pages env s (t, r) \<noteq> None \<Longrightarrow> r \<noteq> 0 \<and> (\<exists>es. versions (pageVersionHashMap s) (tag_key t) = Some (es, r))"
    and "H k \<noteq> [] \<Longrightarrow> \<exists>t. k = tag_key t \<and> forkNum t < 256"
  using assms unfolding server_ok_def by blast+

lemma env_okD:
  assumes "env_ok env"
  shows "rocksdb_ok (env_db env)" "redo_ok (env_redo env)" "\<And>m. hm_free m \<Longrightarrow> fresh_block (env_alloc env m) m"
  using assms by (auto simp: env_ok_def)

text \<open>The invariant looks at the meaning of the version map only, and not at the positions in the WAL.\<close>

lemma server_ok_cong:
  assumes "server_ok env H s" "hm_free (pageVersionHashMap s')" "versions (pageVersionHashMap s') = versions (pageVersionHashMap s)"
    and "stored_pages env s' = stored_pages env s" "pool_idle (env_redo env) (redoPool s')" "cache_ok (relSizes s')"
  shows "server_ok env H s'"
  using assms(1) unfolding server_ok_def assms(3,4) by (elim conjE) (intro conjI assms(2,5,6))

lemma tracksD:
  assumes "tracks h (Some (es, r))"
  shows "sorted_wrt (<) h" "0 \<notin> set h" "h \<noteq> []" "lsn (hd es) = hd h" "lsn ` set es \<subseteq> set h" "r = 0 \<or> r \<in> set h"
    "unreplayed r es = filter (\<lambda>x. r < x) h" "window r l es = between r l h" "es \<noteq> []"
proof -
  show "es \<noteq> []" "sorted_wrt (<) h" "0 \<notin> set h" "h \<noteq> []" "lsn (hd es) = hd h" "lsn ` set es \<subseteq> set h" "r = 0 \<or> r \<in> set h"
    and u: "unreplayed r es = filter (\<lambda>x. r < x) h" using assms by (simp_all add: tracks_def)
  have "window r l es = filter (\<lambda>x. x \<le> l) (unreplayed r es)" by (simp add: filter_map o_def conj_commute)
  then show "window r l es = between r l h" using u by (simp add: conj_commute)
qed

lemma history_split:
  fixes h :: "u64 list"
  shows "sorted_wrt (<) h \<Longrightarrow> r \<le> l \<Longrightarrow> filter (\<lambda>x. x \<le> l) h = filter (\<lambda>x. x \<le> r) h @ between r l h"
proof (induction h)
  case (Cons x h)
  then have IH: "filter (\<lambda>x. x \<le> l) h = filter (\<lambda>x. x \<le> r) h @ between r l h" by simp
  show ?case
  proof (cases "x \<le> r")
    case True
    with Cons.prems(2) have "x \<le> l" by (rule order_trans [rotated])
    with True IH show ?thesis by simp
  next
    case False
    then have above: "r < y" if "y \<in> set (x # h)" for y using Cons.prems(1) that by force
    then have "filter (\<lambda>x. x \<le> r) (x # h) = []" by (force simp: filter_empty_conv)
    moreover have "filter (\<lambda>x. x \<le> l) (x # h) = between r l (x # h)" using above by (intro filter_cong) auto
    ultimately show ?thesis by simp
  qed
qed simp

section \<open>Replaying\<close>

lemma length_page_at [simp]: "env_ok env \<Longrightarrow> length (page_at env t h l) = BLCKSZ"
  by (simp add: page_at_def redo.size_law redo.base_size_law env_okD(2))

lemma assign_page_full [simp]: "length p = BLCKSZ \<Longrightarrow> assign_page p = Some p"
  by (simp add: assign_page_def)

text \<open>Replaying the missing records takes the page from one LSN to the other.\<close>

lemma page_at_step:
  assumes "env_ok env" "sorted_wrt (<) h" "r \<le> l"
  shows "rc_page (env_redo env) t (between r l h) (page_at env t h r) = page_at env t h l"
  using redo.append_law [of "env_redo env" "rc_base (env_redo env) t" t "filter (\<lambda>x. x \<le> r) h" "between r l h"]
    history_split [OF assms(2,3)] env_okD(2) [OF assms(1)] by (simp add: page_at_def redo.base_size_law)

lemma replay_page_ok:
  assumes env: "env_ok env" and f: "forkNum t < 256" and len: "length (between r l h) < 2 ^ 26"
    and h: "sorted_wrt (<) h" "0 \<notin> set h" "r \<le> l"
    and s: "full_pages (stored_pages env s)" "pool_idle (env_redo env) (redoPool s)"
    and stored: "r \<noteq> 0 \<Longrightarrow> stored_pages env s (t, r) = Some (page_at env t h r)"
  obtains kv pool where "replay_page env t r (between r l h) s = Some (page_at env t h l, s\<lparr>kvStore := kv, redoPool := pool\<rparr>)"
    "page_map (env_db env) kv = stored_pages env s" "pool_idle (env_redo env) pool"
proof (cases "r = 0")
  case True
  have "0 < x" if "x \<in> set h" for x using h(2) that by (metis word_neq_0_conv)
  with True have all: "between r l h = filter (\<lambda>x. x \<le> l) h" by (intro filter_cong) auto
  obtain pool where "apply_disk (env_redo env) (redoPool s) t (between r l h) =
      Some (rc_page (env_redo env) t (between r l h) (rc_base (env_redo env) t), pool)" "pool_idle (env_redo env) pool"
    using redo.disk_law [OF env_okD(2) [OF env] s(2) f len] by blast
  with True that [of pool "kvStore s"] show ?thesis unfolding all by (simp add: replay_page_def page_at_def)
next
  case False
  obtain kv where kv: "GetPageFromRocksdb (env_db env) (kvStore s) t r = Some (Some (page_at env t h r), kv)"
    "page_map (env_db env) kv = stored_pages env s"
    using rocks.get_law [of "(None, env_db env)" "kvStore s" t r] s(1) env_okD(1) [OF env] stored [OF False] by auto
  obtain pool where "apply_list (env_redo env) (redoPool s) t (between r l h) (page_at env t h r) =
      Some (page_at env t h l, pool)" "pool_idle (env_redo env) pool"
    using redo.apply_law [OF env_okD(2) [OF env] s(2) f len, of "page_at env t h r"] env page_at_step [OF env h(1,3)] by auto
  with kv that [of pool kv] False env show ?thesis by (simp add: replay_page_def word_neq_0_conv)
qed


lemma tracks_prune:
  assumes h: "tracks h (Some (es, r))" and new: "r \<le> new" "new = 0 \<or> new \<in> set h" and es': "prunes new es es'"
  shows "tracks h (Some (es', new))"
proof -
  have "unreplayed new es' = unreplayed new es" by (simp add: prunesD(4) [OF es'])
  also have "\<dots> = filter (\<lambda>x. new < x) (unreplayed r es)" using new(1) by (auto simp: filter_map o_def intro!: arg_cong [where f = "map lsn"] filter_cong)
  also have "\<dots> = filter (\<lambda>x. new < x) h" using new(1) tracksD(7) [OF h] by (auto intro!: filter_cong)
  finally have "unreplayed new es' = filter (\<lambda>x. new < x) h" .
  with tracksD(1-5) [OF h] new(2) prunesD(1-3) [OF es'] show ?thesis by (auto simp: tracks_def)
qed

lemma prunes_refl: "es \<noteq> [] \<Longrightarrow> prunes l es es"
  unfolding prunes_def by (intro exI [of _ es] exI [of _ "[]"]) simp

text \<open>Replacing the stored version of a page by a newer one.\<close>

lemma server_ok_replace:
  assumes env: "env_ok env" and s: "server_ok env H s" and v: "versions (pageVersionHashMap s) (tag_key t) = Some (es, r)"
    and new: "r < new" "tracks (H (tag_key t)) (Some (es', new))"
    and m: "hm_free m" "versions m = (versions (pageVersionHashMap s))(tag_key t \<mapsto> (es', new))"
    and pool: "pool_idle (env_redo env) pool"
    and kv: "page_map (env_db env) kv =
      (let pages = (stored_pages env s)((t, new) \<mapsto> page_at env t (H (tag_key t)) new)
       in if r \<noteq> 0 then pages((t, r) := None) else pages)"
  shows "server_ok env H (s\<lparr>pageVersionHashMap := m, kvStore := kv, redoPool := pool\<rparr>)"
proof -
  have nz: "new \<noteq> 0" using new(1) by (metis word_not_simps(1))
  have stored: "page_map (env_db env) kv (t', r') = Some (page_at env t' (H (tag_key t')) r')"
    if "versions m (tag_key t') = Some (es0, r')" "r' \<noteq> 0" for t' es0 r'
    using that server_okD(6) [OF s, of t' es0 r'] m(2) new(1) by (cases "t' = t") (auto simp: kv Let_def)
  have only: "r' \<noteq> 0 \<and> (\<exists>es0. versions m (tag_key t') = Some (es0, r'))" if p: "page_map (env_db env) kv (t', r') \<noteq> None" for t' r'
  proof (cases "t' = t \<and> r' = new")
    case True
    with m(2) nz show ?thesis by simp
  next
    case False
    with p have old: "stored_pages env s (t', r') \<noteq> None" and r: "t' = t \<Longrightarrow> r' \<noteq> r \<or> r = 0"
      by (auto simp: kv Let_def split: if_splits)
    from server_okD(7) [OF s old] v r have "t' \<noteq> t" by auto
    with server_okD(7) [OF s old] m(2) show ?thesis by simp
  qed
  have "full_pages (page_map (env_db env) kv)" using server_okD(2) [OF s] env by (simp add: kv Let_def)
  moreover have "tracks (H k) (versions m k)" for k using server_okD(5) [OF s, of k] m(2) new(2) by simp
  ultimately show ?thesis using stored only m(1) pool server_okD(4) [OF s] server_okD(8) [OF s] by (simp add: server_ok_def)
qed

text \<open>The steps that reading and vacuuming have in common: replay up to \<open>new\<close>, store, delete the old version.\<close>

lemma persist_ok:
  assumes env: "env_ok env" and f: "forkNum t < 256" and len: "length (between r new h) < 2 ^ 26"
    and h: "tracks h (Some (es, r))" and r: "r < new"
    and s: "full_pages (stored_pages env s)" "pool_idle (env_redo env) (redoPool s)"
    and stored: "r \<noteq> 0 \<Longrightarrow> stored_pages env s (t, r) = Some (page_at env t h r)"
  obtains kv pool kv' kv'' where
    "replay_page env t r (between r new h) s = Some (page_at env t h new, s\<lparr>kvStore := kv, redoPool := pool\<rparr>)"
    "PutPage2Rocksdb (env_db env) kv t new (page_at env t h new) = Some kv'"
    "(if r \<noteq> 0 then DeletePageFromRocksdb (env_err env) (env_db env) kv' t r else Some kv') = Some kv''"
    "page_map (env_db env) kv'' =
      (let pages = (stored_pages env s)((t, new) \<mapsto> page_at env t h new) in if r \<noteq> 0 then pages((t, r) := None) else pages)"
    "pool_idle (env_redo env) pool"
proof -
  obtain kv pool where replay: "replay_page env t r (between r new h) s = Some (page_at env t h new, s\<lparr>kvStore := kv, redoPool := pool\<rparr>)"
    "page_map (env_db env) kv = stored_pages env s" "pool_idle (env_redo env) pool"
    using replay_page_ok [OF env f len tracksD(1,2) [OF h] less_imp_le [OF r] s stored] by blast
  obtain kv' where put: "PutPage2Rocksdb (env_db env) kv t new (page_at env t h new) = Some kv'"
    "page_map (env_db env) kv' = (page_map (env_db env) kv)((t, new) \<mapsto> page_at env t h new)"
    using rocks.put_law [of "(None, env_db env)" "page_at env t h new" kv t new] env env_okD(1) [OF env] by auto
  obtain kv'' where del: "(if r \<noteq> 0 then DeletePageFromRocksdb (env_err env) (env_db env) kv' t r else Some kv') = Some kv''"
    "page_map (env_db env) kv'' = (if r \<noteq> 0 then (page_map (env_db env) kv')((t, r) := None) else page_map (env_db env) kv')"
    using rocks.del_law [of "(env_err env, env_db env)" kv' t r] env_okD(1) [OF env] by (cases "r = 0") auto
  have "page_map (env_db env) kv'' =
      (let pages = (stored_pages env s)((t, new) \<mapsto> page_at env t h new) in if r \<noteq> 0 then pages((t, r) := None) else pages)"
    unfolding del(2) put(2) replay(2) by (simp add: Let_def)
  from that [OF replay(1) put(1) del(1) this replay(3)] show thesis .
qed


section \<open>Reading a page\<close>

text \<open>A page can be served at \<open>l\<close> if it has no records, if it is not ahead of \<open>l\<close> and there is a stored
  version or a record to start from, or if it is ahead and all its records are.\<close>

definition readable :: "('d, 'w) server_state \<Rightarrow> BufferTag \<Rightarrow> u64 \<Rightarrow> bool" where
  "readable s t l \<longleftrightarrow>
     (case versions (pageVersionHashMap s) (tag_key t) of
        None \<Rightarrow> True
      | Some (es, r) \<Rightarrow>
          if l < r then \<forall>e \<in> set es. l < lsn e
          else (r \<noteq> 0 \<or> window r l es \<noteq> []) \<and> length (window r l es) < 2 ^ 26)"

lemma WaitParse_same:
  "WaitParse l obs s = Some s' \<Longrightarrow> pageVersionHashMap s' = pageVersionHashMap s \<and> kvStore s' = kvStore s \<and>
     redoPool s' = redoPool s \<and> relSizes s' = relSizes s"
  by (auto simp: WaitParse_def Let_def split: if_splits)

lemma server_ok_wait: "WaitParse l obs s = Some s' \<Longrightarrow> server_ok env H s' = server_ok env H s"
  using WaitParse_same [of l obs s s'] by (simp add: server_ok_def)

text \<open>A page without records up to \<open>l\<close>: it was not written since the start, or all its records are newer.\<close>

lemma no_records:
  assumes "tracks h (v k)" "v_get_replay v k l = None"
  shows "filter (\<lambda>x. x \<le> l) h = []"
proof (cases "v k")
  case None
  with assms(1) show ?thesis by (simp add: tracks_def)
next
  case (Some x)
  obtain es r where x: "x = (es, r)" by (cases x)
  note h = tracksD [OF assms(1) [unfolded Some x]]
  have "upto_lsn l es = []" using assms(2) Some x by (auto simp: v_get_replay_def v_replay_list_def newest_def split: if_splits)
  with h(9) have "l < hd h" unfolding h(4) [symmetric] by (metis filter_empty_conv hd_in_set not_le)
  with h(1,3) show ?thesis by (cases h) (force simp: filter_empty_conv)+
qed

lemma read_unknown:
  assumes env: "env_ok env" and s: "server_ok env H s" and t: "forkNum t < 256" "blockNum t < 2 ^ 31"
    and wait: "WaitParse l obs s = Some s1" and none: "v_get_replay (versions (pageVersionHashMap s)) (tag_key t) l = None"
  shows "\<exists>s'. ReadBufferCommon env obs (reln_of t) (forkNum t) (blockNum t) l s = Some (page_at env t (H (tag_key t)) l, s') \<and> server_ok env H s'"
proof -
  note same = WaitParse_same [OF wait]
  have s1: "server_ok env H s1" using s server_ok_wait [OF wait] by blast
  obtain m where m: "HashMapGetBlockReplayList (pageVersionHashMap s1) (tag_key t) l = Some (m, None)"
    "versions m = versions (pageVersionHashMap s)" "hm_free m"
    using hm.replay_law [OF server_okD(1) [OF s1], of "tag_key t" l] none same by (auto simp: to_replay_def)
  obtain pool where pool: "base_page (env_redo env) (redoPool s1) t = Some (rc_base (env_redo env) t, pool)"
    "pool_idle (env_redo env) pool"
    using redo.base_law [OF env_okD(2) [OF env] server_okD(3) [OF s1] t(1)] by blast
  let ?s = "s1\<lparr>pageVersionHashMap := m, redoPool := pool\<rparr>"
  have len: "length (rc_base (env_redo env) t) = BLCKSZ" by (rule redo.base_size_law [OF env_okD(2) [OF env]])
  then have "ReadBufferCommon env obs (reln_of t) (forkNum t) (blockNum t) l s = Some (rc_base (env_redo env) t, ?s)"
    using wait m pool by (simp add: ReadBufferCommon_def request_key [OF t(2)])
  moreover have "page_at env t (H (tag_key t)) l = rc_base (env_redo env) t"
    using redo.nil_law [OF env_okD(2) [OF env] len] no_records [where v = "versions (pageVersionHashMap s)", OF server_okD(5) [OF s] none]
    by (simp add: page_at_def)
  moreover have "server_ok env H ?s"
    using s1 by (rule server_ok_cong) (use m pool same server_okD(4) [OF s1] in simp_all)
  ultimately show ?thesis by auto
qed

lemma replay_known:
  "versions m k = Some (es, r) \<Longrightarrow> r \<le> l \<Longrightarrow> v_get_replay (versions m) k l = Some (r, window r l es)"
  by (simp add: v_get_replay_def v_replay_list_def leD)

lemma read_stored:
  assumes env: "env_ok env" and s: "server_ok env H s" and t: "forkNum t < 256" "blockNum t < 2 ^ 31"
    and wait: "WaitParse l obs s = Some s1" and v: "versions (pageVersionHashMap s) (tag_key t) = Some (es, r)"
    and r: "r \<le> l" "r \<noteq> 0" "window r l es = []"
  shows "\<exists>s'. ReadBufferCommon env obs (reln_of t) (forkNum t) (blockNum t) l s = Some (page_at env t (H (tag_key t)) l, s') \<and> server_ok env H s'"
proof -
  let ?h = "H (tag_key t)"
  note same = WaitParse_same [OF wait] and h = tracksD [OF server_okD(5) [OF s, of "tag_key t", unfolded v]]
  have s1: "server_ok env H s1" using s server_ok_wait [OF wait] by blast
  obtain m where m: "HashMapGetBlockReplayList (pageVersionHashMap s1) (tag_key t) l = Some (m, Some (r, []))"
    "versions m = versions (pageVersionHashMap s)" "hm_free m"
    using hm.replay_law [OF server_okD(1) [OF s1], of "tag_key t" l] replay_known [OF v r(1)] r(3) same by (auto simp: to_replay_def)
  have st: "stored_pages env s1 (t, r) = Some (page_at env t ?h r)"
    using server_okD(6) [OF s1, of t es r] v same r(2) by simp
  obtain kv where kv: "GetPageFromRocksdb (env_db env) (kvStore s1) t r = Some (Some (page_at env t ?h r), kv)"
    "page_map (env_db env) kv = stored_pages env s1"
    using rocks.get_law [of "(None, env_db env)" "kvStore s1" t r] server_okD(2) [OF s1] env_okD(1) [OF env] st by auto
  let ?s = "s1\<lparr>pageVersionHashMap := m, kvStore := kv\<rparr>"
  have "page_at env t ?h r = page_at env t ?h l" using history_split [OF h(1) r(1)] h(8) [of l] r(3) by (simp add: page_at_def)
  with wait m kv env have "ReadBufferCommon env obs (reln_of t) (forkNum t) (blockNum t) l s = Some (page_at env t ?h l, ?s)"
    by (simp add: ReadBufferCommon_def request_key [OF t(2)])
  moreover have "server_ok env H ?s"
    using s1 by (rule server_ok_cong) (use m kv same server_okD(3,4) [OF s1] in simp_all)
  ultimately show ?thesis by auto
qed


lemma sorted_le_last:
  fixes xs :: "'a :: linorder list"
  assumes "sorted_wrt (<) xs" "x \<in> set xs"
  shows "x \<le> last xs"
proof -
  have "xs = butlast xs @ [last xs]" using assms(2) by (cases xs rule: rev_cases) auto
  with assms have "x \<in> set (butlast xs) \<or> x = last xs" "sorted_wrt (<) (butlast xs @ [last xs])"
    by (metis Un_iff empty_iff empty_set set_ConsD set_append, simp)
  then show ?thesis by (auto simp: sorted_wrt_append less_imp_le)
qed

lemma between_last:
  assumes "sorted_wrt (<) h" "between r l h \<noteq> []"
  shows "between r (last (between r l h)) h = between r l h" and "r < last (between r l h)" and "last (between r l h) \<le> l"
    and "last (between r l h) \<in> set h" and "page_at env t h (last (between r l h)) = page_at env t h l"
proof -
  let ?n = "last (between r l h)"
  have n: "?n \<in> set (between r l h)" using assms(2) by (rule last_in_set)
  then show rn: "r < ?n" "?n \<le> l" "?n \<in> set h" by auto
  have "x \<le> ?n" if "x \<in> set h" "r < x" "x \<le> l" for x
    using that assms(1) by (intro sorted_le_last) (auto simp: sorted_wrt_filter)
  then show eq: "between r ?n h = between r l h" using rn(2) by (intro filter_cong) (auto intro: order_trans)
  have "filter (\<lambda>x. x \<le> l) h = filter (\<lambda>x. x \<le> ?n) h"
    using history_split [OF assms(1), of r l] history_split [OF assms(1), of r ?n] rn(1,2) eq by (simp add: order_trans [OF less_imp_le])
  then show "page_at env t h ?n = page_at env t h l" by (simp add: page_at_def)
qed

lemma read_replay:
  assumes env: "env_ok env" and s: "server_ok env H s" and t: "forkNum t < 256" "blockNum t < 2 ^ 31"
    and wait: "WaitParse l obs s = Some s1" and v: "versions (pageVersionHashMap s) (tag_key t) = Some (es, r)"
    and r: "r \<le> l" "window r l es \<noteq> []" "length (window r l es) < 2 ^ 26"
  shows "\<exists>s'. ReadBufferCommon env obs (reln_of t) (forkNum t) (blockNum t) l s = Some (page_at env t (H (tag_key t)) l, s') \<and> server_ok env H s'"
proof -
  let ?k = "tag_key t" let ?h = "H ?k" let ?w = "between r l ?h" let ?new = "last ?w"
  note same = WaitParse_same [OF wait] and trk = server_okD(5) [OF s, of ?k, unfolded v]
  note h = tracksD [OF trk] note w = h(8) [of l]
  have s1: "server_ok env H s1" using s server_ok_wait [OF wait] by blast
  note last = between_last [OF h(1) r(2) [unfolded w]]
  obtain m where m: "HashMapGetBlockReplayList (pageVersionHashMap s1) ?k l = Some (m, Some (r, ?w))"
    "versions m = versions (pageVersionHashMap s)" "hm_held m ?k"
    using hm.replay_law [OF server_okD(1) [OF s1], of ?k l] replay_known [OF v r(1)] r(2) w same by (auto simp: to_replay_def split: list.splits)
  let ?s1 = "s1\<lparr>pageVersionHashMap := m\<rparr>"
  have stored: "stored_pages env ?s1 (t, r) = Some (page_at env t ?h r)" if "r \<noteq> 0"
    using server_okD(6) [OF s1, of t es r] v same that by simp
  have full: "full_pages (stored_pages env ?s1)" "pool_idle (env_redo env) (redoPool ?s1)" using server_okD(2,3) [OF s1] by simp_all
  have len: "length (between r ?new ?h) < 2 ^ 26" using r(3) unfolding last(1) w .
  obtain kv pool kv' kv'' where io: "replay_page env t r ?w ?s1 = Some (page_at env t ?h l, ?s1\<lparr>kvStore := kv, redoPool := pool\<rparr>)"
    "PutPage2Rocksdb (env_db env) kv t ?new (page_at env t ?h l) = Some kv'"
    "(if r \<noteq> 0 then DeletePageFromRocksdb (env_err env) (env_db env) kv' t r else Some kv') = Some kv''"
    "page_map (env_db env) kv'' =
      (let pages = (stored_pages env ?s1)((t, ?new) \<mapsto> page_at env t ?h l) in if r \<noteq> 0 then pages((t, r) := None) else pages)"
    "pool_idle (env_redo env) pool"
    by (rule persist_ok [OF env t(1) len trk last(2) full stored, unfolded last(1,5)])
  obtain m' b where mark: "HashMapUpdateReplayedLsn m ?k ?new True = Some (m', b)" "hm_free m'"
    "versions m' = (versions (pageVersionHashMap s))(?k \<mapsto> (es, ?new))"
    using hm.mark_law [OF m(3), of ?new] m(2) v last(2) by (auto simp: v_replayed_def max_absorb2 less_imp_le)
  let ?s = "?s1\<lparr>pageVersionHashMap := m', kvStore := kv'', redoPool := pool\<rparr>"
  have "ReadBufferCommon env obs (reln_of t) (forkNum t) (blockNum t) l s = Some (page_at env t ?h l, ?s)"
    using wait m(1) r(2) w io(1-3) mark(1) env by (simp add: ReadBufferCommon_def request_key [OF t(2)] del: map_is_Nil_conv)
  moreover have "tracks ?h (Some (es, ?new))"
    using trk by (rule tracks_prune) (use last(2,4) prunes_refl [OF h(9)] in \<open>auto simp: less_imp_le\<close>)
  then have "server_ok env H (s1\<lparr>pageVersionHashMap := m', kvStore := kv'', redoPool := pool\<rparr>)"
    using server_ok_replace [OF env s1 _ last(2) _ mark(2) _ io(5), of t es es kv''] v mark(3) same io(4) by (simp add: last(5))
  ultimately show ?thesis by auto
qed

lemma ReadBufferCommon_ok:
  assumes env: "env_ok env" and s: "server_ok env H s" and t: "forkNum t < 256" "blockNum t < 2 ^ 31"
    and wait: "WaitParse l obs s = Some s1" and rd: "readable s t l"
  shows "\<exists>s'. ReadBufferCommon env obs (reln_of t) (forkNum t) (blockNum t) l s = Some (page_at env t (H (tag_key t)) l, s') \<and> server_ok env H s'"
proof (cases "v_get_replay (versions (pageVersionHashMap s)) (tag_key t) l")
  case None
  then show ?thesis by (rule read_unknown [OF env s t wait])
next
  case (Some x)
  then obtain es r where v: "versions (pageVersionHashMap s) (tag_key t) = Some (es, r)"
    by (cases "versions (pageVersionHashMap s) (tag_key t)") (auto simp: v_get_replay_def)
  with Some rd have "\<not> l < r"
    by (auto simp: readable_def v_get_replay_def v_replay_list_def newest_def filter_empty_conv dest: leD split: if_splits)
  with rd v have r: "r \<le> l" "r \<noteq> 0 \<or> window r l es \<noteq> []" "length (window r l es) < 2 ^ 26" by (auto simp: readable_def)
  with read_stored [OF env s t wait v r(1)] read_replay [OF env s t wait v r(1)] show ?thesis by blast
qed

text \<open>A version that is not in the store: the null pointer is copied from.\<close>

lemma ReadBufferCommon_missing:
  assumes env: "env_ok env" and s: "server_ok env H s" and t: "blockNum t < 2 ^ 31"
    and v: "v_get_replay (versions (pageVersionHashMap s)) (tag_key t) l = Some (r, [])"
    and none: "stored_pages env s (t, r) = None"
  shows "ReadBufferCommon env obs (reln_of t) (forkNum t) (blockNum t) l s = None"
proof (cases "WaitParse l obs s")
  case None
  then show ?thesis by (simp add: ReadBufferCommon_def)
next
  case (Some s1)
  note same = WaitParse_same [OF Some]
  obtain m where m: "HashMapGetBlockReplayList (pageVersionHashMap s1) (tag_key t) l = Some (m, Some (r, []))"
    using hm.replay_law [OF server_okD(1) [OF s], of "tag_key t" l] v same by auto
  obtain kv where "GetPageFromRocksdb (env_db env) (kvStore s1) t r = Some (None, kv)"
    using rocks.get_law [of "(None, env_db env)" "kvStore s" t r] server_okD(2) [OF s] env_okD(1) [OF env] none same by auto
  with Some m show ?thesis by (simp add: ReadBufferCommon_def request_key [OF t])
qed

text \<open>The only version in the store is the one the page was replayed to.\<close>

lemma ReadBufferCommon_unreadable:
  assumes env: "env_ok env" and s: "server_ok env H s" and t: "blockNum t < 2 ^ 31"
    and v: "versions (pageVersionHashMap s) (tag_key t) = Some (es, r)"
    and bad: "if l < r then \<exists>e \<in> set es. lsn e \<le> l else r = 0 \<and> window r l es = []"
  shows "ReadBufferCommon env obs (reln_of t) (forkNum t) (blockNum t) l s = None"
proof -
  have none: "stored_pages env s (t, x) = None" if "x \<noteq> r \<or> r = 0" for x
    using server_okD(7) [OF s, of t x] v that by (cases "stored_pages env s (t, x)") auto
  show ?thesis
  proof (cases "l < r")
    case True
    with bad have "upto_lsn l es \<noteq> []" by (auto simp: filter_empty_conv)
    then obtain e where e: "newest l es = Some e" "lsn e \<le> l" using last_in_set by (fastforce simp: newest_def)
    with True v have "v_get_replay (versions (pageVersionHashMap s)) (tag_key t) l = Some (lsn e, [])"
      by (simp add: v_get_replay_def v_replay_list_def)
    then show ?thesis by (rule ReadBufferCommon_missing [OF env s t]) (rule none, use True e(2) in auto)
  next
    case False
    with bad have "r = 0" "window 0 l es = []" by auto
    with False v have "v_get_replay (versions (pageVersionHashMap s)) (tag_key t) l = Some (0, [])"
      by (simp add: v_get_replay_def v_replay_list_def)
    then show ?thesis by (rule ReadBufferCommon_missing [OF env s t]) (rule none, use False bad in auto)
  qed
qed


section \<open>Indexing a record\<close>

lemma server_ok_sizes: "server_ok env H s \<Longrightarrow> cache_ok c \<Longrightarrow> server_ok env H (s\<lparr>relSizes := c\<rparr>)"
  by (simp add: server_ok_def)

lemma update_rel_size_ok:
  assumes env: "env_ok env" and s: "server_ok env H s" and f: "forknum (blocks r i) < 256"
  shows "\<exists>c. update_rel_size env r i s = Some (s\<lparr>relSizes := c\<rparr>) \<and> cache_ok c"
proof -
  let ?b = "blocks r i" and ?c = "env_redo env"
  let ?k = "TransRelNode2RelKey (blk_rnode ?b) (forknum ?b)"
  have idle: "pool_ok (redoPool s)" "some_free (redoPool s)" using server_okD(3) [OF s] by (auto simp: pool_idle_def)
  have sched: "schedule_ok (rc_sched ?c 18 4) 18 4" by (rule redo_okD(2) [OF env_okD(2) [OF env]]) simp
  obtain n where n: "sync_rel_size ?c (redoPool s) (blk_rnode ?b) (forknum ?b) (ReadRecPtr r) = Some (n, redoPool s)"
    using SyncGetRelSize_call [OF idle f sched] by blast
  have ok: "cache_ok (relSizes s)" by (rule server_okD(4) [OF s])
  have same: "\<exists>c. s = s\<lparr>relSizes := c\<rparr> \<and> cache_ok c" by (rule exI [of _ "relSizes s"]) (simp add: ok)
  have put: "\<exists>c. s\<lparr>relSizes := InsertRelSizeCache ?k x (relSizes s)\<rparr> = s\<lparr>relSizes := c\<rparr> \<and> cache_ok c" for x
    by (rule exI [of _ "InsertRelSizeCache ?k x (relSizes s)"]) (simp add: sizes.put_law(3) [OF ok])
  show ?thesis
    using n same put [of "blkno ?b + 1"] put [of n]
    by (cases "in_use ?b"; cases "GetRelSizeCache ?k (relSizes s)") (simp_all add: update_rel_size_def Let_def)
qed

lemma update_rel_sizes_ok:
  assumes env: "env_ok env" and "server_ok env H s" and "\<And>i. i \<in> set ids \<Longrightarrow> forknum (blocks r i) < 256"
  shows "\<exists>c. foldm (update_rel_size env r) ids s = Some (s\<lparr>relSizes := c\<rparr>) \<and> cache_ok c"
  using assms(2,3)
proof (induction ids arbitrary: s)
  case Nil
  then show ?case using server_okD(4) [of env H s] by (intro exI [of _ "relSizes s"]) simp
next
  case (Cons i ids)
  obtain c where c: "update_rel_size env r i s = Some (s\<lparr>relSizes := c\<rparr>)" "cache_ok c"
    using update_rel_size_ok [OF env Cons.prems(1), of r i] Cons.prems(2) by auto
  have "server_ok env H (s\<lparr>relSizes := c\<rparr>)" using Cons.prems(1) c(2) by (rule server_ok_sizes)
  from Cons.IH [OF this] Cons.prems(2) c(1) show ?case by auto
qed

lemma decode_keeps:
  assumes "polar_xlog_decode_data_vm r = Some r'"
  shows "ReadRecPtr r' = ReadRecPtr r"
  using assms by (auto simp: polar_xlog_decode_data_vm_def polar_xlog_queue_decode_heap_def polar_xlog_queue_decode_heap2_def
      polar_heap_update_save_vm_logindex_def polar_heap_save_vm_block_def Let_def split: if_splits)

lemma entries_Some: "versions m k = Some x \<Longrightarrow> entries m k = x"
  by (simp add: entries_def)

lemma versions_entries: "hm_free m \<Longrightarrow> versions m k = (if fst (entries m k) = [] then None else Some (entries m k))"
  using hm.chain_law [of m k] by (cases "versions m k") (auto simp: entries_def)

text \<open>A chain that tracks a history goes on tracking it when a record is entered at the end of both.\<close>

lemma tracks_add:
  assumes m: "hm_free m" and m': "hm_free m'" "entries m' k = add_entry l (entries m k)"
    and h: "tracks h (versions m k)" and l: "l \<noteq> 0" "\<forall>x \<in> set h. x < l"
  shows "tracks (h @ [l]) (versions m' k)"
proof (cases "versions m k")
  case None
  then have "entries m k = ([], 0)" "h = []" using h by (simp_all add: entries_def tracks_def)
  then have "versions m' k = Some ([\<lparr>lsn = l, pageNum = 0\<rparr>], 0)" using versions_entries [OF m'(1), of k] m'(2) by (simp add: add_entry_def)
  with \<open>h = []\<close> l show ?thesis by (simp add: tracks_def word_neq_0_conv)
next
  case (Some x)
  obtain es r where x: "x = (es, r)" by (cases x)
  note t = tracksD [OF h [unfolded Some x]]
  have "versions m' k = Some (es @ [\<lparr>lsn = l, pageNum = 0\<rparr>], r)"
    using versions_entries [OF m'(1), of k] m'(2) Some x by (simp add: entries_Some add_entry_def)
  moreover have "r < l" using t(6) l by (auto simp: word_neq_0_conv)
  ultimately show ?thesis using t l by (auto simp: tracks_def sorted_wrt_append)
qed

lemma server_ok_index:
  assumes s: "server_ok env H s" and m: "hm_free m"
    "\<And>k. entries m k = (if k \<in> K then add_entry l (entries (pageVersionHashMap s) k) else entries (pageVersionHashMap s) k)"
    and l: "l \<noteq> 0" "\<And>k x. x \<in> set (H k) \<Longrightarrow> x < l" and K: "\<And>k. k \<in> K \<Longrightarrow> \<exists>t. k = tag_key t \<and> forkNum t < 256"
  shows "server_ok env (\<lambda>k. if k \<in> K then H k @ [l] else H k) (s\<lparr>pageVersionHashMap := m, XLogParseUpto := u\<rparr>)"
proof -
  let ?H = "\<lambda>k. if k \<in> K then H k @ [l] else H k"
  note old = server_okD [OF s]
  have same: "versions m k = versions (pageVersionHashMap s) k" if "k \<notin> K" for k
    using that m(2) [of k] versions_entries [OF m(1), of k] versions_entries [OF old(1), of k] by simp
  have trk: "tracks (?H k) (versions m k)" for k
  proof (cases "k \<in> K")
    case True
    then have "tracks (H k @ [l]) (versions m k)" by (intro tracks_add [OF old(1) m(1) _ old(5) l(1)]) (auto simp: m(2) l(2))
    with True show ?thesis by simp
  qed (simp add: same old(5))
  have below: "\<exists>es0. versions (pageVersionHashMap s) k = Some (es0, r) \<and> r < l" if "versions m k = Some (es, r)" "r \<noteq> 0" for k es r
  proof -
    have e: "snd (entries (pageVersionHashMap s) k) = r"
      using entries_Some [OF that(1)] m(2) [of k] by (cases "k \<in> K") (auto simp: add_entry_def)
    with that(2) obtain es0 where v: "versions (pageVersionHashMap s) k = Some (es0, r)" by (auto simp: entries_def split: option.splits)
    from tracksD(6) [OF old(5) [of k, unfolded v]] that(2) l(2) v show ?thesis by blast
  qed
  have st: "stored_pages env s (t, r) = Some (page_at env t (?H (tag_key t)) r)" if v: "versions m (tag_key t) = Some (es, r)" "r \<noteq> 0" for t es r
  proof -
    from below [OF v] obtain es0 where "versions (pageVersionHashMap s) (tag_key t) = Some (es0, r)" "r < l" by blast
    moreover from this have "\<not> l \<le> r" by (simp add: not_le)
    ultimately show ?thesis using old(6) [of t es0 r] v(2) by (simp add: page_at_def)
  qed
  have only: "r \<noteq> 0 \<and> (\<exists>es. versions m (tag_key t) = Some (es, r))" if "stored_pages env s (t, r) \<noteq> None" for t r
  proof -
    from old(7) [OF that] obtain es where es: "r \<noteq> 0" "versions (pageVersionHashMap s) (tag_key t) = Some (es, r)" by blast
    show ?thesis
    proof (cases "tag_key t \<in> K")
      case True
      then have "entries m (tag_key t) = (es @ [\<lparr>lsn = l, pageNum = 0\<rparr>], r)"
        unfolding m(2) entries_Some [OF es(2)] by (simp add: add_entry_def)
      with es(1) versions_entries [OF m(1), of "tag_key t"] show ?thesis by simp
    qed (use es same [of "tag_key t"] in simp)
  qed
  have "\<exists>t. k = tag_key t \<and> forkNum t < 256" if "?H k \<noteq> []" for k using that K [of k] old(8) [of k] by (cases "k \<in> K") auto
  then show ?thesis
    unfolding server_ok_def using old(2-4) m(1) trk st only by (intro conjI allI impI) (simp_all del: not_None_eq)
qed


lemma record_keys_pages:
  assumes "\<And>i. forknum (blocks r i) < 256" "k \<in> record_keys r"
  shows "\<exists>t. k = tag_key t \<and> forkNum t < 256"
proof -
  from assms(2) obtain i where "k = block_key (blocks r i)" by (auto simp: record_keys_def keys_of_def split: option.splits)
  with assms(1) [of i] show ?thesis by (intro exI [of _ "block_tag (blocks r i)"]) (simp add: block_key_tag block_tag_def)
qed

text \<open>The histories after a record.\<close>

definition extend :: "XLogReaderState \<Rightarrow> (KeyType \<Rightarrow> u64 list) \<Rightarrow> KeyType \<Rightarrow> u64 list" where
  "extend r H k = (if k \<in> record_keys r then H k @ [ReadRecPtr r] else H k)"

lemma StartupXLOG_record_ok:
  assumes env: "env_ok env" and s: "server_ok env H s" and r': "polar_xlog_decode_data_vm r = Some r'"
    and f: "\<And>i. forknum (blocks r' i) < 256" and l: "ReadRecPtr r \<noteq> 0" "\<And>k x. x \<in> set (H k) \<Longrightarrow> x < ReadRecPtr r"
    and b: "record_blocks r' = Some (p, ids)"
  shows "\<exists>s'. StartupXLOG_record env r e s = Some s' \<and> server_ok env (extend r' H) s' \<and> kvStore s' = kvStore s \<and>
    map_option snd (ParseLogIndexXlog (env_alloc env) r' (pageVersionHashMap s)) = Some (pageVersionHashMap s')"
proof -
  let ?sized = "if rmid r' \<in> set sized_rmids \<and> 0 \<le> max_block_id r'
    then foldm (update_rel_size env r') [0..<nat (max_block_id r' + 1)] s else Some s"
  obtain c where c: "?sized = Some (s\<lparr>relSizes := c\<rparr>)" "cache_ok c"
  proof (cases "rmid r' \<in> set sized_rmids \<and> 0 \<le> max_block_id r'")
    case True
    with update_rel_sizes_ok [OF env s, of "[0..<nat (max_block_id r' + 1)]" r'] f that show ?thesis by auto
  next
    case False
    with that [of "relSizes s"] server_okD(4) [OF s] show ?thesis by auto
  qed
  have ptr: "ReadRecPtr r' = ReadRecPtr r" by (rule decode_keeps [OF r'])
  have "lsn x \<in> set (H k)" if "x \<in> set (fst (entries (pageVersionHashMap s) k))" for k x
    using that server_okD(5) [OF s, of k] unfolding entries_def tracks_def by (auto split: option.splits)
  then have old: "older (pageVersionHashMap s) (ReadRecPtr r')" unfolding older_def ptr using l(2) by blast
  have nz: "ReadRecPtr r' \<noteq> 0" using l(1) ptr by simp
  obtain m where m: "ParseLogIndexXlog (env_alloc env) r' (pageVersionHashMap s) = Some (p, m)" "hm_free m"
    "\<And>k. entries m k = (if k \<in> record_keys r' then add_entry (ReadRecPtr r') (entries (pageVersionHashMap s) k)
      else entries (pageVersionHashMap s) k)"
    using ParseLogIndexXlog_ok [OF server_okD(1) [OF s] env_okD(3) [OF env] nz old b] by blast
  have s1: "server_ok env H (s\<lparr>relSizes := c\<rparr>)" using s c(2) by (rule server_ok_sizes)
  let ?s = "\<lambda>u. s\<lparr>relSizes := c, pageVersionHashMap := m, XLogParseUpto := u\<rparr>"
  have m3: "entries m k = (if k \<in> record_keys r' then add_entry (ReadRecPtr r') (entries (pageVersionHashMap (s\<lparr>relSizes := c\<rparr>)) k)
      else entries (pageVersionHashMap (s\<lparr>relSizes := c\<rparr>)) k)" for k using m(3) [of k] by simp
  have "server_ok env (extend r' H) (?s u) \<and> kvStore (?s u) = kvStore s \<and>
      map_option snd (ParseLogIndexXlog (env_alloc env) r' (pageVersionHashMap s)) = Some (pageVersionHashMap (?s u))" for u
    unfolding extend_def [abs_def] using server_ok_index [OF s1 m(2) m3 nz l(2) [folded ptr] record_keys_pages [OF f]] m(1) by simp
  moreover have "StartupXLOG_record env r e s =
      Some (?s (let u = if XLogParseUpto s < e then e else XLogParseUpto s in if u < ReadRecPtr r' then ReadRecPtr r' else u))"
    using r' c(1) m(1) by (simp add: StartupXLOG_record_def Let_def)
  ultimately show ?thesis by blast
qed

end
