(* ===== verification/VacuumLaws.thy ===== *)
theory VacuumLaws
  imports ServerLaws
begin

text \<open>
  The vacuumer as a part of the storage node: it keeps the invariant of the server, and what a round over
  a bucket does to the pages of that bucket.
\<close>

section \<open>One page\<close>

lemma key_tag_key [simp]: "key_tag (tag_key t) = t"
  by (simp add: key_tag_def tag_key_def ucast_down_up)

text \<open>A batch is the part of the history up to its last record.\<close>

lemma take_between:
  assumes h: "sorted_wrt (<) h" and b: "b = take n (filter (\<lambda>x. r < x) h)" "b \<noteq> []"
  shows "b = between r (last b) h" and "r < last b" and "last b \<in> set h"
proof -
  let ?u = "filter (\<lambda>x. r < x) h"
  have u: "?u = b @ drop n ?u" by (simp add: b(1))
  have sorted: "sorted_wrt (<) (b @ drop n ?u)" unfolding u [symmetric] using h by (simp add: sorted_wrt_filter)
  have le: "x \<le> last b" if "x \<in> set b" for x using sorted that by (intro sorted_le_last) (simp_all add: sorted_wrt_append)
  have gt: "\<not> x \<le> last b" if "x \<in> set (drop n ?u)" for x
    using sorted that last_in_set [OF b(2)] by (auto simp: sorted_wrt_append not_le)
  have "between r (last b) h = filter (\<lambda>x. x \<le> last b) ?u" by (simp add: conj_commute)
  also have "\<dots> = filter (\<lambda>x. x \<le> last b) b @ filter (\<lambda>x. x \<le> last b) (drop n ?u)" by (metis u filter_append)
  also have "\<dots> = b" using le gt by (simp add: filter_empty_conv)
  finally show "b = between r (last b) h" by simp
  from last_in_set [OF b(2)] show "r < last b" "last b \<in> set h" unfolding b(1) by (auto dest: in_set_takeD)
qed

text \<open>Moving the replay position of a head.\<close>

lemma set_replayed_ok:
  assumes ok: "hm_ok m" and h: "heads m a = Some h" and v: "head_version m h = (es, r)"
  shows "hm_ok (m\<lparr>heads := (heads m)(a \<mapsto> h\<lparr>replayedLsn := l\<rparr>)\<rparr>)"
    and "versions (m\<lparr>heads := (heads m)(a \<mapsto> h\<lparr>replayedLsn := l\<rparr>)\<rparr>) = (versions m)(key h \<mapsto> (es, l))"
proof -
  let ?h = "h\<lparr>replayedLsn := l\<rparr>"
  have idx: "head_index ?h = head_index h" by (simp add: head_index_def)
  have new: "head_ok (eles m) ?h (ele_list m h)" using hm_okD(4) [OF ok h] by (simp add: head_ok_def chain_def head_entries_def)
  have chain: "chain (eles m) ?h (ele_list m h) = es" using v by (simp add: head_version_def chain_def head_entries_def)
  show "hm_ok (m\<lparr>heads := (heads m)(a \<mapsto> ?h)\<rparr>)" "versions (m\<lparr>heads := (heads m)(a \<mapsto> ?h)\<rparr>) = (versions m)(key h \<mapsto> (es, l))"
    using chain_update [OF ok h idx new] chain by simp_all
qed


text \<open>How vacuuming changes a chain: the replay position moves over at most 20 records, replayed ones may go.\<close>

definition advances :: "LsnEntry list \<times> u64 \<Rightarrow> LsnEntry list \<times> u64 \<Rightarrow> bool" where
  "advances v v' \<longleftrightarrow> snd v' = last (snd v # take 20 (unreplayed (snd v) (fst v))) \<and> prunes (snd v') (fst v) (fst v')"

text \<open>The state of the server with another version map; that map may be locked.\<close>

definition server_with :: "('d, 'w, 'r) server_env \<Rightarrow> (KeyType \<Rightarrow> u64 list) \<Rightarrow> HashMap \<Rightarrow> ('d, 'w) server_state \<Rightarrow> bool" where
  "server_with env H m s \<longleftrightarrow> hm_ok m \<and> (\<forall>m'. hm_free m' \<longrightarrow> versions m' = versions m \<longrightarrow> server_ok env H (s\<lparr>pageVersionHashMap := m'\<rparr>))"

lemma server_withI:
  assumes "server_ok env H s" "hm_ok m" "versions m = versions (pageVersionHashMap s)"
  shows "server_with env H m s"
  unfolding server_with_def
  using assms(2,3) server_okD(3,4) [OF assms(1)] by (auto intro: server_ok_cong [OF assms(1)])

lemma server_ok_prune:
  assumes s: "server_ok env H s" and v: "versions (pageVersionHashMap s) k = Some (es, r)" "prunes r es es'"
    and m: "hm_free m" "versions m = (versions (pageVersionHashMap s))(k \<mapsto> (es', r))"
  shows "server_ok env H (s\<lparr>pageVersionHashMap := m\<rparr>)"
proof -
  note old = server_okD [OF s]
  have new: "tracks (H k) (Some (es', r))"
    by (rule tracks_prune [OF old(5) [of k, unfolded v(1)]]) (use v(2) tracksD(6) [OF old(5) [of k, unfolded v(1)]] in auto)
  have pos: "map_option snd (versions m k') = map_option snd (versions (pageVersionHashMap s) k')" for k' using m(2) v(1) by simp
  have "stored_pages env s (t, r') = Some (page_at env t (H (tag_key t)) r')" if "versions m (tag_key t) = Some (es0, r')" "r' \<noteq> 0" for t es0 r'
    using old(6) [OF _ that(2)] pos [of "tag_key t"] that(1) by (cases "versions (pageVersionHashMap s) (tag_key t)") auto
  moreover have "r' \<noteq> 0 \<and> (\<exists>es0. versions m (tag_key t) = Some (es0, r'))" if "stored_pages env s (t, r') \<noteq> None" for t r'
    using old(7) [OF that] pos [of "tag_key t"] by (cases "versions m (tag_key t)") auto
  moreover have "tracks (H k') (versions m k')" for k' using old(5) [of k'] new m(2) by simp
  ultimately show ?thesis
    unfolding server_ok_def using m(1) old(2-4,8) by (intro conjI allI impI) (simp_all del: not_None_eq)
qed

lemma state_order:
  "s\<lparr>kvStore := k, pageVersionHashMap := m\<rparr> = s\<lparr>pageVersionHashMap := m, kvStore := k\<rparr>"
  "s\<lparr>redoPool := p, pageVersionHashMap := m\<rparr> = s\<lparr>pageVersionHashMap := m, redoPool := p\<rparr>"
  "s\<lparr>redoPool := p, kvStore := k\<rparr> = s\<lparr>kvStore := k, redoPool := p\<rparr>"
  by (cases s, simp)+

lemma replay_batch_ok:
  assumes env: "env_ok env" and s: "server_ok env H s" and v: "versions (pageVersionHashMap s) (tag_key t) = Some (es, r)"
    and t: "forkNum t < 256" and b: "b = take 20 (unreplayed r es)" "b \<noteq> []"
    and m1: "hm_ok m1" "heads m1 a = Some h1" "key h1 = tag_key t" "versions m1 = (versions (pageVersionHashMap s))(tag_key t \<mapsto> (es', r))"
    and es': "prunes (last b) es es'" and m2: "m2 = m1\<lparr>heads := (heads m1)(a \<mapsto> h1\<lparr>replayedLsn := last b\<rparr>)\<rparr>"
  obtains p kv pool kv' kv'' where
    "replay_page env t r b (s\<lparr>pageVersionHashMap := m1\<rparr>) = Some (p, s\<lparr>pageVersionHashMap := m1, kvStore := kv, redoPool := pool\<rparr>)"
    "PutPage2Rocksdb (env_db env) kv t (last b) p = Some kv'"
    "(if r \<noteq> 0 then DeletePageFromRocksdb (env_err env) (env_db env) kv' t r else Some kv') = Some kv''"
    "versions m2 = (versions (pageVersionHashMap s))(tag_key t \<mapsto> (es', last b))"
    "server_with env H m2 (s\<lparr>kvStore := kv'', redoPool := pool\<rparr>)"
proof -
  let ?h = "H (tag_key t)" and ?l = "last b" and ?s1 = "s\<lparr>pageVersionHashMap := m1\<rparr>"
  note trk = server_okD(5) [OF s, of "tag_key t", unfolded v] note h = tracksD [OF trk]
  note last = take_between [OF h(1) b [unfolded h(7)]]
  have len: "length (between r ?l ?h) < 2 ^ 26" unfolding last(1) [symmetric] by (simp add: b(1))
  have full: "full_pages (stored_pages env ?s1)" "pool_idle (env_redo env) (redoPool ?s1)" using server_okD(2,3) [OF s] by simp_all
  have stored: "stored_pages env ?s1 (t, r) = Some (page_at env t ?h r)" if "r \<noteq> 0"
    using server_okD(6) [OF s v that] by simp
  obtain kv pool kv' kv'' where io: "replay_page env t r b ?s1 = Some (page_at env t ?h ?l, ?s1\<lparr>kvStore := kv, redoPool := pool\<rparr>)"
    "PutPage2Rocksdb (env_db env) kv t ?l (page_at env t ?h ?l) = Some kv'"
    "(if r \<noteq> 0 then DeletePageFromRocksdb (env_err env) (env_db env) kv' t r else Some kv') = Some kv''"
    "page_map (env_db env) kv'' =
      (let pages = (stored_pages env ?s1)((t, ?l) \<mapsto> page_at env t ?h ?l) in if r \<noteq> 0 then pages((t, r) := None) else pages)"
    "pool_idle (env_redo env) pool"
    by (rule persist_ok [OF env t len trk last(2) full stored, folded last(1)])
  have "head_version m1 h1 = (es', r)"
    using versions_iff [OF m1(1), of "tag_key t" "(es', r)"] m1(2-4) head_unique [OF m1(1) _ m1(2)] by fastforce
  note set = set_replayed_ok [OF m1(1,2) this, of ?l, folded m2]
  have vers: "versions m2 = (versions (pageVersionHashMap s))(tag_key t \<mapsto> (es', ?l))" using set(2) m1(3,4) by simp
  have new: "tracks ?h (Some (es', ?l))" by (rule tracks_prune [OF trk _ _ es']) (use last(2,3) in \<open>auto simp: less_imp_le\<close>)
  have "server_ok env H (s\<lparr>pageVersionHashMap := m', kvStore := kv'', redoPool := pool\<rparr>)" if "hm_free m'" "versions m' = versions m2" for m'
    using io(4) vers that by (intro server_ok_replace [OF env s v last(2) new _ _ io(5)]) simp_all
  then have with': "server_with env H m2 (s\<lparr>kvStore := kv'', redoPool := pool\<rparr>)" using set(1) by (simp add: server_with_def state_order)
  show thesis by (rule that [OF _ io(2,3) vers with']) (use io(1) in simp)
qed

lemma BackgroundReplayHeadNode_ok:
  assumes env: "env_ok env" and s: "server_ok env H s" and m: "hm_ok m" "versions m = versions (pageVersionHashMap s)"
    and h: "heads m a = Some h"
  obtains m' h' v' kv pool where
    "BackgroundReplayHeadNode env a (s\<lparr>pageVersionHashMap := m\<rparr>) = Some (s\<lparr>pageVersionHashMap := m', kvStore := kv, redoPool := pool\<rparr>)"
    "server_with env H m' (s\<lparr>kvStore := kv, redoPool := pool\<rparr>)"
    "versions m' = (versions m)(key h \<mapsto> v')" "advances (head_version m h) v'"
    "bucketList m' = bucketList m" "heads m' = (heads m)(a \<mapsto> h')" "head_index h' = head_index h" "headLock h' = headLock h"
proof -
  obtain es r where v: "head_version m h = (es, r)" by (cases "head_version m h")
  have vk: "versions (pageVersionHashMap s) (key h) = Some (es, r)" using versions_iff [OF m(1)] h v m(2) by metis
  note hist = tracksD [OF server_okD(5) [OF s, of "key h", unfolded vk]]
  obtain t where t: "key h = tag_key t" "forkNum t < 256" using server_okD(8) [OF s hist(3)] by blast
  define b where "b = take 20 (unreplayed r es)"
  obtain m1 es' h1 where c: "collect_versions a m = Some (m1, b)" "hm_ok m1" "versions m1 = (versions m)(key h \<mapsto> (es', r))"
    "prunes (last (r # b)) es es'" "bucketList m1 = bucketList m" "heads m1 = (heads m)(a \<mapsto> h1)" "head_index h1 = head_index h"
    "headLock h1 = headLock h" "replayedLsn h1 = r"
    by (rule collect_versions_ok [OF m(1) h v b_def])
  have r: "replayedLsn h = r" using v by (simp add: head_version_def)
  have h1: "heads m1 a = Some h1" "key h1 = key h" using c(6,7) by (simp_all add: head_index_def)
  show thesis
  proof (cases "b = []")
    case True
    have run: "BackgroundReplayHeadNode env a (s\<lparr>pageVersionHashMap := m\<rparr>) = Some (s\<lparr>pageVersionHashMap := m1, kvStore := kvStore s, redoPool := redoPool s\<rparr>)"
      using h c(1) True by (simp add: BackgroundReplayHeadNode_def Let_def)
    have "server_with env H m1 s"
      unfolding server_with_def using c(2,3,4) vk m(2) True by (auto intro: server_ok_prune [OF s])
    with that [OF run, of "(es', r)" h1] c(3-8) v True show thesis by (simp add: advances_def b_def)
  next
    case False
    let ?h2 = "h1\<lparr>replayedLsn := last b\<rparr>" let ?m2 = "m1\<lparr>heads := (heads m1)(a \<mapsto> ?h2)\<rparr>"
    obtain p kv pool kv' kv'' where io: "replay_page env t r b (s\<lparr>pageVersionHashMap := m1\<rparr>) = Some (p, s\<lparr>pageVersionHashMap := m1, kvStore := kv, redoPool := pool\<rparr>)"
      "PutPage2Rocksdb (env_db env) kv t (last b) p = Some kv'"
      "(if r \<noteq> 0 then DeletePageFromRocksdb (env_err env) (env_db env) kv' t r else Some kv') = Some kv''"
      "versions ?m2 = (versions (pageVersionHashMap s))(tag_key t \<mapsto> (es', last b))"
      "server_with env H ?m2 (s\<lparr>kvStore := kv'', redoPool := pool\<rparr>)"
      by (rule replay_batch_ok [OF env s vk [unfolded t(1)] t(2) b_def False c(2) h1(1) h1(2) [unfolded t(1)] c(3) [unfolded t(1) m(2)] _ refl])
        (use c(4) False in simp)
    have run: "BackgroundReplayHeadNode env a (s\<lparr>pageVersionHashMap := m\<rparr>) = Some (s\<lparr>pageVersionHashMap := ?m2, kvStore := kv'', redoPool := pool\<rparr>)"
      using h c(1) False t(1) r io(1-3) h1(1) by (cases "r = 0") (simp_all add: BackgroundReplayHeadNode_def Let_def upd_head_def word_neq_0_conv state_order)
    show thesis
      by (rule that [OF run io(5), of "(es', last b)" ?h2])
        (use io(4) t(1) m(2) c(4-8) v False in \<open>simp_all add: advances_def b_def head_index_def\<close>)
  qed
qed

text \<open>Fields that are neither links nor content, such as the time of the last visit, may change.\<close>

lemma touch_head_ok:
  assumes ok: "hm_ok m" and h: "heads m a = Some h" "head_content h' = head_content h" "head_index h' = head_index h"
  shows "hm_ok (m\<lparr>heads := (heads m)(a \<mapsto> h')\<rparr>)" "versions (m\<lparr>heads := (heads m)(a \<mapsto> h')\<rparr>) = versions m"
proof -
  let ?m = "m\<lparr>heads := (heads m)(a \<mapsto> h')\<rparr>"
  have same: "same_content m ?m" using h by (simp add: same_content_def)
  have "bucket_ok ?m i (head_list m i)" if "i < length (bucketList m)" for i
    using hm_okD(3) [OF ok that] h by (subst bucket_ok_cong [of _ m]) auto
  then have "\<exists>as. bucket_ok ?m i as \<and> set as = set (head_list m i)" if "i < length (bucketList m)" for i using that by blast
  then show "hm_ok ?m" "versions ?m = versions m" using same_content_hm_ok [OF ok same] by blast+
qed

text \<open>
  What visiting a set of heads does to the map: the heads of the set whose last visit is long ago advance, the others
  keep their versions. No list of heads changes.
\<close>

definition due :: "(addr \<Rightarrow> timeval) \<Rightarrow> addr \<Rightarrow> HashNodeHead \<Rightarrow> bool" where
  "due clock a h \<longleftrightarrow> ITER_HEAD_INTERVAL \<le> tv_sec (clock a) - tv_sec (finishVacuumTime h)"

definition visited :: "(addr \<Rightarrow> timeval) \<Rightarrow> addr set \<Rightarrow> HashMap \<Rightarrow> HashMap \<Rightarrow> bool" where
  "visited clock A m m' \<longleftrightarrow>
     bucketList m' = bucketList m \<and> (\<forall>a. map_option head_index (heads m' a) = map_option head_index (heads m a)) \<and>
     (\<forall>a. a \<notin> A \<longrightarrow> heads m' a = heads m a) \<and>
     (\<forall>a h. heads m a = Some h \<longrightarrow> (if a \<in> A \<and> due clock a h
        then \<exists>v'. versions m' (key h) = Some v' \<and> advances (head_version m h) v'
        else versions m' (key h) = versions m (key h)))"

lemma visited_refl: "visited clock {} m m"
  by (simp add: visited_def)

lemma visitedD:
  assumes "visited clock A m m'"
  shows "bucketList m' = bucketList m" "map_option head_index (heads m' a) = map_option head_index (heads m a)"
    "a \<notin> A \<Longrightarrow> heads m' a = heads m a"
    "heads m a = Some h \<Longrightarrow> a \<in> A \<Longrightarrow> due clock a h \<Longrightarrow> \<exists>v'. versions m' (key h) = Some v' \<and> advances (head_version m h) v'"
    "heads m a = Some h \<Longrightarrow> \<not> (a \<in> A \<and> due clock a h) \<Longrightarrow> versions m' (key h) = versions m (key h)"
  using assms unfolding visited_def by (blast, blast, blast, metis, metis)

lemma visited_head:
  assumes "visited clock A m m'" "heads m a = Some h"
  obtains h' where "heads m' a = Some h'" "head_index h' = head_index h" "key h' = key h"
  using visitedD(2) [OF assms(1), of a] assms(2) that by (auto simp: head_index_def)

lemma visited_dom: "visited clock A m m' \<Longrightarrow> dom (heads m') = dom (heads m)"
  by (auto simp: dom_def dest: visited_head) (metis visitedD(2) option.map_disc_iff option.discI not_None_eq)

lemma visited_links: "visited clock A m m' \<Longrightarrow> lseg nextHead (heads m') p as q = lseg nextHead (heads m) p as q"
  using visitedD(2) [of clock A m m']
  by (intro lseg_proj) (metis (no_types, lifting) option.map_comp head_index_def comp_def fst_conv option.map_cong0)

lemma visited_trans:
  assumes ok: "hm_ok m" "hm_ok m'" and v: "visited clock A m m'" "visited clock B m' m''" and disj: "A \<inter> B = {}"
  shows "visited clock (A \<union> B) m m''"
proof -
  have turn: "(if a \<in> A \<union> B \<and> due clock a h then \<exists>v'. versions m'' (key h) = Some v' \<and> advances (head_version m h) v'
      else versions m'' (key h) = versions m (key h))" if h: "heads m a = Some h" for a h
  proof (cases "a \<in> A")
    case True
    obtain h' where h': "heads m' a = Some h'" "key h' = key h" by (rule visited_head [OF v(1) h])
    have "versions m'' (key h) = versions m' (key h)" using visitedD(5) [OF v(2) h'(1)] h'(2) True disj by auto
    then show ?thesis using visitedD(4,5) [OF v(1) h] True by auto
  next
    case False
    have h': "heads m' a = Some h" using visitedD(3) [OF v(1) False] h by simp
    have same: "versions m' (key h) = versions m (key h)" using visitedD(5) [OF v(1) h] False by simp
    then have "head_version m' h = head_version m h"
      using versions_locate [OF ok(1) h] versions_locate [OF ok(2) h'] by (simp add: head_version_def)
    then show ?thesis using visitedD(4,5) [OF v(2) h'] False same by auto
  qed
  show ?thesis unfolding visited_def
    by (intro conjI allI impI turn) (simp_all add: visitedD(1,2) [OF v(1)] visitedD(1,2) [OF v(2)] visitedD(3) [OF v(1)] visitedD(3) [OF v(2)])
qed

lemma visited_one:
  assumes ok: "hm_ok m" and h: "heads m a = Some h" and m': "bucketList m' = bucketList m" "heads m' = (heads m)(a \<mapsto> h')" "head_index h' = head_index h"
    and v: "if due clock a h then advances (head_version m h) v' else v' = head_version m h" "versions m' = (versions m)(key h \<mapsto> v')"
  shows "visited clock {a} m m'"
proof -
  have other: "versions m' (key g) = versions m (key g)" if "heads m b = Some g" "b \<noteq> a" for b g
    using head_unique [OF ok that(1) h] that(2) v(2) by auto
  have own: "versions m (key h) = Some (head_version m h)" using versions_locate [OF ok h] by (simp add: head_version_def)
  have turn: "(if b \<in> {a} \<and> due clock b g then \<exists>v'. versions m' (key g) = Some v' \<and> advances (head_version m g) v'
      else versions m' (key g) = versions m (key g))" if "heads m b = Some g" for b g
  proof (cases "b = a")
    case True
    then show ?thesis using that h v own by (cases v') auto
  qed (use other [OF that] in simp)
  have "map_option head_index (heads m' b) = map_option head_index (heads m b)" for b using h m'(2,3) by simp
  then show ?thesis unfolding visited_def by (intro conjI allI impI turn) (use m'(1,2) in simp_all)
qed

lemma locks_free_put:
  assumes "locks_free m" "bucketList m' = bucketList m" "heads m' = (heads m)(a \<mapsto> h)" "headLock h = Unlocked"
  shows "locks_free m'"
proof -
  have "head_locks m' = (head_locks m)(a \<mapsto> Unlocked)" using assms(3,4) by (auto simp: head_locks_def)
  then show ?thesis using assms(1,2) by (auto simp: locks_free_def bucket_locks_def ran_def split: if_splits)
qed

lemma vacuum_head_ok:
  assumes env: "env_ok env" and s: "server_ok env H s" and h: "heads (pageVersionHashMap s) a = Some h"
  obtains s' where "vacuum_head env clock a s = Some s'" "server_ok env H s'"
    "visited clock {a} (pageVersionHashMap s) (pageVersionHashMap s')"
proof -
  let ?m = "pageVersionHashMap s" and ?h1 = "h\<lparr>headLock := WrLocked\<rparr>" let ?m1 = "?m\<lparr>heads := (heads ?m)(a \<mapsto> ?h1)\<rparr>"
  have ok: "hm_ok ?m" "locks_free ?m" using server_okD(1) [OF s] by (simp_all add: hm_free_def)
  have lk: "headLock h = Unlocked" using locks_free_head [OF ok(2) h] h by (simp add: head_locks_def)
  then have lock: "lock_head wrlock a ?m = Some ?m1" using h by (simp add: lock_head_def upd_head_def)
  show thesis
  proof (cases "due clock a h")
    case True
    have m1: "hm_ok ?m1" "versions ?m1 = versions ?m"
      using touch_head_ok [OF ok(1) h, of ?h1] by (simp_all add: head_content_def head_index_def)
    obtain m2 h2 v' kv pool where
      run: "BackgroundReplayHeadNode env a (s\<lparr>pageVersionHashMap := ?m1\<rparr>) = Some (s\<lparr>pageVersionHashMap := m2, kvStore := kv, redoPool := pool\<rparr>)"
      and m2: "server_with env H m2 (s\<lparr>kvStore := kv, redoPool := pool\<rparr>)" "versions m2 = (versions ?m1)(key ?h1 \<mapsto> v')"
        "advances (head_version ?m1 ?h1) v'" "bucketList m2 = bucketList ?m1" "heads m2 = (heads ?m1)(a \<mapsto> h2)"
        "head_index h2 = head_index ?h1" "headLock h2 = headLock ?h1"
      by (rule BackgroundReplayHeadNode_ok [OF env s m1, of a ?h1]) simp_all
    let ?h4 = "h2\<lparr>finishVacuumTime := clock a, headLock := Unlocked\<rparr>" let ?m4 = "m2\<lparr>heads := (heads m2)(a \<mapsto> ?h4)\<rparr>"
    let ?s = "s\<lparr>pageVersionHashMap := ?m4, kvStore := kv, redoPool := pool\<rparr>"
    have m4: "hm_ok ?m4" "versions ?m4 = versions m2" "locks_free ?m4" "heads ?m4 = (heads ?m)(a \<mapsto> ?h4)"
      using touch_head_ok [of m2 a h2 ?h4] m2(1,5) locks_free_put [OF ok(2), of ?m4 a ?h4] m2(4)
      by (simp_all add: head_content_def head_index_def server_with_def)
    have "vacuum_head env clock a s = Some ?s"
      using h lk lock run m2(5,7) True by (simp add: vacuum_head_def due_def upd_head_def lock_head_def state_order)
    moreover have "server_ok env H ?s" using m2(1) m4(1-3) by (simp add: server_with_def hm_free_def state_order)
    moreover have "visited clock {a} ?m ?m4"
      by (rule visited_one [OF ok(1) h _ m4(4), of _ v'])
        (use m2 m1(2) m4(2) True in \<open>simp_all add: head_index_def head_version_def ele_list_def chain_def head_entries_def\<close>)
    ultimately show thesis using that [of ?s] by simp
  next
    case False
    have "vacuum_head env clock a s = Some s"
      using h lk lock False by (simp add: vacuum_head_def due_def upd_head_def lock_head_def map_upd_triv lock_triv)
    moreover have "visited clock {a} ?m ?m"
      by (rule visited_one [OF ok(1) h _ _ refl, of _ _ "head_version ?m h"])
        (use h False versions_locate [OF ok(1) h] in \<open>auto simp: map_upd_triv head_version_def\<close>)
    ultimately show thesis using that s by blast
  qed
qed

section \<open>One bucket\<close>

text \<open>
  The heads one scan visits. The pointer of the scan is not set back before it skips the heads already seen,
  so it skips them a second time.
\<close>

function visit_order :: "nat \<Rightarrow> addr list \<Rightarrow> addr list" where
  "visit_order n as = (let rest = drop n as in
     take ITER_BATCH_SIZE rest @ (if length rest < ITER_BATCH_SIZE then [] else visit_order (n + ITER_BATCH_SIZE) (drop ITER_BATCH_SIZE rest)))"
  by pat_completeness auto
termination by (relation "measure (length \<circ> snd)") auto

declare visit_order.simps [simp del]

lemma skip_heads_drop: "lseg nextHead hp p as None \<Longrightarrow> \<exists>q. skip_heads hp n p = Some q \<and> lseg nextHead hp q (drop n as) None"
proof (induction n arbitrary: p as)
  case (Suc n)
  show ?case
  proof (cases as)
    case Nil
    with Suc.IH [of None "[]"] Suc.prems show ?thesis by simp
  next
    case (Cons a bs)
    with Suc.prems obtain h where h: "p = Some a" "hp a = Some h" "lseg nextHead hp (nextHead h) bs None" by auto
    from Suc.IH [OF h(3)] show ?thesis using h(1,2) Cons by simp
  qed
qed auto

lemma collect_heads_take:
  "lseg nextHead hp p as None \<Longrightarrow>
   \<exists>q. collect_heads hp n p = Some (filter (\<lambda>a. replayedLsn (the (hp a)) < maxLsn (the (hp a))) (take n as), q, length as < n) \<and>
     lseg nextHead hp q (drop n as) None"
proof (induction n arbitrary: p as)
  case (Suc n)
  show ?case
  proof (cases as)
    case Nil
    with Suc.prems show ?thesis by auto
  next
    case (Cons a bs)
    with Suc.prems obtain h where h: "p = Some a" "hp a = Some h" "lseg nextHead hp (nextHead h) bs None" by auto
    from Suc.IH [OF h(3)] show ?thesis using h(1,2) Cons by auto
  qed
qed auto

text \<open>A head with nothing to replay is as if it had been visited.\<close>

lemma visited_idle:
  assumes ok: "hm_ok m" and v: "visited clock A m m'" and B: "A \<subseteq> B"
    and idle: "\<And>a h. a \<in> B - A \<Longrightarrow> heads m a = Some h \<Longrightarrow> maxLsn h \<le> replayedLsn h"
  shows "visited clock B m m'"
proof -
  have turn: "(if a \<in> B \<and> due clock a h then \<exists>v'. versions m' (key h) = Some v' \<and> advances (head_version m h) v'
      else versions m' (key h) = versions m (key h))" if h: "heads m a = Some h" for a h
  proof (cases "a \<in> B - A")
    case True
    let ?es = "fst (head_version m h)"
    have hd: "lsorted ?es" "maxLsn h = lsn (last ?es)" "?es \<noteq> []"
      using hm_okD(4) [OF ok h] chain_nonempty by (auto simp: head_ok_def head_version_def)
    have "unreplayed (replayedLsn h) ?es = []" using unreplayed_none [OF hd(1,3)] idle [OF True h] hd(2) by (simp add: not_less)
    then have "advances (head_version m h) (head_version m h)" using prunes_refl [OF hd(3)] by (simp add: advances_def head_version_def)
    moreover have "versions m' (key h) = Some (head_version m h)"
      using visitedD(5) [OF v h] True versions_locate [OF ok h] by (simp add: head_version_def)
    ultimately show ?thesis using versions_locate [OF ok h] by (simp add: head_version_def)
  next
    case False
    then show ?thesis using B visitedD(4,5) [OF v h] by (cases "a \<in> A") (auto split: if_splits)
  qed
  show ?thesis unfolding visited_def
    by (intro conjI allI impI turn visitedD(1,2) [OF v] visitedD(3) [OF v]) (use B in blast)+
qed

lemma vacuum_heads_ok:
  assumes env: "env_ok env" and s: "server_ok env H s" and as: "distinct as" "set as \<subseteq> dom (heads (pageVersionHashMap s))"
  shows "\<exists>s'. foldm (vacuum_head env clock) as s = Some s' \<and> server_ok env H s' \<and>
    visited clock (set as) (pageVersionHashMap s) (pageVersionHashMap s')"
  using s as
proof (induction as arbitrary: s)
  case Nil
  then show ?case by (simp add: visited_refl)
next
  case (Cons a as)
  obtain h where h: "heads (pageVersionHashMap s) a = Some h" using Cons.prems(3) by auto
  obtain s1 where s1: "vacuum_head env clock a s = Some s1" "server_ok env H s1"
    "visited clock {a} (pageVersionHashMap s) (pageVersionHashMap s1)"
    by (rule vacuum_head_ok [OF env Cons.prems(1) h])
  have dom: "set as \<subseteq> dom (heads (pageVersionHashMap s1))"
    using Cons.prems(3) visited_dom [OF s1(3)] by auto
  obtain s2 where s2: "foldm (vacuum_head env clock) as s1 = Some s2" "server_ok env H s2"
    "visited clock (set as) (pageVersionHashMap s1) (pageVersionHashMap s2)"
    using Cons.IH [OF s1(2) _ dom] Cons.prems(2) by auto
  have "visited clock ({a} \<union> set as) (pageVersionHashMap s) (pageVersionHashMap s2)"
    by (rule visited_trans [OF _ _ s1(3) s2(3)])
      (use Cons.prems(1,2) s1(2) in \<open>auto dest: server_okD(1) simp: hm_free_def\<close>)
  then show ?case using s1(1) s2(1,2) by simp
qed

lemma visit_order_subset: "set (visit_order n as) \<subseteq> set as"
proof (induction n as rule: visit_order.induct)
  case (1 n as)
  show ?case
    using 1 set_take_subset [of 10 "drop n as"] set_drop_subset [of 10 "drop n as"] set_drop_subset [of n as]
    by (subst visit_order.simps) (auto simp: Let_def split: if_splits)
qed

lemma bucket_bracket:
  assumes "hm_free m" "i < length (bucketList m)"
  obtains m1 where "lock_bucket rdlock i m = Some m1" "heads m1 = heads m" "lock_bucket unlock i m1 = Some m"
proof -
  have lk: "bucketLock (bucketList m ! i) = Unlocked"
    using assms nth_mem [of i "bucketList m"] by (auto simp: hm_free_def locks_free_def bucket_locks_def image_subset_iff)
  let ?m1 = "m\<lparr>bucketList := (bucketList m)[i := (bucketList m ! i)\<lparr>bucketLock := RdLocked 1\<rparr>]\<rparr>"
  show thesis
    by (rule that [of ?m1]) (use assms(2) lk in \<open>simp_all add: lock_bucket_def get_bucket_def upd_bucket_def lock_triv\<close>)
qed

lemma scan_batch_ok:
  assumes env: "env_ok env" and s: "server_ok env H s" and i: "i < length (bucketList (pageVersionHashMap s))"
    and as: "lseg nextHead (heads (pageVersionHashMap s)) iter as None"
  obtains q s' where "scan_heads env clock i n iter s =
      (if length (drop n as) < 10 then Some s' else scan_heads env clock i (n + 10) q s')"
    "server_ok env H s'" "visited clock (set (take 10 (drop n as))) (pageVersionHashMap s) (pageVersionHashMap s')"
    "lseg nextHead (heads (pageVersionHashMap s')) q (drop 10 (drop n as)) None"
proof -
  let ?m = "pageVersionHashMap s" let ?b = "take 10 (drop n as)"
  let ?u = "filter (\<lambda>a. replayedLsn (the (heads ?m a)) < maxLsn (the (heads ?m a))) ?b"
  obtain m1 where m1: "lock_bucket rdlock i ?m = Some m1" "heads m1 = heads ?m" "lock_bucket unlock i m1 = Some ?m"
    by (rule bucket_bracket [OF server_okD(1) [OF s] i])
  obtain p q where p: "skip_heads (heads ?m) n iter = Some p" "collect_heads (heads ?m) 10 p = Some (?u, q, length (drop n as) < 10)"
    "lseg nextHead (heads ?m) q (drop 10 (drop n as)) None"
    using skip_heads_drop [OF as, of n] collect_heads_take [of "heads ?m" _ "drop n as" 10] by blast
  have dist: "distinct as" by (rule lseg_distinct [OF as])
  have dom: "set ?u \<subseteq> dom (heads ?m)"
    using lseg_alloc [OF as] by (auto dest!: in_set_takeD in_set_dropD)
  obtain s' where s': "foldm (vacuum_head env clock) ?u s = Some s'" "server_ok env H s'" "visited clock (set ?u) ?m (pageVersionHashMap s')"
    using vacuum_heads_ok [OF env s _ dom] dist by auto
  have "visited clock (set ?b) ?m (pageVersionHashMap s')"
    by (rule visited_idle [OF _ s'(3)]) (use server_okD(1) [OF s] in \<open>auto simp: hm_free_def not_less\<close>)
  moreover have "scan_heads env clock i n iter s = (if length (drop n as) < 10 then Some s' else scan_heads env clock i (n + 10) q s')"
    using m1 p(1,2) s'(1) by (subst scan_heads.simps) simp
  ultimately show thesis using that s'(2) p(3) visited_links [OF s'(3)] by blast
qed

lemma scan_heads_ok:
  assumes env: "env_ok env"
  shows "server_ok env H s \<Longrightarrow> i < length (bucketList (pageVersionHashMap s)) \<Longrightarrow>
    lseg nextHead (heads (pageVersionHashMap s)) iter as None \<Longrightarrow>
    \<exists>s'. scan_heads env clock i n iter s = Some s' \<and> server_ok env H s' \<and>
      visited clock (set (visit_order n as)) (pageVersionHashMap s) (pageVersionHashMap s')"
proof (induction n as arbitrary: iter s rule: visit_order.induct)
  case (1 n as)
  let ?r = "drop n as"
  obtain q s1 where s1: "scan_heads env clock i n iter s = (if length ?r < 10 then Some s1 else scan_heads env clock i (n + 10) q s1)"
    "server_ok env H s1" "visited clock (set (take 10 ?r)) (pageVersionHashMap s) (pageVersionHashMap s1)"
    "lseg nextHead (heads (pageVersionHashMap s1)) q (drop 10 ?r) None"
    by (rule scan_batch_ok [OF env "1.prems"])
  show ?case
  proof (cases "length ?r < 10")
    case True
    then show ?thesis using s1(1-3) by (subst visit_order.simps) (simp add: Let_def)
  next
    case False
    have i: "i < length (bucketList (pageVersionHashMap s1))" using "1.prems"(2) visitedD(1) [OF s1(3)] by simp
    obtain s2 where s2: "scan_heads env clock i (n + 10) q s1 = Some s2" "server_ok env H s2"
      "visited clock (set (visit_order (n + 10) (drop 10 ?r))) (pageVersionHashMap s1) (pageVersionHashMap s2)"
      using "1.IH" [OF refl False s1(2) i s1(4)] by blast
    have disj: "set (take 10 ?r) \<inter> set (visit_order (n + 10) (drop 10 ?r)) = {}"
      using visit_order_subset [of "n + 10" "drop 10 ?r"] lseg_distinct [OF "1.prems"(3)] set_take_disj_set_drop_if_distinct [of ?r 10 10]
      by auto
    have ok: "hm_ok (pageVersionHashMap s)" "hm_ok (pageVersionHashMap s1)"
      using server_okD(1) [OF "1.prems"(1)] server_okD(1) [OF s1(2)] by (simp_all add: hm_free_def)
    show ?thesis using s1(1) s2(1,2) False visited_trans [OF ok s1(3) s2(3) disj]
      by (subst visit_order.simps) (simp add: Let_def)
  qed
qed

text \<open>The mutex and the time of a bucket are not part of what the map stores.\<close>

lemma touch_bucket_ok:
  assumes m: "hm_free m" "i < length (bucketList m)" and f: "\<And>b. nodeList (f b) = nodeList b" "\<And>b. bucketLock (f b) = bucketLock b"
  obtains m' where "upd_bucket i f m = Some m'" "hm_free m'" "versions m' = versions m" "heads m' = heads m"
    "bucketNum m' = bucketNum m" "bucketList m' = (bucketList m)[i := f (bucketList m ! i)]"
proof -
  let ?m = "m\<lparr>bucketList := (bucketList m)[i := f (bucketList m ! i)]\<rparr>"
  have ok: "hm_ok m" "locks_free m" using m(1) by (simp_all add: hm_free_def)
  have same: "same_content m ?m" by (simp add: same_content_def)
  have "bucket_ok ?m j (head_list m j)" if "j < length (bucketList m)" for j
    using hm_okD(3) [OF ok(1) that] that m(2) f(1) by (subst bucket_ok_cong [of _ m]) (auto simp: nth_list_update)
  then have "\<exists>as. bucket_ok ?m j as \<and> set as = set (head_list m j)" if "j < length (bucketList m)" for j using that by blast
  then have "hm_ok ?m" "versions ?m = versions m" using same_content_hm_ok [OF ok(1) same] by blast+
  moreover have "bucket_locks ?m = bucket_locks m" using m(2) f(2) by (auto simp: bucket_locks_def list_eq_iff_nth_eq nth_list_update)
  moreover have "head_locks ?m = head_locks m" by (simp add: head_locks_def fun_eq_iff)
  ultimately show thesis using m(2) ok(2) by (intro that [of ?m]) (simp_all add: upd_bucket_def hm_free_def locks_free_def)
qed

lemma server_ok_map:
  assumes "server_ok env H s" "hm_free m" "versions m = versions (pageVersionHashMap s)"
  shows "server_ok env H (s\<lparr>pageVersionHashMap := m\<rparr>)"
  using server_withI [OF assms(1) _ assms(3)] assms(2) by (simp add: server_with_def hm_free_def)

lemma bucket_lseg: "hm_ok m \<Longrightarrow> i < length (bucketList m) \<Longrightarrow> lseg nextHead (heads m) (nodeList (bucketList m ! i)) (head_list m i) None"
  using hm_okD(3) by (simp add: bucket_ok_def)

text \<open>A bucket is left alone when another thread has it or when it was visited a moment ago.\<close>

definition skipped :: "timeval \<Rightarrow> HashBucket \<Rightarrow> bool" where
  "skipped now b \<longleftrightarrow> replayLock b \<or> tv_usec now - tv_usec (lastReplayTime b) < ITER_BUCKET_INTERVAL"

lemma replay_triv: "\<not> replayLock b \<Longrightarrow> b\<lparr>replayLock := False\<rparr> = b"
  by (cases b) simp

lemma clean_bucket_skipped:
  assumes s: "server_ok env H s" and i: "i < length (bucketList (pageVersionHashMap s))" and b: "skipped now (bucketList (pageVersionHashMap s) ! i)"
  shows "clean_bucket env now clock fin i s = Some s"
proof (cases "replayLock (bucketList (pageVersionHashMap s) ! i)")
  case True
  then show ?thesis using i by (simp add: clean_bucket_def get_bucket_def)
next
  case False
  then show ?thesis using b i by (simp add: clean_bucket_def get_bucket_def upd_bucket_def skipped_def replay_triv)
qed

lemma clean_bucket_visits:
  assumes env: "env_ok env" and s: "server_ok env H s" and i: "i < length (bucketList (pageVersionHashMap s))"
    and b: "\<not> skipped now (bucketList (pageVersionHashMap s) ! i)"
  shows "\<exists>m1 s1 s'. clean_bucket env now clock fin i s = Some s' \<and> server_ok env H s' \<and>
    bucketNum (pageVersionHashMap s') = bucketNum (pageVersionHashMap s) \<and>
    heads m1 = heads (pageVersionHashMap s) \<and> hm_free m1 \<and> versions m1 = versions (pageVersionHashMap s) \<and>
    visited clock (set (visit_order 0 (head_list (pageVersionHashMap s) i))) m1 s1 \<and> versions (pageVersionHashMap s') = versions s1"
proof -
  let ?m = "pageVersionHashMap s" let ?b = "bucketList ?m ! i"
  have ok: "hm_free ?m" "hm_ok ?m" using server_okD(1) [OF s] by (simp_all add: hm_free_def)
  obtain m1 where m1: "upd_bucket i (\<lambda>b. b\<lparr>replayLock := True\<rparr>) ?m = Some m1" "hm_free m1" "versions m1 = versions ?m"
    "heads m1 = heads ?m" "bucketNum m1 = bucketNum ?m" "bucketList m1 = (bucketList ?m)[i := ?b\<lparr>replayLock := True\<rparr>]"
    by (rule touch_bucket_ok [OF ok(1) i, where f = "\<lambda>b. b\<lparr>replayLock := True\<rparr>"]) simp_all
  obtain s2 where s2: "scan_heads env clock i 0 (nodeList ?b) (s\<lparr>pageVersionHashMap := m1\<rparr>) = Some s2" "server_ok env H s2"
    "visited clock (set (visit_order 0 (head_list ?m i))) m1 (pageVersionHashMap s2)"
    using scan_heads_ok [OF env server_ok_map [OF s m1(2,3)], of i "nodeList ?b" "head_list ?m i"] bucket_lseg [OF ok(2) i] m1(4,6) i by auto
  have ok2: "hm_free (pageVersionHashMap s2)" "i < length (bucketList (pageVersionHashMap s2))"
    using server_okD(1) [OF s2(2)] visitedD(1) [OF s2(3)] m1(6) i by simp_all
  obtain m3 where m3: "upd_bucket i (\<lambda>b. b\<lparr>lastReplayTime := fin\<rparr>) (pageVersionHashMap s2) = Some m3" "hm_free m3"
    "versions m3 = versions (pageVersionHashMap s2)" "bucketNum m3 = bucketNum (pageVersionHashMap s2)"
    "bucketList m3 = (bucketList (pageVersionHashMap s2))[i := (bucketList (pageVersionHashMap s2) ! i)\<lparr>lastReplayTime := fin\<rparr>]"
    by (rule touch_bucket_ok [OF ok2, where f = "\<lambda>b. b\<lparr>lastReplayTime := fin\<rparr>"]) simp_all
  obtain m4 where m4: "upd_bucket i (\<lambda>b. b\<lparr>replayLock := False\<rparr>) m3 = Some m4" "hm_free m4"
    "versions m4 = versions m3" "bucketNum m4 = bucketNum m3"
    by (rule touch_bucket_ok [OF m3(2), where i = i and f = "\<lambda>b. b\<lparr>replayLock := False\<rparr>"]) (use m3(5) ok2(2) in simp_all)
  have "clean_bucket env now clock fin i s = Some (s2\<lparr>pageVersionHashMap := m4\<rparr>)"
    using b i m1(1) s2(1) m3(1) m4(1) by (simp add: clean_bucket_def get_bucket_def skipped_def)
  moreover have "server_ok env H (s2\<lparr>pageVersionHashMap := m4\<rparr>)" by (rule server_ok_map [OF s2(2) m4(2)]) (simp add: m4(3) m3(3))
  moreover have "bucketNum (pageVersionHashMap s2) = bucketNum m1"
    using ok2(1) m1(2) hm_okD(2) [of m1] hm_okD(2) [of "pageVersionHashMap s2"] visitedD(1) [OF s2(3)] by (simp add: hm_free_def word_unat_eq_iff)
  ultimately show ?thesis using s2(3) m4(3,4) m3(3,4) m1(2-5) by (intro exI [of _ m1] exI [of _ "pageVersionHashMap s2"]) auto
qed

section \<open>The loop over the buckets\<close>

text \<open>What vacuuming does to the versions of one page, in any number of rounds.\<close>

definition ahead :: "(LsnEntry list \<times> u64) option \<Rightarrow> (LsnEntry list \<times> u64) option \<Rightarrow> bool" where
  "ahead v v' \<longleftrightarrow> (case v of None \<Rightarrow> v' = None | Some (es, r) \<Rightarrow> \<exists>es' r'. v' = Some (es', r') \<and> r \<le> r' \<and> set es' \<subseteq> set es)"

lemma ahead_refl [simp]: "ahead v v"
  by (auto simp: ahead_def split: option.splits)

lemma ahead_trans: "ahead u v \<Longrightarrow> ahead v w \<Longrightarrow> ahead u w"
  by (fastforce simp: ahead_def split: option.splits)

lemma advances_ahead: "advances v v' \<Longrightarrow> ahead (Some v) (Some v')"
proof -
  assume a: "advances v v'"
  let ?b = "take 20 (unreplayed (snd v) (fst v))"
  have above: "snd v < x" if "x \<in> set ?b" for x using in_set_takeD [OF that] by auto
  have "snd v \<le> last (snd v # ?b)" using above [of "last ?b"] by (cases "?b = []") (auto intro: less_imp_le)
  then have "snd v \<le> snd v'" using a by (simp add: advances_def)
  moreover have "set (fst v') \<subseteq> set (fst v)" using a prunesD by (auto simp: advances_def prunes_def)
  ultimately show ?thesis by (cases v; cases v') (auto simp: ahead_def)
qed

lemma visited_ahead:
  assumes ok: "hm_ok m" and v: "visited clock A m m'" and k: "versions m k \<noteq> None"
  shows "ahead (versions m k) (versions m' k)"
proof -
  from k obtain v where v0: "versions m k = Some v" by auto
  then obtain a h where h: "heads m a = Some h" "key h = k" "head_version m h = v" using versions_iff [OF ok] by metis
  show ?thesis
  proof (cases "a \<in> A \<and> due clock a h")
    case True
    then obtain v' where "versions m' (key h) = Some v'" "advances (head_version m h) v'" using visitedD(4) [OF v h(1)] by blast
    then show ?thesis using advances_ahead h(2,3) v0 by simp
  next
    case False
    then show ?thesis using visitedD(5) [OF v h(1)] h(2) by simp
  qed
qed

lemma clean_bucket_ok:
  assumes env: "env_ok env" and s: "server_ok env H s" and i: "i < length (bucketList (pageVersionHashMap s))"
  shows "\<exists>s'. clean_bucket env now clock fin i s = Some s' \<and> server_ok env H s' \<and>
    bucketNum (pageVersionHashMap s') = bucketNum (pageVersionHashMap s) \<and>
    (\<forall>k. ahead (versions (pageVersionHashMap s) k) (versions (pageVersionHashMap s') k))"
proof (cases "skipped now (bucketList (pageVersionHashMap s) ! i)")
  case True
  then show ?thesis using clean_bucket_skipped [OF s i] s by simp
next
  case False
  obtain m1 m2 s' where s': "clean_bucket env now clock fin i s = Some s'" "server_ok env H s'"
    "bucketNum (pageVersionHashMap s') = bucketNum (pageVersionHashMap s)" "hm_free m1" "versions m1 = versions (pageVersionHashMap s)"
    "visited clock (set (visit_order 0 (head_list (pageVersionHashMap s) i))) m1 m2" "versions (pageVersionHashMap s') = versions m2"
    using clean_bucket_visits [OF env s i False, of clock fin] by blast
  have "ahead (versions (pageVersionHashMap s) k) (versions (pageVersionHashMap s') k)" for k
  proof (cases "versions (pageVersionHashMap s) k")
    case None
    then have "versions (pageVersionHashMap s') k = None"
      using server_okD(5) [OF s, of k] server_okD(5) [OF s'(2), of k] by (auto simp: tracks_def split: option.splits)
    with None show ?thesis by simp
  qed (use visited_ahead [OF _ s'(6), of k] s'(4,5,7) in \<open>simp add: hm_free_def\<close>)
  with s'(1-3) show ?thesis by blast
qed

lemma clean_rounds_ok:
  shows "env_ok env \<Longrightarrow> server_ok env H s \<Longrightarrow> \<exists>s'. clean_rounds env obs i s = Some s' \<and> server_ok env H s' \<and>
    (\<forall>k. ahead (versions (pageVersionHashMap s) k) (versions (pageVersionHashMap s') k))"
proof (induction env obs i s rule: clean_rounds.induct)
  case (2 env now clock fin obs i s)
  let ?i = "(i + 1) mod unat (bucketNum (pageVersionHashMap s))"
  have ok: "hm_ok (pageVersionHashMap s)" using server_okD(1) [OF "2.prems"(2)] by (simp add: hm_free_def)
  have "?i < length (bucketList (pageVersionHashMap s))" using hm_okD(1,2) [OF ok] by (simp add: unat_gt_0)
  then obtain s1 where s1: "clean_bucket env now clock fin ?i s = Some s1" "server_ok env H s1"
    "\<forall>k. ahead (versions (pageVersionHashMap s) k) (versions (pageVersionHashMap s1) k)"
    using clean_bucket_ok [OF "2.prems", of ?i now clock fin] by blast
  obtain s2 where "clean_rounds env obs ?i s1 = Some s2" "server_ok env H s2"
    "\<forall>k. ahead (versions (pageVersionHashMap s1) k) (versions (pageVersionHashMap s2) k)"
    using "2.IH" [OF refl s1(1) "2.prems"(1) s1(2)] by blast
  with s1(1,3) show ?case by (auto simp: Let_def intro: ahead_trans)
qed simp

lemma BackgroundHashMapCleanRocksdb_ok:
  assumes "env_ok env" "server_ok env H s"
  shows "\<exists>s'. BackgroundHashMapCleanRocksdb env tid obs s = Some s' \<and> server_ok env H s' \<and>
    (\<forall>k. ahead (versions (pageVersionHashMap s) k) (versions (pageVersionHashMap s') k))"
  using clean_rounds_ok [OF assms] server_okD(1) [OF assms(2)] hm_okD(1) by (auto simp: BackgroundHashMapCleanRocksdb_def hm_free_def)

end
