(* ===== verification/ServerProps.thy ===== *)
theory ServerProps
  imports VacuumLaws
begin

text \<open>
  The storage node as a state machine, and its properties: the pages it serves, the requests it fails
  on, the relation sizes, and the wait for the index.
\<close>

section \<open>Relation sizes\<close>

lemma nblocks_alt:
  "RpcMdNblocks env obs rel f l s =
     do { s \<leftarrow> WaitParse l obs s;
          let k = TransRelNode2RelKey (reln_node rel) f;
          (found, c) \<leftarrow> locked_read RelSizePthreadReadLock RelSizePthreadUnlock GetRelSizeCache k (relSizes s);
          (case found of
             Some n \<Rightarrow> Some (n, s\<lparr>relSizes := c\<rparr>)
           | None \<Rightarrow>
               do { (n, pool) \<leftarrow> sync_rel_size (env_redo env) (redoPool s) (reln_node rel) f 0;
                    c \<leftarrow> locked_update RelSizePthreadWriteLock RelSizePthreadUnlock
                      (\<lambda>c. if 0 \<le> sint n \<and> GetRelSizeCache k c = None then InsertRelSizeCache k n c else c) k c;
                    Some (n, s\<lparr>redoPool := pool, relSizes := c\<rparr>) }) }"
proof (cases "WaitParse l obs s")
  case (Some s1)
  let ?k = "TransRelNode2RelKey (reln_node rel) f"
  show ?thesis
    using Some
    by (cases "RelSizePthreadReadLock ?k (relSizes s1)"; cases "GetRelSizeCache ?k (the (RelSizePthreadReadLock ?k (relSizes s1)))")
      (simp_all add: RpcMdNblocks_def locked_read_def locked_update_def Let_def Option.bind_assoc)
qed (simp add: RpcMdNblocks_def)

lemma exists_alt:
  "RpcMdExists env obs rel f l s =
     do { s \<leftarrow> WaitParse l obs s;
          let k = TransRelNode2RelKey (reln_node rel) f;
          (found, c) \<leftarrow> locked_read RelSizePthreadReadLock RelSizePthreadUnlock GetRelSizeCache k (relSizes s);
          (case found of
             Some n \<Rightarrow> Some (True, s\<lparr>relSizes := c\<rparr>)
           | None \<Rightarrow>
               do { (n, pool) \<leftarrow> sync_rel_size (env_redo env) (redoPool s) (reln_node rel) f l;
                    c \<leftarrow> locked_update RelSizePthreadWriteLock RelSizePthreadUnlock
                      (\<lambda>c. if 0 \<le> sint n \<and> GetRelSizeCache k c = None then InsertRelSizeCache k n c else c) k c;
                    Some (0 \<le> sint n, s\<lparr>redoPool := pool, relSizes := c\<rparr>) }) }"
proof (cases "WaitParse l obs s")
  case (Some s1)
  let ?k = "TransRelNode2RelKey (reln_node rel) f"
  show ?thesis
    using Some
    by (cases "RelSizePthreadReadLock ?k (relSizes s1)"; cases "GetRelSizeCache ?k (the (RelSizePthreadReadLock ?k (relSizes s1)))")
      (simp_all add: RpcMdExists_def locked_read_def locked_update_def Let_def Option.bind_assoc)
qed (simp add: RpcMdExists_def)

text \<open>The size on disk as the redo process that serves the request sees it.\<close>

definition disk_size :: "('d, 'w, 'r) server_env \<Rightarrow> ('d, 'w) server_state \<Rightarrow> RelFileNode \<Rightarrow> u32 \<Rightarrow> u32" where
  "disk_size env s rn f =
     (let c = env_redo env; w = world (server (rc_tid c) (redoPool s))
      in if smgrexists (rc_env c) rn f w then smgrnblocks (rc_env c) rn f w else - 1)"

lemma sync_rel_size_ok:
  assumes "env_ok env" "server_ok env H s" "f < 256"
  shows "sync_rel_size (env_redo env) (redoPool s) rn f l = Some (disk_size env s rn f, redoPool s)"
proof -
  have "pool_ok (redoPool s)" "some_free (redoPool s)" using server_okD(3) [OF assms(2)] by (auto simp: pool_idle_def)
  moreover have "schedule_ok (rc_sched (env_redo env) 18 4) 18 4" by (rule redo_okD(2) [OF env_okD(2) [OF assms(1)]]) simp
  ultimately have "sync_rel_size (env_redo env) (redoPool s) rn f l =
      Some (if smgrexists (rc_env (env_redo env)) rn f (world (server (rc_tid (env_redo env)) (redoPool s)))
        then smgrnblocks (rc_env (env_redo env)) rn f (world (server (rc_tid (env_redo env)) (redoPool s))) else - 1, redoPool s)"
    using assms(3) by (intro SyncGetRelSize_call)
  then show ?thesis by (simp add: disk_size_def Let_def)
qed

text \<open>Both handlers in one: the size, from the cache or the disk, and the state afterwards.\<close>

lemma size_handlers_ok:
  assumes env: "env_ok env" and s: "server_ok env H s" and f: "f < 256" and wait: "WaitParse l obs s = Some s1"
    and n: "n = (case GetRelSizeCache (TransRelNode2RelKey (reln_node rel) f) (relSizes s) of
      Some n \<Rightarrow> n | None \<Rightarrow> disk_size env s (reln_node rel) f)"
  obtains c where "cache_ok c" "RpcMdNblocks env obs rel f l s = Some (n, s1\<lparr>relSizes := c\<rparr>)"
    "RpcMdExists env obs rel f l s =
      Some (GetRelSizeCache (TransRelNode2RelKey (reln_node rel) f) (relSizes s) \<noteq> None \<or> 0 \<le> sint n, s1\<lparr>relSizes := c\<rparr>)"
proof -
  let ?k = "TransRelNode2RelKey (reln_node rel) f"
  note same = WaitParse_same [OF wait]
  have s1: "server_ok env H s1" using s server_ok_wait [OF wait] by blast
  have disk: "sync_rel_size (env_redo env) (redoPool s1) (reln_node rel) f l = Some (disk_size env s (reln_node rel) f, redoPool s1)" for l
    using sync_rel_size_ok [OF env s1 f, of "reln_node rel" l] same by (simp add: disk_size_def)
  obtain c where c: "locked_read RelSizePthreadReadLock RelSizePthreadUnlock GetRelSizeCache ?k (relSizes s1) =
      Some (GetRelSizeCache ?k (relSizes s1), c)" "cache_ok c"
    using sizes.read_ok [OF server_okD(4) [OF s1], of ?k] by blast
  show ?thesis
  proof (cases "GetRelSizeCache ?k (relSizes s)")
    case (Some x)
    with that [OF c(2)] wait c(1) same n show ?thesis by (simp add: nblocks_alt exists_alt)
  next
    case None
    obtain c' where c': "locked_update RelSizePthreadWriteLock RelSizePthreadUnlock
        (\<lambda>c. if 0 \<le> sint n \<and> GetRelSizeCache ?k c = None then InsertRelSizeCache ?k n c else c) ?k c = Some c'" "cache_ok c'"
      using sizes.update_ok [OF c(2), of "\<lambda>x. 0 \<le> sint n \<and> x = None" ?k n] by blast
    from None n have d: "disk_size env s (reln_node rel) f = n" by simp
    have "s1\<lparr>redoPool := redoPool s1, relSizes := x\<rparr> = s1\<lparr>relSizes := x\<rparr>" for x by simp
    with that [OF c'(2)] None wait c(1) c'(1) same disk [unfolded d] show ?thesis by (simp add: nblocks_alt exists_alt Let_def)
  qed
qed


section \<open>The storage node as a state machine\<close>

text \<open>
  \<open>rs\<close> are the records indexed so far, as the startup process decoded them. The WAL comes in order; the
  WAL receiver moves the end of the WAL and announces its temporary end at any time, and the vacuumer
  may run for any number of rounds between two requests.
\<close>

inductive server_run :: "('d, 'w, 'r) server_env \<Rightarrow> XLogReaderState list \<Rightarrow> ('d, 'w) server_state \<Rightarrow> bool"
  for env :: "('d, 'w, 'r) server_env" where
  start: "0 < sint n \<Longrightarrow> page_map (env_db env) kv = Map.empty \<Longrightarrow> pool_idle (env_redo env) pool \<Longrightarrow> cache_ok c \<Longrightarrow>
    server_run env [] \<lparr>pageVersionHashMap = HashMapInit n, kvStore = kv, redoPool = pool, relSizes = c,
      XLogParseUpto = u, RpcXLogFlushedLsn = l, reachXlogTempEnd = b\<rparr>"
| receive: "server_run env rs s \<Longrightarrow> server_run env rs (s\<lparr>RpcXLogFlushedLsn := l, reachXlogTempEnd := b\<rparr>)"
| index: "server_run env rs s \<Longrightarrow> polar_xlog_decode_data_vm r = Some r' \<Longrightarrow> record_blocks r' = Some (p, ids) \<Longrightarrow>
    \<forall>i. forknum (blocks r' i) < 256 \<Longrightarrow> ReadRecPtr r \<noteq> 0 \<Longrightarrow> \<forall>x \<in> set rs. ReadRecPtr x < ReadRecPtr r \<Longrightarrow>
    StartupXLOG_record env r e s = Some s' \<Longrightarrow> server_run env (rs @ [r']) s'"
| read: "server_run env rs s \<Longrightarrow> forkNum t < 256 \<Longrightarrow> blockNum t < 2 ^ 31 \<Longrightarrow> readable s t l \<Longrightarrow>
    ReadBufferCommon env obs (reln_of t) (forkNum t) (blockNum t) l s = Some (page, s') \<Longrightarrow> server_run env rs s'"
| nblocks: "server_run env rs s \<Longrightarrow> f < 256 \<Longrightarrow> RpcMdNblocks env obs rel f l s = Some (n, s') \<Longrightarrow> server_run env rs s'"
| exist: "server_run env rs s \<Longrightarrow> f < 256 \<Longrightarrow> RpcMdExists env obs rel f l s = Some (b, s') \<Longrightarrow> server_run env rs s'"
| truncate: "server_run env rs s \<Longrightarrow> RpcTruncate obs rel f n l s = Some s' \<Longrightarrow> server_run env rs s'"
| vacuum: "server_run env rs s \<Longrightarrow> BackgroundHashMapCleanRocksdb env tid rounds s = Some s' \<Longrightarrow> server_run env rs s'"

text \<open>The records that touch a page, in the order of the WAL, and the page they make up to \<open>l\<close>.\<close>

definition history :: "XLogReaderState list \<Rightarrow> KeyType \<Rightarrow> u64 list" where
  "history rs k = map ReadRecPtr (filter (\<lambda>r. k \<in> record_keys r) rs)"

definition logged_page :: "('d, 'w, 'r) server_env \<Rightarrow> XLogReaderState list \<Rightarrow> BufferTag \<Rightarrow> u64 \<Rightarrow> bytes" where
  "logged_page env rs t l = rc_page (env_redo env) t (filter (\<lambda>x. x \<le> l) (history rs (tag_key t))) (rc_base (env_redo env) t)"

lemma logged_page_at: "page_at env t (history rs (tag_key t)) l = logged_page env rs t l"
  by (simp add: page_at_def logged_page_def)

lemma history_extend: "extend r (history rs) = history (rs @ [r])"
  by (auto simp: extend_def history_def)

lemma history_Nil [simp]: "history [] = (\<lambda>k. [])"
  by (simp add: history_def fun_eq_iff)

section \<open>Invariants\<close>

lemma RpcTruncate_ok:
  assumes "server_ok env H s" "RpcTruncate obs rel f n l s = Some s'"
  shows "server_ok env H s'"
proof -
  let ?k = "TransRelNode2RelKey (reln_node rel) f"
  obtain s1 where s1: "WaitParse l obs s = Some s1" using assms(2) by (auto simp: RpcTruncate_def bind_eq_Some_conv)
  have ok: "server_ok env H s1" using assms(1) server_ok_wait [OF s1] by blast
  obtain c where c: "locked_update RelSizePthreadWriteLock RelSizePthreadUnlock (InsertRelSizeCache ?k n) ?k (relSizes s1) = Some c" "cache_ok c"
    using sizes.update_ok [OF server_okD(4) [OF ok], of "\<lambda>_. True" ?k n] by auto
  then have "RpcTruncate obs rel f n l s = Some (s1\<lparr>relSizes := c\<rparr>)"
    using s1 by (auto simp: RpcTruncate_def locked_update_def Let_def bind_eq_Some_conv)
  with assms(2) have "s' = s1\<lparr>relSizes := c\<rparr>" by simp
  with server_ok_sizes [OF ok c(2)] show ?thesis by simp
qed

lemma sized_ok:
  assumes env: "env_ok env" and s: "server_ok env H s" and f: "f < 256"
    and h: "RpcMdNblocks env obs rel f l s = Some (n, s') \<or> RpcMdExists env obs rel f l s = Some (b, s')"
  shows "server_ok env H s'"
proof -
  obtain s1 where s1: "WaitParse l obs s = Some s1" using h by (auto simp: nblocks_alt exists_alt bind_eq_Some_conv)
  have ok: "server_ok env H s1" using s server_ok_wait [OF s1] by blast
  obtain c where "cache_ok c" "s' = s1\<lparr>relSizes := c\<rparr>"
    by (rule size_handlers_ok [OF env s f s1 refl, of rel]) (use h in auto)
  with server_ok_sizes [OF ok] show ?thesis by simp
qed

lemma start_ok:
  assumes "0 < sint n" "page_map (env_db env) kv = Map.empty" "pool_idle (env_redo env) pool" "cache_ok c"
  shows "server_ok env (\<lambda>k. []) \<lparr>pageVersionHashMap = HashMapInit n, kvStore = kv, redoPool = pool, relSizes = c,
      XLogParseUpto = u, RpcXLogFlushedLsn = l, reachXlogTempEnd = b\<rparr>"
  using assms HashMapInit_ok [OF assms(1)] by (auto simp: server_ok_def hm_free_def full_pages_def tracks_def)

lemma server_run_ok:
  assumes env: "env_ok env"
  shows "server_run env rs s \<Longrightarrow> server_ok env (history rs) s"
proof (induction rule: server_run.induct)
  case (start n kv pool c u l b)
  then show ?case using start_ok [OF start, of u l b] by simp
next
  case (receive rs s l b)
  then show ?case by (simp add: server_ok_def)
next
  case (index rs s r r' p ids e s')
  have f: "forknum (blocks r' i) < 256" for i using index.hyps(4) by blast
  have old: "x < ReadRecPtr r" if "x \<in> set (history rs k)" for k x using that index.hyps(6) by (auto simp: history_def)
  from StartupXLOG_record_ok [OF env index.IH index.hyps(2) f index.hyps(5) old index.hyps(3), where e = e] index.hyps(7)
  show ?case by (simp add: history_extend)
next
  case (read rs s t l obs page s')
  then obtain s1 where "WaitParse l obs s = Some s1" by (auto simp: ReadBufferCommon_def bind_eq_Some_conv)
  from ReadBufferCommon_ok [OF env read.IH read.hyps(2,3) this read.hyps(4)] read.hyps(5) show ?case by auto
next
  case (nblocks rs s f obs rel l n s')
  then show ?case using sized_ok [OF env, of "history rs" s f obs rel l n s'] by simp
next
  case (exist rs s f obs rel l b s')
  then show ?case using sized_ok [OF env, of "history rs" s f obs rel l _ s' b] by simp
next
  case (truncate rs s obs rel f n l s')
  then show ?case using RpcTruncate_ok by blast
next
  case (vacuum rs s tid rounds s')
  then show ?case using BackgroundHashMapCleanRocksdb_ok [OF env vacuum.IH, of tid rounds] by auto
qed


section \<open>Properties\<close>

text \<open>A server on the in-memory store, with one redo process free and one record indexed.\<close>

definition demo_env :: "((string \<times> bytes) list, bytes option \<times> u64, u64) server_env" where
  "demo_env = \<lparr>env_err = None, env_db = mem_db, env_redo = demo_client, env_alloc = bump_alloc\<rparr>"

definition demo_start :: "((string \<times> bytes) list, bytes option \<times> u64) server_state" where
  "demo_start = \<lparr>pageVersionHashMap = HashMapInit 8, kvStore = mem_kv, redoPool = demo_pool,
     relSizes = RelSizePthreadLockInit \<lparr>SharedRelSizeHash = Map.empty, relSizePthreadLocks = []\<rparr>, XLogParseUpto = 0, RpcXLogFlushedLsn = 0, reachXlogTempEnd = False\<rparr>"

lemma demo_env_ok: "env_ok demo_env"
  using mem_db_ok demo_client_ok bump_alloc_fresh by (simp add: env_ok_def demo_env_def)


lemma demo_start_ok: "server_run demo_env [] demo_start" "GetRelSizeCache k (relSizes demo_start) = None"
proof -
  show "server_run demo_env [] demo_start"
    unfolding demo_start_def using mem_kv_views(1) demo_pool_idle(3)
    by (intro server_run.start) (simp_all add: demo_env_def cache_ok_def RelSizePthreadLockInit_def)
  show "GetRelSizeCache k (relSizes demo_start) = None"
    by (simp add: GetRelSizeCache_def RelSizeTableLookup_def demo_start_def RelSizePthreadLockInit_def)
qed

abbreviation demo_indexed_record :: XLogReaderState where
  "demo_indexed_record \<equiv> polar_heap_save_vm_block 0 1 demo_record"

lemma demo_tag: "forkNum (block_tag demo_block) = 0" "blockNum (block_tag demo_block) = 40000"
  by (simp_all add: block_tag_def demo_block_def)

lemma demo_history: "history [demo_indexed_record] (tag_key (block_tag demo_block)) = [300]"
proof -
  have "tag_key (block_tag demo_block) \<in> record_keys demo_indexed_record"
    unfolding record_keys_def demo_decoded(2) keys_of_def using demo_decoded_blocks(1,3)
    by (auto simp: block_key_tag intro: image_eqI [where x = 0])
  with demo_decoded_blocks(7) show ?thesis by (simp add: history_def)
qed

lemma demo_indexed:
  "\<exists>s es. server_run demo_env [demo_indexed_record] s \<and> WaitParse l obs s = Some s \<and>
    versions (pageVersionHashMap s) (tag_key (block_tag demo_block)) = Some (es, 0) \<and> map lsn es = [300] \<and>
    map_option snd (ParseLogIndexXlog bump_alloc demo_indexed_record (HashMapInit 8)) = Some (pageVersionHashMap s)"
proof -
  let ?r = demo_indexed_record and ?t = "block_tag demo_block"
  have ok: "server_ok demo_env (\<lambda>k. []) demo_start" using server_run_ok [OF demo_env_ok demo_start_ok(1)] by simp
  have f: "forknum (blocks ?r i) < 256" for i
    by (simp add: polar_heap_save_vm_block_def demo_record_def demo_block_def Let_def polar_reset_blk_def)
  have l: "ReadRecPtr demo_record \<noteq> 0" by (simp add: demo_record_def)
  from StartupXLOG_record_ok [OF demo_env_ok ok demo_decoded(1) f l _ demo_decoded(2), where e = 320] obtain s where
    s: "StartupXLOG_record demo_env demo_record 320 demo_start = Some s" and kv: "kvStore s = kvStore demo_start"
    and map: "map_option snd (ParseLogIndexXlog bump_alloc demo_indexed_record (HashMapInit 8)) = Some (pageVersionHashMap s)"
    by (auto simp: demo_env_def demo_start_def)
  have run: "server_run demo_env ([] @ [?r]) s"
    by (rule server_run.index [OF demo_start_ok(1) demo_decoded _ l _ s]) (use f in auto)
  have v: "\<exists>es. versions (pageVersionHashMap s) (tag_key ?t) = Some (es, 0) \<and> map lsn es = [300]"
  proof -
    have ok: "server_ok demo_env (history [?r]) s" using server_run_ok [OF demo_env_ok run] by simp
    note trk = server_okD(5) [OF ok, of "tag_key ?t", unfolded demo_history]
    then obtain es r where v: "versions (pageVersionHashMap s) (tag_key ?t) = Some (es, r)"
      by (cases "versions (pageVersionHashMap s) (tag_key ?t)") (auto simp: tracks_def)
    have "stored_pages demo_env s = Map.empty" using kv mem_kv_views(1) by (simp add: demo_start_def demo_env_def)
    then have r: "r = 0" using server_okD(6) [OF ok v] by auto
    note h = tracksD [OF trk [unfolded v]]
    have "filter (\<lambda>e. 0 < lsn e) es = es" using h(5) by (auto simp: filter_id_conv)
    then show ?thesis using h(7) v unfolding r by simp
  qed
  let ?s = "s\<lparr>RpcXLogFlushedLsn := 0, reachXlogTempEnd := False\<rparr>"
  from server_run.receive [OF run, of False 0] have "server_run demo_env [?r] ?s" by simp
  moreover have "WaitParse l obs ?s = Some ?s" by (simp add: WaitParse_def)
  ultimately show ?thesis using v map by (intro exI [of _ ?s]) simp
qed

lemma demo_disk: "disk_size demo_env demo_start rn f = (if f = 0 then 12 else - 1)"
  by (simp add: disk_size_def demo_env_def demo_client_def demo_redo_def)

lemma block_no_end: "(b :: u32) < - 2 \<Longrightarrow> b < b + 1 \<and> b + 1 \<noteq> - 1 \<and> b + 1 < - 1"
proof -
  assume "b < - 2"
  then have b: "unat b < 2 ^ 32 - 2" by (simp add: word_less_nat_alt)
  then have "unat (b + 1) = unat b + 1" by (simp add: unat_word_ariths)
  moreover have "unat (- 1 :: u32) = 2 ^ 32 - 1" by (simp add: unsigned_minus_1_eq_mask mask_eq_exp_minus_1)
  ultimately have "b < b + 1" "b + 1 < - 1" using b by (simp_all only: word_less_nat_alt)
  then show ?thesis by (metis less_irrefl)
qed




text \<open>C25: the requests that fail. The store keeps one version of a page, so \<open>ReadBufferCommon\<close> dereferences
  the null page that \<open>GetPageFromRocksdb\<close> leaves when the page has been replayed beyond the requested
  LSN and one of its records is not above it, and when the page was never replayed and all its
  records are above the requested LSN.\<close>

theorem unreadable_page_faults:
  assumes "env_ok env" and "server_run env rs s" and "blockNum t < 2 ^ 31" and "history rs (tag_key t) \<noteq> []"
    and "r = snd (entries (pageVersionHashMap s) (tag_key t))"
    and "if l < r then \<exists>x \<in> set (history rs (tag_key t)). x \<le> l else r = 0 \<and> (\<forall>x \<in> set (history rs (tag_key t)). l < x)"
  shows "ReadBufferCommon env obs (reln_of t) (forkNum t) (blockNum t) l s = None"
proof -
  from server_run_ok [OF assms(1,2)] have s: "server_ok env (history rs) s" .
  let ?h = "history rs (tag_key t)"
  from assms(4) server_okD(5) [OF s, of "tag_key t"] obtain es where v: "versions (pageVersionHashMap s) (tag_key t) = Some (es, r)"
    using assms(5) by (cases "versions (pageVersionHashMap s) (tag_key t)") (auto simp: tracks_def entries_def)
  note h = tracksD [OF server_okD(5) [OF s, of "tag_key t", unfolded v]]
  have "\<exists>e \<in> set es. lsn e \<le> l" if "x \<in> set ?h" "x \<le> l" for x
  proof
    have "hd ?h \<le> x" using h(1,3) that(1) by (cases ?h) (auto simp: less_imp_le)
    then show "lsn (hd es) \<le> l" unfolding h(4) using that(2) by simp
  qed (use h(9) in simp)
  moreover have "window r l es = []" if "\<forall>x \<in> set ?h. l < x" unfolding h(8) using that by (auto simp: filter_empty_conv not_le)
  ultimately have "if l < r then \<exists>e \<in> set es. lsn e \<le> l else r = 0 \<and> window r l es = []" using assms(6) by (auto split: if_splits)
  from ReadBufferCommon_unreadable [OF assms(1) s assms(3) v this] show ?thesis .
qed

theorem unreadable_page_faults_witness:
  "\<exists>s. server_run demo_env [demo_indexed_record] s \<and>
    ReadBufferCommon demo_env [] (reln_of (block_tag demo_block)) 0 40000 200 s = None"
proof -
  let ?t = "block_tag demo_block"
  obtain s es where s: "server_run demo_env [demo_indexed_record] s" "versions (pageVersionHashMap s) (tag_key ?t) = Some (es, 0)"
    using demo_indexed [of 200 "[]"] by (elim exE conjE) (rule that)
  then have "snd (entries (pageVersionHashMap s) (tag_key ?t)) = 0" by (auto simp: entries_def)
  then have "ReadBufferCommon demo_env [] (reln_of ?t) (forkNum ?t) (blockNum ?t) 200 s = None"
    by (intro unreadable_page_faults [OF demo_env_ok s(1), where r = 0]) (simp_all add: demo_history [unfolded One_nat_def] demo_tag)
  with s(1) show ?thesis unfolding demo_tag by blast
qed

text \<open>C26: the two handlers for relation sizes agree. In every reachable state \<open>RpcMdExists\<close> answers what
  the sign of the answer of \<open>RpcMdNblocks\<close> says, fails when it fails, and leaves the same state, provided
  that no size with the sign bit set is cached for the relation.\<close>

theorem exists_nblocks:
  assumes "env_ok env" and "server_run env rs s" and "f < 256"
    and "\<forall>n. GetRelSizeCache (TransRelNode2RelKey (reln_node rel) f) (relSizes s) = Some n \<longrightarrow> 0 \<le> sint n"
  shows "RpcMdExists env obs rel f l s = map_option (\<lambda>(n, s'). (0 \<le> sint n, s')) (RpcMdNblocks env obs rel f l s)"
proof (cases "WaitParse l obs s")
  case (Some s1)
  from server_run_ok [OF assms(1,2)] have s: "server_ok env (history rs) s" .
  let ?g = "GetRelSizeCache (TransRelNode2RelKey (reln_node rel) f) (relSizes s)"
  define n where "n = (case ?g of Some n \<Rightarrow> n | None \<Rightarrow> disk_size env s (reln_node rel) f)"
  obtain c where c: "RpcMdNblocks env obs rel f l s = Some (n, s1\<lparr>relSizes := c\<rparr>)"
    "RpcMdExists env obs rel f l s = Some (?g \<noteq> None \<or> 0 \<le> sint n, s1\<lparr>relSizes := c\<rparr>)"
    by (rule size_handlers_ok [OF assms(1) s assms(3) Some n_def])
  have "(?g \<noteq> None \<or> 0 \<le> sint n) = (0 \<le> sint n)" using assms(4) n_def by (cases ?g) simp_all
  then show ?thesis unfolding c by simp
qed (simp add: nblocks_alt exists_alt)

theorem exists_nblocks_witness:
  "\<exists>s s'. RpcMdNblocks demo_env [] (reln_of (block_tag demo_block)) 0 7 demo_start = Some (12, s) \<and>
    RpcMdExists demo_env [] (reln_of (block_tag demo_block)) 0 7 demo_start = Some (True, s) \<and>
    RpcMdNblocks demo_env [] (reln_of (block_tag demo_block)) 1 7 demo_start = Some (- 1, s') \<and>
    RpcMdExists demo_env [] (reln_of (block_tag demo_block)) 1 7 demo_start = Some (False, s')"
proof -
  let ?rel = "reln_of (block_tag demo_block)"
  have ok: "server_ok demo_env (\<lambda>k. []) demo_start" using server_run_ok [OF demo_env_ok demo_start_ok(1)] by simp
  have wait: "WaitParse 7 [] demo_start = Some demo_start" by (simp add: WaitParse_def demo_start_def)
  have disk: "disk_size demo_env demo_start rn 0 = 12" "disk_size demo_env demo_start rn 1 = - 1" for rn
    by (simp_all add: demo_disk)
  have nb: "\<exists>s. RpcMdNblocks demo_env [] ?rel f 7 demo_start = Some (disk_size demo_env demo_start (reln_node ?rel) f, s)"
    if "f < 256" for f
    by (rule size_handlers_ok [OF demo_env_ok ok that wait refl, of ?rel]) (auto simp: demo_start_ok(2))
  have none: "\<forall>n. GetRelSizeCache k (relSizes demo_start) = Some n \<longrightarrow> 0 \<le> sint n" for k by (simp add: demo_start_ok(2))
  have z: "(0 :: u32) < 256" "(1 :: u32) < 256" by simp_all
  obtain s where s: "RpcMdNblocks demo_env [] ?rel 0 7 demo_start = Some (12, s)" using nb [OF z(1), unfolded disk] ..
  obtain s' where s': "RpcMdNblocks demo_env [] ?rel 1 7 demo_start = Some (- 1, s')" using nb [OF z(2), unfolded disk] ..
  have "RpcMdExists demo_env [] ?rel 0 7 demo_start = Some (True, s)"
    unfolding exists_nblocks [OF demo_env_ok demo_start_ok(1) z(1) none] s by simp
  moreover have "RpcMdExists demo_env [] ?rel 1 7 demo_start = Some (False, s')"
    unfolding exists_nblocks [OF demo_env_ok demo_start_ok(1) z(2) none] s' by simp
  ultimately show ?thesis using s s' by blast
qed




text \<open>C28: a block reference to a relation that has no file yet and is not cached leaves the relation
  without a cached size: the size -1 that the redo process reports passes the unsigned comparison with
  the block number, and storing -1 stores nothing.\<close>

theorem absent_relation_uncached:
  assumes "env_ok env" and "server_run env rs s" and "in_use (blocks r i)" and "forknum (blocks r i) < 256"
    and "blkno (blocks r i) < - 2" and "k = TransRelNode2RelKey (blk_rnode (blocks r i)) (forknum (blocks r i))"
    and "disk_size env s (blk_rnode (blocks r i)) (forknum (blocks r i)) = - 1" and "GetRelSizeCache k (relSizes s) = None"
  shows "\<exists>s'. update_rel_size env r i s = Some s' \<and> GetRelSizeCache k (relSizes s') = None"
proof -
  from server_run_ok [OF assms(1,2)] have s: "server_ok env (history rs) s" .
  have b: "blkno (blocks r i) + 1 < - 1" using assms(5) by (simp add: block_no_end)
  have "sync_rel_size (env_redo env) (redoPool s) (blk_rnode (blocks r i)) (forknum (blocks r i)) (ReadRecPtr r) = Some (- 1, redoPool s)"
    unfolding assms(7) [symmetric] by (rule sync_rel_size_ok [OF assms(1) s assms(4)])
  then have "update_rel_size env r i s = Some (s\<lparr>relSizes := InsertRelSizeCache k (- 1) (relSizes s)\<rparr>)"
    using assms(3,8) b by (simp add: update_rel_size_def Let_def assms(6) [symmetric])
  then show ?thesis by (simp add: sizes.put_law(1) same_rel_def stored_def)
qed

theorem absent_relation_uncached_witness:
  "\<exists>s'. update_rel_size demo_env (demo_record\<lparr>blocks := \<lambda>_. demo_block\<lparr>forknum := 1, blkno := 4\<rparr>\<rparr>) 0 demo_start = Some s' \<and>
    GetRelSizeCache (TransRelNode2RelKey (blk_rnode demo_block) 1) (relSizes s') = None"
  using absent_relation_uncached [OF demo_env_ok demo_start_ok(1),
      of "demo_record\<lparr>blocks := \<lambda>_. demo_block\<lparr>forknum := 1, blkno := 4\<rparr>\<rparr>" 0, OF _ _ _ refl]
  by (auto simp: demo_block_def demo_start_ok(2) demo_disk)

text \<open>C29: a request that has to wait for the index returns exactly when, at one of its polls, the index
  has come to within 64 bytes of the smaller one of the requested LSN and the end of the WAL, or the
  temporary end of the WAL was announced; it then continues with the state of the first such poll and
  takes the announcement back.\<close>

theorem wait_returns:
  assumes "XLogParseUpto s < l" and "XLogParseUpto s < RpcXLogFlushedLsn s" and "XLogParseUpto s \<noteq> 0"
    and "ready = (\<lambda>(u, reached). min l (RpcXLogFlushedLsn s) - 64 \<le> u \<or> reached)"
  shows "WaitParse l obs s = map_option (\<lambda>(u, reached). s\<lparr>XLogParseUpto := u, reachXlogTempEnd := False\<rparr>) (List.find ready obs) \<and>
    (WaitParse l obs s \<noteq> None \<longleftrightarrow> (\<exists>x \<in> set obs. ready x))"
proof -
  have loop: "wait_loop (min l (RpcXLogFlushedLsn s)) obs = map_option fst (List.find ready obs)" for obs
  proof (induction obs)
    case (Cons x obs)
    then show ?case by (cases x) (simp add: assms(4) not_le [symmetric])
  qed simp
  have "(if l < RpcXLogFlushedLsn s then l else RpcXLogFlushedLsn s) = min l (RpcXLogFlushedLsn s)"
    by (auto simp: min_def not_less)
  with assms(1-3) loop [of obs] have wait: "WaitParse l obs s =
      map_option (\<lambda>(u, reached). s\<lparr>XLogParseUpto := u, reachXlogTempEnd := False\<rparr>) (List.find ready obs)"
    by (cases "List.find ready obs") (auto simp: WaitParse_def Let_def)
  then show ?thesis by (auto simp: find_None_iff)
qed

theorem wait_returns_witness:
  "WaitParse 500 [(150, False), (450, False)] (demo_start\<lparr>XLogParseUpto := 100, RpcXLogFlushedLsn := 1000\<rparr>) =
    Some (demo_start\<lparr>XLogParseUpto := 450, RpcXLogFlushedLsn := 1000\<rparr>)"
proof -
  let ?s = "demo_start\<lparr>XLogParseUpto := 100, RpcXLogFlushedLsn := 1000\<rparr>"
  have "reachXlogTempEnd demo_start = False" by (simp add: demo_start_def)
  then show ?thesis using wait_returns [of ?s 500, OF _ _ _ refl, of "[(150, False), (450, False)]"] by (simp add: min_def)
qed

end
