(* ===== verification/VacuumProps.thy ===== *)
theory VacuumProps
  imports ServerProps
begin

text \<open>
  The properties of the background vacuumer: it never loses a record that is not replayed, and which
  pages of a bucket one of its rounds reaches.
\<close>

section \<open>The heads a round reaches\<close>

text \<open>The heads that round \<open>n\<close> of the scan of a bucket visits are the ten from position \<open>batch_start n\<close> on.\<close>

definition batch_start :: "nat \<Rightarrow> nat" where
  "batch_start n = 5 * n * n + 15 * n"

definition reached :: "nat \<Rightarrow> bool" where
  "reached j \<longleftrightarrow> (\<exists>n. batch_start n \<le> j \<and> j < batch_start n + 10)"

lemma batch_start_Suc: "batch_start (Suc n) - 10 * Suc n = batch_start n + 10"
  by (simp add: batch_start_def algebra_simps)

lemma batch_start_mono: "m \<le> n \<Longrightarrow> batch_start m \<le> batch_start n"
  unfolding batch_start_def by (intro add_mono mult_le_mono) auto

lemma batch_start_ge: "10 * n \<le> batch_start n"
  by (cases n) (simp_all add: batch_start_def)

lemma in_set_batch: "x \<in> set (take k (drop d as)) \<longleftrightarrow> (\<exists>j. x = as ! j \<and> j < length as \<and> d \<le> j \<and> j < d + k)"
proof
  assume "x \<in> set (take k (drop d as))"
  then obtain i where "i < k" "i < length as - d" "x = as ! (d + i)" by (auto simp: in_set_conv_nth)
  then show "\<exists>j. x = as ! j \<and> j < length as \<and> d \<le> j \<and> j < d + k" by (intro exI [of _ "d + i"]) auto
next
  assume "\<exists>j. x = as ! j \<and> j < length as \<and> d \<le> j \<and> j < d + k"
  then obtain j where "x = as ! j" "j < length as" "d \<le> j" "j < d + k" by blast
  then show "x \<in> set (take k (drop d as))" by (auto simp: in_set_conv_nth intro!: exI [of _ "j - d"])
qed

lemma visit_order_from:
  "x \<in> set (visit_order (10 * n) (drop (batch_start n - 10 * n) as)) \<longleftrightarrow>
   (\<exists>j m. x = as ! j \<and> j < length as \<and> n \<le> m \<and> batch_start m \<le> j \<and> j < batch_start m + 10)"
proof (induction "length as - batch_start n" arbitrary: n rule: less_induct)
  case less
  let ?r = "drop (batch_start n) as"
  define P where "P m \<longleftrightarrow> (\<exists>j. x = as ! j \<and> j < length as \<and> batch_start m \<le> j \<and> j < batch_start m + 10)" for m
  have split: "(\<exists>m. n \<le> m \<and> P m) \<longleftrightarrow> P n \<or> (\<exists>m. Suc n \<le> m \<and> P m)" by (metis Suc_le_eq le_eq_less_or_eq)
  have rest: "drop (10 * n) (drop (batch_start n - 10 * n) as) = ?r" using batch_start_ge [of n] by simp
  have step: "visit_order (10 * n) (drop (batch_start n - 10 * n) as) =
      take 10 ?r @ (if length ?r < 10 then [] else visit_order (10 * Suc n) (drop 10 ?r))"
    unfolding visit_order.simps [of "10 * n"] rest Let_def by (simp add: add.commute)
  have batch: "x \<in> set (take 10 ?r) \<longleftrightarrow> P n" by (simp only: in_set_batch P_def)
  have later: "batch_start n + 10 \<le> batch_start (Suc n)" using batch_start_Suc [of n] by linarith
  have "x \<in> set (visit_order (10 * n) (drop (batch_start n - 10 * n) as)) \<longleftrightarrow> (\<exists>m. n \<le> m \<and> P m)"
  proof (cases "length ?r < 10")
    case True
    have "\<not> P m" if "Suc n \<le> m" for m
    proof -
      have "length as \<le> batch_start m" using True later batch_start_mono [OF that] by simp
      then show ?thesis unfolding P_def by auto
    qed
    then show ?thesis unfolding split step using True batch by auto
  next
    case False
    have "drop 10 ?r = drop (batch_start (Suc n) - 10 * Suc n) as" unfolding batch_start_Suc by (simp add: add.commute)
    moreover have "length as - batch_start (Suc n) < length as - batch_start n" using False later by simp
    ultimately have "x \<in> set (visit_order (10 * Suc n) (drop 10 ?r)) \<longleftrightarrow> (\<exists>m. Suc n \<le> m \<and> P m)"
      using less [of "Suc n"] unfolding P_def by auto
    then show ?thesis unfolding split step using False batch by auto
  qed
  then show ?case unfolding P_def by blast
qed

lemma visit_order_reached: "x \<in> set (visit_order 0 as) \<longleftrightarrow> (\<exists>j. x = as ! j \<and> j < length as \<and> reached j)"
  using visit_order_from [of x 0 as] by (auto simp: batch_start_def reached_def)

section \<open>Properties\<close>



text \<open>C31: one round over a bucket that no other thread has and that was not visited a moment ago. The head
  at position \<open>j\<close> of the bucket replays its oldest unreplayed records, 20 at most, when its last visit is
  five minutes ago and \<open>j\<close> lies in one of the windows of ten positions that start at \<open>5 n\<^sup>2 + 15 n\<close>; every
  other head stays as it is, those at the positions 10 to 19, 30 to 49, 60 to 89 and so on among them.\<close>

theorem bucket_round:
  assumes "env_ok env" and "server_run env rs s" and "m = pageVersionHashMap s" and "i < length (bucketList m)"
    and "\<not> skipped now (bucketList m ! i)" and "j < length (head_list m i)" and "heads m (head_list m i ! j) = Some h"
  shows "\<exists>s' v. clean_bucket env now clock fin i s = Some s' \<and> versions (pageVersionHashMap s') (key h) = Some v \<and>
    (if reached j \<and> due clock (head_list m i ! j) h then advances (head_version m h) v else v = head_version m h)"
proof -
  let ?a = "head_list m i ! j"
  have s: "server_ok env (history rs) s" by (rule server_run_ok [OF assms(1,2)])
  have ok: "hm_ok m" using server_okD(1) [OF s] assms(3) by (simp add: hm_free_def)
  obtain m1 m2 s' where s': "clean_bucket env now clock fin i s = Some s'" "heads m1 = heads m" "hm_free m1" "versions m1 = versions m"
    "visited clock (set (visit_order 0 (head_list m i))) m1 m2" "versions (pageVersionHashMap s') = versions m2"
    using clean_bucket_visits [OF assms(1) s, of i now clock fin] assms(3-5) by blast
  have v: "versions m (key h) = Some (head_version m h)" using versions_locate [OF ok assms(7)] by (simp add: head_version_def)
  have h: "heads m1 ?a = Some h" using s'(2) assms(7) by simp
  have v1: "head_version m1 h = head_version m h"
    using versions_locate [of m1, OF _ h] s'(3,4) v by (simp add: hm_free_def head_version_def)
  have "distinct (head_list m i)" using bucket_lseg [OF ok assms(4)] by (rule lseg_distinct)
  then have "?a \<in> set (visit_order 0 (head_list m i)) \<longleftrightarrow> reached j"
    unfolding visit_order_reached using assms(6) by (auto simp: nth_eq_iff_index_eq)
  then show ?thesis using visitedD(4,5) [OF s'(5) h] s'(1,4,6) v v1
    by (cases "reached j \<and> due clock ?a h"; cases "head_version m h") auto
qed

declare addrs.simps [code] find_head.simps [code]

lemma demo_buckets:
  assumes "map_option snd (ParseLogIndexXlog bump_alloc demo_indexed_record (HashMapInit 8)) = Some m" "i < 8"
  shows "length (bucketList m) = 8" "\<not> skipped \<lparr>tv_sec = 0, tv_usec = 400\<rparr> (bucketList m ! i)" "length (head_list m i) < 10"
    "a \<in> set (head_list m i) \<Longrightarrow> finishVacuumTime (the (heads m a)) = zero_time"
proof -
  have "map_option (\<lambda>m. length (bucketList m) = 8 \<and> list_all (\<lambda>i. \<not> skipped \<lparr>tv_sec = 0, tv_usec = 400\<rparr> (bucketList m ! i) \<and>
      length (head_list m i) < 10 \<and> list_all (\<lambda>a. finishVacuumTime (the (heads m a)) = zero_time) (head_list m i)) [0..<8])
    (map_option snd (ParseLogIndexXlog bump_alloc demo_indexed_record (HashMapInit 8))) = Some True" by code_simp
  then show "length (bucketList m) = 8" "\<not> skipped \<lparr>tv_sec = 0, tv_usec = 400\<rparr> (bucketList m ! i)" "length (head_list m i) < 10"
    "a \<in> set (head_list m i) \<Longrightarrow> finishVacuumTime (the (heads m a)) = zero_time"
    unfolding assms(1) using assms(2) by (auto simp: list_all_iff)
qed

theorem bucket_round_witness:
  "\<exists>s s' es i. server_run demo_env [demo_indexed_record] s \<and>
    clean_bucket demo_env \<lparr>tv_sec = 0, tv_usec = 400\<rparr> (\<lambda>_. \<lparr>tv_sec = 900, tv_usec = 0\<rparr>) zero_time i s = Some s' \<and>
    map_option snd (versions (pageVersionHashMap s) (tag_key (block_tag demo_block))) = Some 0 \<and>
    map_option snd (versions (pageVersionHashMap s') (tag_key (block_tag demo_block))) = Some 300"
proof -
  let ?k = "tag_key (block_tag demo_block)" and ?clock = "\<lambda>_. \<lparr>tv_sec = 900, tv_usec = 0\<rparr>"
  obtain s es where run: "server_run demo_env [demo_indexed_record] s"
    and v: "versions (pageVersionHashMap s) ?k = Some (es, 0)" "map lsn es = [300]"
    and map: "map_option snd (ParseLogIndexXlog bump_alloc demo_indexed_record (HashMapInit 8)) = Some (pageVersionHashMap s)"
    using demo_indexed [of 400 "[]"] by (elim exE conjE) (rule that)
  let ?m = "pageVersionHashMap s"
  have ok: "hm_ok ?m" using server_okD(1) [OF server_run_ok [OF demo_env_ok run]] by (simp add: hm_free_def)
  obtain a h where h: "heads ?m a = Some h" "key h = ?k" "head_version ?m h = (es, 0)" using versions_iff [OF ok] v(1) by metis
  note len = demo_buckets(1) [OF map, of 0, simplified]
  have i: "bucket h < 8" "a \<in> set (head_list ?m (bucket h))" using hm_okD(5,6) [OF ok h(1)] len by simp_all
  then obtain j where j: "j < length (head_list ?m (bucket h))" "head_list ?m (bucket h) ! j = a" by (auto simp: in_set_conv_nth)
  have "reached j" unfolding reached_def batch_start_def using j(1) demo_buckets(3) [OF map i(1)] by (intro exI [of _ 0]) simp
  moreover have "due ?clock a h" using demo_buckets(4) [OF map i] h(1) by (simp add: due_def zero_time_def)
  moreover have "unreplayed 0 es = [300]" using v(2) by (cases es) auto
  ultimately show ?thesis
    using bucket_round [OF demo_env_ok run refl _ demo_buckets(2) [OF map i(1)] j(1), of h ?clock zero_time] len h j(2) i(1) v(1) run
    by (fastforce simp: advances_def)
qed

end
