(* ===== verification/LruCache.thy ===== *)
theory LruCache
  imports PageVersionMap KvStore
begin

unbundle bit_operations_syntax

text \<open>
  The cache of the memory pool (\<open>include/storage/DSMEngine/cache.h\<close>,
  \<open>backend/storage/DSMEngine/cache.cc\<close>): a hash table from page keys to handles, two circular doubly
  linked lists of handles, reference counts, and the shards. Handles live in a heap; the heads of the
  two lists are handles of their own. Every operation runs under the mutex of its shard, so that the
  operations of a shard follow each other (\<open>BUFFER_HANDOVER\<close> is defined in the source, \<open>EARLY_LOCK_RELEASE\<close> is not). A failing \<open>assert\<close> is a fault.
\<close>

section \<open>Data\<close>

text \<open>The fields of a handle that the cache reads; the state of the remote lock is written and never read.\<close>

record LRUHandle =
  h_value :: ptr
  h_refs :: u32
  h_page_id :: KeyType
  h_deleter :: ptr
  h_next_hash :: ptr
  h_next :: ptr
  h_prev :: ptr
  h_charge :: u64
  h_in_cache :: bool
  h_hash :: u32

record HandleTable =
  t_length :: u32
  t_elems :: u32
  t_list :: "ptr list"

text \<open>\<open>deleted\<close> are the calls of deleters, each with the handle it got, in order.\<close>

record LRUCache =
  handles :: "addr \<rightharpoonup> LRUHandle"
  c_capacity :: u64
  c_usage :: u64
  lru_head :: addr
  in_use_head :: addr
  c_table :: HandleTable
  deleted :: "(addr \<times> addr) list"

type_synonym FreeList = "addr list"

definition KeyTypeCmp :: "KeyType \<Rightarrow> KeyType \<Rightarrow> bool" where
  "KeyTypeCmp a b \<longleftrightarrow> SpcID a = SpcID b \<and> DbID a = DbID b \<and> RelID a = RelID b \<and>
     ForkNum a = ForkNum b \<and> BlkNum a = BlkNum b"

definition assertion :: "bool \<Rightarrow> unit option" where
  "assertion b = (if b then Some () else None)"

definition upd_handle :: "addr \<Rightarrow> (LRUHandle \<Rightarrow> LRUHandle) \<Rightarrow> LRUCache \<Rightarrow> LRUCache option" where
  "upd_handle a f c = do { h \<leftarrow> handles c a; Some (c\<lparr>handles := (handles c)(a \<mapsto> f h)\<rparr>) }"

text \<open>The method \<open>key\<close> of a handle.\<close>

definition handle_key :: "addr \<Rightarrow> LRUHandle \<Rightarrow> KeyType option" where
  "handle_key a h = do { _ \<leftarrow> assertion (h_next h \<noteq> Some a); Some (h_page_id h) }"

section \<open>The hash table\<close>

text \<open>A pointer to a pointer: an entry of the array, or the link of a handle.\<close>

datatype slot = Entry nat | Link addr

fun read_slot :: "LRUCache \<Rightarrow> slot \<Rightarrow> ptr option" where
  "read_slot c (Entry i) = arr_get (t_list (c_table c)) (int i)"
| "read_slot c (Link a) = map_option h_next_hash (handles c a)"

fun write_slot :: "slot \<Rightarrow> ptr \<Rightarrow> LRUCache \<Rightarrow> LRUCache option" where
  "write_slot (Entry i) p c =
     do { xs \<leftarrow> arr_upd (t_list (c_table c)) (int i) (\<lambda>_. p); Some (c\<lparr>c_table := (c_table c)\<lparr>t_list := xs\<rparr>\<rparr>) }"
| "write_slot (Link a) p c = upd_handle a (\<lambda>h. h\<lparr>h_next_hash := p\<rparr>) c"

partial_function (option) find_slot :: "LRUCache \<Rightarrow> KeyType \<Rightarrow> u32 \<Rightarrow> slot \<Rightarrow> slot option" where
  "find_slot c k hash s =
     do { p \<leftarrow> read_slot c s;
          (case p of
             None \<Rightarrow> Some s
           | Some a \<Rightarrow>
               do { h \<leftarrow> handles c a;
                    differ \<leftarrow> (if h_hash h \<noteq> hash then Some True else do { k' \<leftarrow> handle_key a h; Some (\<not> KeyTypeCmp k k') });
                    if differ then find_slot c k hash (Link a) else Some s }) }"

definition FindPointer :: "LRUCache \<Rightarrow> KeyType \<Rightarrow> u32 \<Rightarrow> slot option" where
  "FindPointer c k hash = find_slot c k hash (Entry (unat (hash AND (t_length (c_table c) - 1))))"

definition table_Lookup :: "LRUCache \<Rightarrow> KeyType \<Rightarrow> u32 \<Rightarrow> ptr option" where
  "table_Lookup c k hash = do { s \<leftarrow> FindPointer c k hash; read_slot c s }"

text \<open>The doubling wraps to 0 for more than \<open>2\<^sup>3\<^sup>1\<close> elements and does not end then.\<close>

partial_function (option) new_length :: "u32 \<Rightarrow> u32 \<Rightarrow> u32 option" where
  "new_length elems n = (if n < elems then new_length elems (n * 2) else Some n)"

partial_function (option) rehash_chain ::
    "u32 \<Rightarrow> ptr \<Rightarrow> (addr \<rightharpoonup> LRUHandle) \<times> ptr list \<times> u32 \<Rightarrow> ((addr \<rightharpoonup> LRUHandle) \<times> ptr list \<times> u32) option" where
  "rehash_chain n p st =
     (case p of
        None \<Rightarrow> Some st
      | Some a \<Rightarrow>
          (case st of (hp, new_list, count) \<Rightarrow>
             do { h \<leftarrow> hp a;
                  let i = int (unat (h_hash h AND (n - 1)));
                  q \<leftarrow> arr_get new_list i;
                  new_list \<leftarrow> arr_upd new_list i (\<lambda>_. Some a);
                  rehash_chain n (h_next_hash h) (hp(a \<mapsto> h\<lparr>h_next_hash := q\<rparr>), new_list, count + 1) }))"

definition Resize :: "LRUCache \<Rightarrow> LRUCache option" where
  "Resize c =
     do { n \<leftarrow> new_length (t_elems (c_table c)) 4;
          (hp, new_list, count) \<leftarrow> foldm (\<lambda>i st. do { p \<leftarrow> arr_get (t_list (c_table c)) (int i); rehash_chain n p st })
            [0..<unat (t_length (c_table c))] (handles c, replicate (unat n) None, 0);
          _ \<leftarrow> assertion (t_elems (c_table c) = count);
          Some (c\<lparr>handles := hp, c_table := (c_table c)\<lparr>t_list := new_list, t_length := n\<rparr>\<rparr>) }"

definition table_Insert :: "addr \<Rightarrow> LRUCache \<Rightarrow> (LRUCache \<times> ptr) option" where
  "table_Insert a c =
     do { h \<leftarrow> handles c a;
          k \<leftarrow> handle_key a h;
          s \<leftarrow> FindPointer c k (h_hash h);
          old \<leftarrow> read_slot c s;
          nh \<leftarrow> (case old of None \<Rightarrow> Some None | Some b \<Rightarrow> map_option h_next_hash (handles c b));
          c \<leftarrow> upd_handle a (\<lambda>h. h\<lparr>h_next_hash := nh\<rparr>) c;
          c \<leftarrow> write_slot s (Some a) c;
          c \<leftarrow> (case old of
                 Some b \<Rightarrow> Some c
               | None \<Rightarrow> (let c = c\<lparr>c_table := (c_table c)\<lparr>t_elems := t_elems (c_table c) + 1\<rparr>\<rparr>
                         in if t_length (c_table c) < t_elems (c_table c) then Resize c else Some c));
          Some (c, old) }"

definition table_Remove :: "KeyType \<Rightarrow> u32 \<Rightarrow> LRUCache \<Rightarrow> (LRUCache \<times> ptr) option" where
  "table_Remove k hash c =
     do { s \<leftarrow> FindPointer c k hash;
          result \<leftarrow> read_slot c s;
          (case result of
             None \<Rightarrow> Some (c, None)
           | Some a \<Rightarrow>
               do { h \<leftarrow> handles c a;
                    c \<leftarrow> write_slot s (h_next_hash h) c;
                    Some (c\<lparr>c_table := (c_table c)\<lparr>t_elems := t_elems (c_table c) - 1\<rparr>\<rparr>, Some a) }) }"

section \<open>The lists and the reference counts\<close>

definition LRU_Remove :: "addr \<Rightarrow> LRUCache \<Rightarrow> LRUCache option" where
  "LRU_Remove e c =
     do { h \<leftarrow> handles c e;
          n \<leftarrow> h_next h;
          c \<leftarrow> upd_handle n (\<lambda>x. x\<lparr>h_prev := h_prev h\<rparr>) c;
          h \<leftarrow> handles c e;
          p \<leftarrow> h_prev h;
          upd_handle p (\<lambda>x. x\<lparr>h_next := h_next h\<rparr>) c }"

definition LRU_Append :: "addr \<Rightarrow> addr \<Rightarrow> LRUCache \<Rightarrow> LRUCache option" where
  "LRU_Append list e c =
     do { c \<leftarrow> upd_handle e (\<lambda>x. x\<lparr>h_next := Some list\<rparr>) c;
          l \<leftarrow> handles c list;
          c \<leftarrow> upd_handle e (\<lambda>x. x\<lparr>h_prev := h_prev l\<rparr>) c;
          p \<leftarrow> h_prev l;
          c \<leftarrow> upd_handle p (\<lambda>x. x\<lparr>h_next := Some e\<rparr>) c;
          h \<leftarrow> handles c e;
          n \<leftarrow> h_next h;
          upd_handle n (\<lambda>x. x\<lparr>h_prev := Some e\<rparr>) c }"

definition Ref :: "addr \<Rightarrow> LRUCache \<Rightarrow> LRUCache option" where
  "Ref e c =
     do { h \<leftarrow> handles c e;
          c \<leftarrow> (if h_refs h = 1 \<and> h_in_cache h
               then do { c \<leftarrow> LRU_Remove e c; LRU_Append (in_use_head c) e c } else Some c);
          upd_handle e (\<lambda>h. h\<lparr>h_refs := h_refs h + 1\<rparr>) c }"

definition delete_handle :: "addr \<Rightarrow> LRUCache \<Rightarrow> LRUCache option" where
  "delete_handle e c =
     do { h \<leftarrow> handles c e;
          let c = (case h_deleter h of None \<Rightarrow> c | Some d \<Rightarrow> c\<lparr>deleted := deleted c @ [(d, e)]\<rparr>);
          Some (c\<lparr>handles := (handles c)(e := None)\<rparr>) }"

definition Unref :: "addr \<Rightarrow> LRUCache \<Rightarrow> LRUCache option" where
  "Unref e c =
     do { h \<leftarrow> handles c e;
          _ \<leftarrow> assertion (0 < h_refs h);
          c \<leftarrow> upd_handle e (\<lambda>h. h\<lparr>h_refs := h_refs h - 1\<rparr>) c;
          if h_refs h - 1 = 0
          then do { _ \<leftarrow> assertion (\<not> h_in_cache h); delete_handle e c }
          else if h_in_cache h \<and> h_refs h - 1 = 1
          then do { c \<leftarrow> LRU_Remove e c; LRU_Append (lru_head c) e c }
          else Some c }"

definition FinishErase :: "ptr \<Rightarrow> LRUCache \<Rightarrow> (LRUCache \<times> bool) option" where
  "FinishErase e c =
     (case e of
        None \<Rightarrow> Some (c, False)
      | Some a \<Rightarrow>
          do { h \<leftarrow> handles c a;
               _ \<leftarrow> assertion (h_in_cache h);
               c \<leftarrow> LRU_Remove a c;
               c \<leftarrow> upd_handle a (\<lambda>h. h\<lparr>h_in_cache := False\<rparr>) c;
               c \<leftarrow> Unref a (c\<lparr>c_usage := c_usage c - h_charge h\<rparr>);
               Some (c, True) })"

section \<open>A shard\<close>

text \<open>\<open>lru\<close> and \<open>use\<close> are the addresses of the list heads, which are part of the object.\<close>

definition list_head :: "addr \<Rightarrow> LRUHandle" where
  "list_head a = \<lparr>h_value = None, h_refs = 0, h_page_id = \<lparr>SpcID = 0, DbID = 0, RelID = 0, ForkNum = 0, BlkNum = 0\<rparr>,
     h_deleter = None, h_next_hash = None, h_next = Some a, h_prev = Some a, h_charge = 0, h_in_cache = False, h_hash = 0\<rparr>"

definition LRUCache_new :: "addr \<Rightarrow> addr \<Rightarrow> LRUCache option" where
  "LRUCache_new lru use =
     Resize \<lparr>handles = [lru \<mapsto> list_head lru, use \<mapsto> list_head use], c_capacity = 0, c_usage = 0, lru_head = lru, in_use_head = use,
       c_table = \<lparr>t_length = 0, t_elems = 0, t_list = []\<rparr>, deleted = []\<rparr>"

definition SetCapacity :: "u64 \<Rightarrow> LRUCache \<Rightarrow> LRUCache" where
  "SetCapacity n c = c\<lparr>c_capacity := n\<rparr>"

definition Lookup :: "KeyType \<Rightarrow> u32 \<Rightarrow> LRUCache \<Rightarrow> (LRUCache \<times> ptr) option" where
  "Lookup k hash c =
     do { e \<leftarrow> table_Lookup c k hash;
          (case e of
             None \<Rightarrow> Some (c, None)
           | Some a \<Rightarrow> do { h \<leftarrow> handles c a; _ \<leftarrow> assertion (1 \<le> h_refs h); c \<leftarrow> Ref a c; Some (c, Some a) }) }"

text \<open>The oldest unused entries go until the shard fits; the first of them hands its value over to the new
  entry \<open>e\<close> when that has none. The flag says whether this happened.\<close>

partial_function (option) evict :: "bool \<Rightarrow> addr \<Rightarrow> ptr \<Rightarrow> bool \<Rightarrow> LRUCache \<Rightarrow> (LRUCache \<times> bool) option" where
  "evict insert_only e value reused c =
     do { l \<leftarrow> handles c (lru_head c);
          if c_capacity c < c_usage c \<and> h_next l \<noteq> Some (lru_head c)
          then do { old \<leftarrow> h_next l;
                    o' \<leftarrow> handles c old;
                    _ \<leftarrow> assertion (h_refs o' = 1);
                    c \<leftarrow> upd_handle e (\<lambda>h. if \<not> insert_only \<and> h_value h = None then h\<lparr>h_value := h_value o'\<rparr> else h) c;
                    c \<leftarrow> (if value = None \<and> \<not> reused then upd_handle e (\<lambda>h. h\<lparr>h_value := h_value o'\<rparr>) c else Some c);
                    k \<leftarrow> handle_key old o';
                    (c, r) \<leftarrow> table_Remove k (h_hash o') c;
                    (c, erased) \<leftarrow> FinishErase r c;
                    _ \<leftarrow> assertion erased;
                    evict insert_only e value (reused \<or> value = None) c }
          else Some (c, reused) }"

abbreviation kPageSizes :: u64 where "kPageSizes \<equiv> 2 * (2 * 1024 + 8)"

text \<open>A new handle, entered into the table and the list of used handles.\<close>

definition new_handle :: "addr \<Rightarrow> KeyType \<Rightarrow> u32 \<Rightarrow> ptr \<Rightarrow> u64 \<Rightarrow> ptr \<Rightarrow> LRUHandle" where
  "new_handle a k hash value charge deleter = \<lparr>h_value = value, h_refs = 1, h_page_id = k, h_deleter = deleter, h_next_hash = None,
     h_next = None, h_prev = None, h_charge = charge, h_in_cache = False, h_hash = hash\<rparr>"

definition enter_handle :: "addr \<Rightarrow> u64 \<Rightarrow> LRUCache \<Rightarrow> LRUCache option" where
  "enter_handle e charge c =
     (if 0 < c_capacity c
      then do { c \<leftarrow> upd_handle e (\<lambda>h. h\<lparr>h_refs := h_refs h + 1, h_in_cache := True\<rparr>) c;
                c \<leftarrow> LRU_Append (in_use_head c) e c;
                (c, old) \<leftarrow> table_Insert e (c\<lparr>c_usage := c_usage c + charge\<rparr>);
                (c, _) \<leftarrow> FinishErase old c;
                Some c }
      else upd_handle e (\<lambda>h. h\<lparr>h_next := None\<rparr>) c)"

text \<open>The free list: \<open>pop_front\<close> of an empty list is a null pointer.\<close>

fun pop_front :: "FreeList \<Rightarrow> ptr \<times> FreeList" where
  "pop_front [] = (None, [])"
| "pop_front (x # xs) = (Some x, xs)"

definition push_back :: "addr \<Rightarrow> FreeList \<Rightarrow> FreeList" where
  "push_back x fl = fl @ [x]"

text \<open>The new handle has the address \<open>e\<close>; \<open>fl\<close> is the free list that the shards share.\<close>

definition LookupInsert ::
    "addr \<Rightarrow> KeyType \<Rightarrow> u32 \<Rightarrow> ptr \<Rightarrow> u64 \<Rightarrow> ptr \<Rightarrow> LRUCache \<Rightarrow> FreeList \<Rightarrow> (LRUCache \<times> FreeList \<times> addr) option" where
  "LookupInsert e k hash value charge deleter c fl =
     do { found \<leftarrow> table_Lookup c k hash;
          (case found of
             Some a \<Rightarrow> do { h \<leftarrow> handles c a; _ \<leftarrow> assertion (1 \<le> h_refs h); c \<leftarrow> Ref a c; Some (c, fl, a) }
           | None \<Rightarrow>
               do { c \<leftarrow> enter_handle e charge (c\<lparr>handles := (handles c)(e \<mapsto> new_handle e k hash value charge deleter)\<rparr>);
                    _ \<leftarrow> assertion (c_usage c \<le> c_capacity c + kPageSizes);
                    (c, reused) \<leftarrow> evict False e value False c;
                    _ \<leftarrow> assertion (c_usage c \<le> c_capacity c);
                    if value = None \<and> \<not> reused
                    then do { let (v, fl) = pop_front fl; c \<leftarrow> upd_handle e (\<lambda>h. h\<lparr>h_value := v\<rparr>) c; Some (c, fl, e) }
                    else Some (c, fl, e) }) }"

definition Insert ::
    "addr \<Rightarrow> KeyType \<Rightarrow> u32 \<Rightarrow> ptr \<Rightarrow> u64 \<Rightarrow> ptr \<Rightarrow> LRUCache \<Rightarrow> FreeList \<Rightarrow> (LRUCache \<times> FreeList \<times> addr) option" where
  "Insert e k hash value charge deleter c fl =
     do { c \<leftarrow> enter_handle e charge (c\<lparr>handles := (handles c)(e \<mapsto> new_handle e k hash value charge deleter)\<rparr>);
          _ \<leftarrow> assertion (c_usage c \<le> c_capacity c + kPageSizes);
          (c, reused) \<leftarrow> evict True e value False c;
          if value = None \<and> \<not> reused
          then do { let (v, fl) = pop_front fl; c \<leftarrow> upd_handle e (\<lambda>h. h\<lparr>h_value := v\<rparr>) c; Some (c, fl, e) }
          else Some (c, fl, e) }"

definition Release :: "addr \<Rightarrow> LRUCache \<Rightarrow> LRUCache option" where
  "Release e c = Unref e c"

definition Erase :: "KeyType \<Rightarrow> u32 \<Rightarrow> LRUCache \<Rightarrow> LRUCache option" where
  "Erase k hash c = do { (c, r) \<leftarrow> table_Remove k hash c; (c, _) \<leftarrow> FinishErase r c; Some c }"

partial_function (option) Prune :: "LRUCache \<Rightarrow> LRUCache option" where
  "Prune c =
     do { l \<leftarrow> handles c (lru_head c);
          if h_next l \<noteq> Some (lru_head c)
          then do { e \<leftarrow> h_next l;
                    h \<leftarrow> handles c e;
                    _ \<leftarrow> assertion (h_refs h = 1);
                    k \<leftarrow> handle_key e h;
                    (c, r) \<leftarrow> table_Remove k (h_hash h) c;
                    (c, erased) \<leftarrow> FinishErase r c;
                    _ \<leftarrow> assertion erased;
                    Prune c }
          else Some c }"

definition TotalCharge :: "LRUCache \<Rightarrow> u64" where
  "TotalCharge c = c_usage c"

text \<open>The destructor: every handle must have been given back.\<close>

partial_function (option) destroy_list :: "ptr \<Rightarrow> LRUCache \<Rightarrow> LRUCache option" where
  "destroy_list p c =
     do { e \<leftarrow> p;
          if e = lru_head c then Some c
          else do { h \<leftarrow> handles c e;
                    _ \<leftarrow> assertion (h_in_cache h);
                    c \<leftarrow> upd_handle e (\<lambda>h. h\<lparr>h_in_cache := False\<rparr>) c;
                    _ \<leftarrow> assertion (h_refs h = 1);
                    c \<leftarrow> Unref e c;
                    destroy_list (h_next h) c } }"

definition LRUCache_destroy :: "LRUCache \<Rightarrow> LRUCache option" where
  "LRUCache_destroy c =
     do { u \<leftarrow> handles c (in_use_head c);
          _ \<leftarrow> assertion (h_next u = Some (in_use_head c));
          l \<leftarrow> handles c (lru_head c);
          destroy_list (h_next l) c }"

end
