(* ===== verification/LruRing.thy ===== *)
theory LruRing
  imports LruCache
begin

text \<open>
  The circular doubly linked lists of the cache: what it means for a list of handles to hang on a list
  head, and that taking a handle out and appending one do what they should.
\<close>

section \<open>Rings\<close>

definition linked :: "(addr \<rightharpoonup> LRUHandle) \<Rightarrow> addr \<Rightarrow> addr \<Rightarrow> bool" where
  "linked hp a b \<longleftrightarrow> map_option h_next (hp a) = Some (Some b) \<and> map_option h_prev (hp b) = Some (Some a)"

primrec path :: "(addr \<rightharpoonup> LRUHandle) \<Rightarrow> addr \<Rightarrow> addr list \<Rightarrow> addr \<Rightarrow> bool" where
  "path hp a [] b = linked hp a b"
| "path hp a (x # xs) b = (linked hp a x \<and> path hp x xs b)"

definition ring :: "(addr \<rightharpoonup> LRUHandle) \<Rightarrow> addr \<Rightarrow> addr list \<Rightarrow> bool" where
  "ring hp s xs \<longleftrightarrow> path hp s xs s \<and> distinct (s # xs)"

lemma path_append: "path hp a (xs @ y # ys) b \<longleftrightarrow> path hp a xs y \<and> path hp y ys b"
  by (induction xs arbitrary: a) auto

lemma path_cong:
  assumes "\<And>x. x \<in> set (a # xs) \<Longrightarrow> map_option h_next (hp' x) = map_option h_next (hp x)"
    and "\<And>x. x \<in> set (xs @ [b]) \<Longrightarrow> map_option h_prev (hp' x) = map_option h_prev (hp x)"
  shows "path hp' a xs b = path hp a xs b"
  using assms by (induction xs arbitrary: a) (auto simp: linked_def)

lemma ring_cong:
  assumes "\<And>x. x \<in> set (s # xs) \<Longrightarrow> map_option h_next (hp' x) = map_option h_next (hp x)"
    and "\<And>x. x \<in> set (s # xs) \<Longrightarrow> map_option h_prev (hp' x) = map_option h_prev (hp x)"
  shows "ring hp' s xs = ring hp s xs"
  using path_cong [of s xs hp' hp s] assms by (auto simp: ring_def)

lemma ring_frame: "(\<And>x. x \<in> set (s # xs) \<Longrightarrow> hp' x = hp x) \<Longrightarrow> ring hp' s xs = ring hp s xs"
  by (rule ring_cong) auto

lemma path_ends: "path hp a xs b \<Longrightarrow> linked hp a (hd (xs @ [b])) \<and> linked hp (last (a # xs)) b"
  by (induction xs arbitrary: a) auto

text \<open>No handle of a ring with an entry is its own successor.\<close>

lemma path_next: "path hp a xs b \<Longrightarrow> x \<in> set (a # xs) \<Longrightarrow> \<exists>h y. hp x = Some h \<and> h_next h = Some y \<and> y \<in> set (xs @ [b])"
  by (induction xs arbitrary: a) (auto simp: linked_def)

lemma ring_alloc: "ring hp s xs \<Longrightarrow> x \<in> set (s # xs) \<Longrightarrow> \<exists>h. hp x = Some h"
  using path_next [of hp s xs s x] by (auto simp: ring_def)

lemma ring_no_self:
  assumes r: "ring hp s xs" and x: "x \<in> set xs" and h: "hp x = Some h"
  shows "h_next h \<noteq> Some x"
proof -
  from x obtain ys zs where xs: "xs = ys @ x # zs" by (meson split_list)
  with r have "path hp x zs s" "x \<notin> set (zs @ [s])" by (auto simp: ring_def path_append)
  with path_next [of hp x zs s x] h show ?thesis by auto
qed

lemma ring_first:
  assumes "ring hp s xs"
  shows "\<exists>h. hp s = Some h \<and> h_next h = Some (hd (xs @ [s]))"
  using path_ends [of hp s xs s] assms by (auto simp: ring_def linked_def)

section \<open>Removing and appending\<close>

text \<open>An operation that only sets links, of the handles in \<open>A\<close>.\<close>

abbreviation unlinked :: "LRUHandle \<Rightarrow> LRUHandle" where
  "unlinked h \<equiv> h\<lparr>h_next := None, h_prev := None\<rparr>"

definition relinks :: "addr set \<Rightarrow> LRUCache \<Rightarrow> LRUCache \<Rightarrow> bool" where
  "relinks A c c' \<longleftrightarrow> (\<exists>hp. c' = c\<lparr>handles := hp\<rparr>) \<and>
     (\<forall>a. map_option unlinked (handles c' a) = map_option unlinked (handles c a)) \<and> (\<forall>a. a \<notin> A \<longrightarrow> handles c' a = handles c a)"

lemma relinks_trans: "relinks A c c' \<Longrightarrow> relinks B c' c'' \<Longrightarrow> relinks (A \<union> B) c c''"
  unfolding relinks_def by (elim conjE exE) (intro conjI allI impI; force)

lemma relinksD:
  assumes "relinks A c c'"
  shows "c_capacity c' = c_capacity c" "c_usage c' = c_usage c" "lru_head c' = lru_head c" "in_use_head c' = in_use_head c"
    "c_table c' = c_table c" "deleted c' = deleted c" "a \<notin> A \<Longrightarrow> handles c' a = handles c a"
    "map_option unlinked (handles c' a) = map_option unlinked (handles c a)"
  using assms unfolding relinks_def by auto

lemma relinks_handle:
  assumes "relinks A c c'" "handles c a = Some h"
  obtains h' where "handles c' a = Some h'" "unlinked h' = unlinked h"
  using relinksD(8) [OF assms(1), of a] assms(2) that by auto

definition set_next :: "addr \<Rightarrow> addr \<Rightarrow> (addr \<rightharpoonup> LRUHandle) \<Rightarrow> addr \<rightharpoonup> LRUHandle" where
  "set_next a b hp = hp(a := map_option (\<lambda>h. h\<lparr>h_next := Some b\<rparr>) (hp a))"

definition set_prev :: "addr \<Rightarrow> addr \<Rightarrow> (addr \<rightharpoonup> LRUHandle) \<Rightarrow> addr \<rightharpoonup> LRUHandle" where
  "set_prev a b hp = hp(a := map_option (\<lambda>h. h\<lparr>h_prev := Some b\<rparr>) (hp a))"

lemma set_links [simp]:
  "map_option h_next (set_next a b hp x) = (if x = a then map_option (\<lambda>_. Some b) (hp a) else map_option h_next (hp x))"
  "map_option h_prev (set_next a b hp x) = map_option h_prev (hp x)"
  "map_option h_next (set_prev a b hp x) = map_option h_next (hp x)"
  "map_option h_prev (set_prev a b hp x) = (if x = a then map_option (\<lambda>_. Some b) (hp a) else map_option h_prev (hp x))"
  "map_option unlinked (set_next a b hp x) = map_option unlinked (hp x)"
  "map_option unlinked (set_prev a b hp x) = map_option unlinked (hp x)"
  by (simp_all add: set_next_def set_prev_def option.map_comp comp_def)

lemma set_links_alloc [simp]: "set_next a b hp x = None \<longleftrightarrow> hp x = None" "set_prev a b hp x = None \<longleftrightarrow> hp x = None"
  "(\<exists>z. set_next a b hp x = Some z) \<longleftrightarrow> (\<exists>z. hp x = Some z)" "(\<exists>z. set_prev a b hp x = Some z) \<longleftrightarrow> (\<exists>z. hp x = Some z)"
  by (auto simp: set_next_def set_prev_def)

lemma set_links_other [simp]: "x \<noteq> a \<Longrightarrow> set_next a b hp x = hp x" "x \<noteq> a \<Longrightarrow> set_prev a b hp x = hp x"
  by (simp_all add: set_next_def set_prev_def)

lemma linked_alloc: "linked hp a b \<Longrightarrow> hp a \<noteq> None \<and> hp b \<noteq> None"
  by (auto simp: linked_def)

text \<open>The neighbours of a handle that leaves a ring are joined.\<close>

lemma path_unlink:
  assumes p: "path hp s (xs @ e # ys) s" and d: "distinct (s # xs @ e # ys)"
    and ends: "a = last (s # xs)" "b = hd (ys @ [s])"
  shows "path (set_next a b (set_prev b a hp)) s (xs @ ys) s"
proof -
  let ?hp = "set_next a b (set_prev b a hp)"
  have e: "path hp s xs e" "path hp e ys s" using p by (simp_all add: path_append)
  have alloc: "hp a \<noteq> None" "hp b \<noteq> None" using path_ends [OF e(1)] path_ends [OF e(2)] linked_alloc ends by auto
  then have ab: "linked ?hp a b" by (cases "set_prev b a hp a") (auto simp: linked_def)
  show ?thesis
  proof (cases xs rule: rev_cases)
    case Nil
    show ?thesis
    proof (cases ys)
      case (Cons y zs)
      have "path ?hp y zs s = path hp y zs s" using d Nil Cons ends by (intro path_cong) auto
      then show ?thesis using Nil Cons ab e(2) ends by simp
    qed (use Nil ab ends in simp)
  next
    case (snoc ws w)
    have w: "path ?hp s ws w = path hp s ws w" using d snoc ends by (intro path_cong) (auto simp: hd_append split: list.splits)
    show ?thesis
    proof (cases ys)
      case Nil
      then show ?thesis using snoc ab e(1) ends w by (simp add: path_append)
    next
      case (Cons y zs)
      have "path ?hp y zs s = path hp y zs s" using d snoc Cons ends by (intro path_cong) auto
      then show ?thesis using snoc Cons ab e ends w by (simp add: path_append)
    qed
  qed
qed

lemma path_link_last:
  assumes p: "path hp s xs s" and d: "distinct (s # xs)" and e: "e \<notin> set (s # xs)" "hp e \<noteq> None" and a: "a = last (s # xs)"
  shows "path (set_prev s e (set_next a e (set_prev e a (set_next e s hp)))) s (xs @ [e]) s"
proof -
  let ?hp = "set_prev s e (set_next a e (set_prev e a (set_next e s hp)))"
  have alloc: "hp a \<noteq> None" "hp s \<noteq> None" using path_ends [OF p] linked_alloc a by auto
  have a': "a \<noteq> e" "a \<in> set (s # xs)" using a e(1) by auto
  have l1: "linked ?hp a e" unfolding linked_def using alloc e a' by (cases "hp a"; cases "hp e") auto
  have l2: "linked ?hp e s" unfolding linked_def using alloc e a' by (cases "hp s"; cases "hp e") auto
  show ?thesis
  proof (cases xs rule: rev_cases)
    case Nil
    then show ?thesis using l1 l2 a by simp
  next
    case (snoc ws w)
    have "path ?hp s ws w = path hp s ws w" using d snoc a e(1) by (intro path_cong) auto
    then show ?thesis using snoc l1 l2 a p by (simp add: path_append)
  qed
qed

lemma LRU_Remove_ok:
  assumes r: "ring (handles c) s (xs @ e # ys)"
  obtains c' where "LRU_Remove e c = Some c'" "ring (handles c') s (xs @ ys)" "relinks (set (s # xs @ ys)) c c'"
proof -
  let ?a = "last (s # xs)" and ?b = "hd (ys @ [s])"
  have p: "path (handles c) s (xs @ e # ys) s" "distinct (s # xs @ e # ys)" using r by (simp_all add: ring_def)
  then have e: "path (handles c) s xs e" "path (handles c) e ys s" by (simp_all add: path_append)
  have l: "linked (handles c) ?a e" "linked (handles c) e ?b" using path_ends [OF e(1)] path_ends [OF e(2)] by auto
  have ne: "?a \<noteq> e" "?b \<noteq> e" using p(2) by (auto simp: hd_append split: list.splits)
  let ?c = "c\<lparr>handles := set_next ?a ?b (set_prev ?b ?a (handles c))\<rparr>"
  obtain h ha hb where h: "handles c e = Some h" "h_next h = Some ?b" "h_prev h = Some ?a" "handles c ?a = Some ha" "handles c ?b = Some hb"
    using l by (auto simp: linked_def)
  have "LRU_Remove e c = Some ?c"
    using h ne by (cases "?a = ?b") (simp_all add: LRU_Remove_def upd_handle_def set_next_def set_prev_def)
  moreover have "ring (handles ?c) s (xs @ ys)"
    using path_unlink [OF p refl refl] p(2) by (simp add: ring_def)
  moreover have "handles ?c x = handles c x" if "x \<notin> set (s # xs @ ys)" for x
  proof -
    have "?a \<in> set (s # xs @ ys)" "?b \<in> set (s # xs @ ys)" by (cases xs rule: rev_cases; simp) (cases ys; simp)
    with that have "x \<noteq> ?a" "x \<noteq> ?b" by blast+
    then show ?thesis by simp
  qed
  then have "relinks (set (s # xs @ ys)) c ?c" unfolding relinks_def by (intro conjI allI impI) auto
  ultimately show thesis by (rule that)
qed

lemma LRU_Append_ok:
  assumes r: "ring (handles c) s xs" and e: "e \<notin> set (s # xs)" "handles c e = Some h"
  obtains c' where "LRU_Append s e c = Some c'" "ring (handles c') s (xs @ [e])" "relinks (set (s # xs @ [e])) c c'"
proof -
  let ?a = "last (s # xs)"
  let ?c = "c\<lparr>handles := set_prev s e (set_next ?a e (set_prev e ?a (set_next e s (handles c))))\<rparr>"
  have p: "path (handles c) s xs s" "distinct (s # xs)" using r by (simp_all add: ring_def)
  have a: "?a \<in> set (s # xs)" by (metis last_in_set list.distinct(1))
  then have ne: "?a \<noteq> e" "s \<noteq> e" using e(1) by auto
  have "linked (handles c) ?a s" using path_ends [OF p(1)] by simp
  then obtain ha hs where h: "handles c ?a = Some ha" "handles c s = Some hs" "h_prev hs = Some ?a" by (auto simp: linked_def)
  have "LRU_Append s e c = Some ?c"
    using h ne e(2) by (cases "?a = s") (simp_all add: LRU_Append_def upd_handle_def set_next_def set_prev_def fun_upd_twist)
  moreover have "ring (handles ?c) s (xs @ [e])"
    using path_link_last [OF p e(1) _ refl] e p(2) by (simp add: ring_def)
  moreover have "handles ?c x = handles c x" if "x \<notin> set (s # xs @ [e])" for x
  proof -
    have "x \<noteq> ?a" "x \<noteq> s" "x \<noteq> e" using that a by auto
    then show ?thesis by simp
  qed
  then have "relinks (set (s # xs @ [e])) c ?c" unfolding relinks_def by (intro conjI allI impI) auto
  ultimately show thesis by (rule that)
qed

end
