(* ===== verification/LruTable.thy ===== *)
theory LruTable
  imports LruRing
begin

text \<open>
  The hash table of the cache as a set of handles with distinct keys: finding, replacing and removing a
  handle, and the rehashing that keeps them when the table grows.
\<close>

section \<open>The invariant of the table\<close>

definition handle_id :: "(addr \<rightharpoonup> LRUHandle) \<Rightarrow> addr \<Rightarrow> (KeyType \<times> u32) option" where
  "handle_id hp a = map_option (\<lambda>h. (h_page_id h, h_hash h)) (hp a)"

definition slot_of :: "u32 \<Rightarrow> (addr \<rightharpoonup> LRUHandle) \<Rightarrow> addr \<Rightarrow> nat" where
  "slot_of n hp a = unat (h_hash (the (hp a)) AND (n - 1))"

text \<open>The chains of the array \<open>xs\<close> are those of the handles in \<open>S\<close>.\<close>

definition chained :: "(addr \<rightharpoonup> LRUHandle) \<Rightarrow> u32 \<Rightarrow> ptr list \<Rightarrow> addr set \<Rightarrow> bool" where
  "chained hp n xs S \<longleftrightarrow> n \<noteq> 0 \<and> length xs = unat n \<and> finite S \<and> S \<subseteq> dom hp \<and>
     (\<forall>i < length xs. \<exists>as. lseg h_next_hash hp (xs ! i) as None \<and> set as = {a \<in> S. slot_of n hp a = i})"

definition table_ok :: "(addr \<rightharpoonup> LRUHandle) \<Rightarrow> HandleTable \<Rightarrow> addr set \<Rightarrow> bool" where
  "table_ok hp t S \<longleftrightarrow> chained hp (t_length t) (t_list t) S \<and> card S = unat (t_elems t) \<and> inj_on (handle_id hp) S"

lemma KeyTypeCmp_eq [simp]: "KeyTypeCmp k k' \<longleftrightarrow> k = k'"
  by (auto simp: KeyTypeCmp_def)

lemma slot_bound: "(n :: u32) \<noteq> 0 \<Longrightarrow> unat (x AND (n - 1)) < unat n"
proof -
  assume n: "n \<noteq> 0"
  have "unat (x AND (n - 1)) \<le> unat (n - 1)" by (simp add: word_le_nat_alt [symmetric] word_and_le1)
  also have "\<dots> < unat n" using n by (simp add: unat_minus_one unat_gt_0)
  finally show ?thesis .
qed

lemma chainedD:
  assumes "chained hp n xs S"
  shows "n \<noteq> 0" "length xs = unat n" "finite S" "a \<in> S \<Longrightarrow> \<exists>h. hp a = Some h"
    "i < length xs \<Longrightarrow> \<exists>as. lseg h_next_hash hp (xs ! i) as None \<and> set as = {a \<in> S. slot_of n hp a = i}"
  using assms unfolding chained_def by blast+

text \<open>Operations on the table set the hash links of the handles in \<open>A\<close>, and nothing else of a handle.\<close>

abbreviation unchained :: "LRUHandle \<Rightarrow> LRUHandle" where
  "unchained h \<equiv> h\<lparr>h_next_hash := None\<rparr>"

definition rechained :: "addr set \<Rightarrow> (addr \<rightharpoonup> LRUHandle) \<Rightarrow> (addr \<rightharpoonup> LRUHandle) \<Rightarrow> bool" where
  "rechained A hp hp' \<longleftrightarrow> (\<forall>a. map_option unchained (hp' a) = map_option unchained (hp a)) \<and> (\<forall>a. a \<notin> A \<longrightarrow> hp' a = hp a)"

lemma rechained_refl [simp]: "rechained A hp hp"
  by (simp add: rechained_def)

lemma rechained_trans: "rechained A hp hp' \<Longrightarrow> rechained B hp' hp'' \<Longrightarrow> rechained (A \<union> B) hp hp''"
  by (simp add: rechained_def)

lemma rechained_mono: "rechained A hp hp' \<Longrightarrow> A \<subseteq> B \<Longrightarrow> rechained B hp hp'"
  by (auto simp: rechained_def)

lemma rechainedD:
  assumes "rechained A hp hp'"
  shows "a \<notin> A \<Longrightarrow> hp' a = hp a" "map_option unchained (hp' a) = map_option unchained (hp a)" "dom hp' = dom hp"
    "handle_id hp' = handle_id hp" "slot_of n hp' = slot_of n hp"
proof -
  have m: "map_option unchained (hp' a) = map_option unchained (hp a)" for a using assms by (simp add: rechained_def)
  show "map_option unchained (hp' a) = map_option unchained (hp a)" by (rule m)
  show "hp' a = hp a" if "a \<notin> A" using assms that by (simp add: rechained_def)
  have none: "hp' a = None \<longleftrightarrow> hp a = None" for a using m [of a] by (metis option.map_disc_iff)
  then show "dom hp' = dom hp" by (auto simp: dom_def)
  have f: "map_option f (hp' a) = map_option f (hp a)" if "\<And>h. f (unchained h) = f h" for a and f :: "LRUHandle \<Rightarrow> 'b"
    using arg_cong [OF m [of a], of "map_option f"] that by (simp add: option.map_comp comp_def)
  show "handle_id hp' = handle_id hp" by (rule ext) (simp add: handle_id_def f)
  have "h_hash (the (hp' a)) = h_hash (the (hp a))" for a
    using f [of h_hash a] none [of a] by (cases "hp a"; cases "hp' a") simp_all
  then show "slot_of n hp' = slot_of n hp" by (simp add: slot_of_def fun_eq_iff)
qed

section \<open>Finding a handle\<close>

text \<open>\<open>slot_at i xs\<close> is the pointer behind the first handles \<open>xs\<close> of the chain \<open>i\<close>.\<close>

definition slot_at :: "slot \<Rightarrow> addr list \<Rightarrow> slot" where
  "slot_at s xs = (if xs = [] then s else Link (last xs))"

definition keyed :: "(addr \<rightharpoonup> LRUHandle) \<Rightarrow> addr set \<Rightarrow> bool" where
  "keyed hp S \<longleftrightarrow> (\<forall>a \<in> S. \<exists>h. hp a = Some h \<and> h_next h \<noteq> Some a)"

lemma find_slot_ok:
  assumes "read_slot c s = Some p" "lseg h_next_hash (handles c) p as None" "keyed (handles c) (set as)"
  shows "find_slot c k hash s = Some (slot_at s (takeWhile (\<lambda>a. handle_id (handles c) a \<noteq> Some (k, hash)) as))"
  using assms
proof (induction as arbitrary: s p)
  case Nil
  then show ?case by (subst find_slot.simps) (simp add: slot_at_def)
next
  case (Cons a as)
  then obtain h where h: "p = Some a" "handles c a = Some h" "lseg h_next_hash (handles c) (h_next_hash h) as None" "h_next h \<noteq> Some a"
    by (auto simp: keyed_def)
  have id: "handle_id (handles c) a = Some (k, hash) \<longleftrightarrow> h_hash h = hash \<and> h_page_id h = k" using h(2) by (auto simp: handle_id_def)
  have "find_slot c k hash s = (if handle_id (handles c) a \<noteq> Some (k, hash) then find_slot c k hash (Link a) else Some s)"
    unfolding id using h Cons.prems(1) by (subst find_slot.simps) (auto simp: handle_key_def assertion_def)
  moreover have "read_slot c (Link a) = Some (h_next_hash h)" using h(2) by simp
  ultimately show ?case using Cons.IH [OF _ h(3), of "Link a"] Cons.prems(3) by (auto simp: slot_at_def keyed_def)
qed

abbreviation start :: "addr list \<Rightarrow> ptr" where
  "start ys \<equiv> (case ys of [] \<Rightarrow> None | y # _ \<Rightarrow> Some y)"

lemma lseg_start: "lseg nxt hp p ys None \<Longrightarrow> p = start ys"
  by (cases ys) auto

lemma lseg_middle: "lseg nxt hp p (xs @ ys) None \<Longrightarrow> xs \<noteq> [] \<Longrightarrow> map_option nxt (hp (last xs)) = Some (start ys)"
proof (induction xs arbitrary: p)
  case (Cons x xs)
  then show ?case using lseg_start by (cases "xs = []") fastforce+
qed simp

lemma read_slot_at:
  assumes "i < length (t_list (c_table c))" "lseg h_next_hash (handles c) (t_list (c_table c) ! i) (xs @ ys) None"
  shows "read_slot c (slot_at (Entry i) xs) = Some (start ys)"
  using assms lseg_middle [OF assms(2)] lseg_start [OF assms(2)] by (cases "xs = []") (simp_all add: slot_at_def)

text \<open>\<open>FindPointer\<close> splits the chain of a key before the handle with that key.\<close>

definition found :: "LRUCache \<Rightarrow> addr set \<Rightarrow> KeyType \<Rightarrow> u32 \<Rightarrow> nat \<Rightarrow> addr list \<Rightarrow> addr list \<Rightarrow> bool" where
  "found c S k hash i xs ys \<longleftrightarrow> FindPointer c k hash = Some (slot_at (Entry i) xs) \<and> i < length (t_list (c_table c)) \<and>
     i = unat (hash AND (t_length (c_table c) - 1)) \<and> lseg h_next_hash (handles c) (t_list (c_table c) ! i) (xs @ ys) None \<and>
     set (xs @ ys) = {a \<in> S. slot_of (t_length (c_table c)) (handles c) a = i} \<and> distinct (xs @ ys) \<and>
     read_slot c (slot_at (Entry i) xs) = Some (start ys) \<and>
     (case ys of [] \<Rightarrow> \<forall>a \<in> S. handle_id (handles c) a \<noteq> Some (k, hash) | b # _ \<Rightarrow> b \<in> S \<and> handle_id (handles c) b = Some (k, hash))"

lemma foundD:
  assumes "found c S k hash i xs ys"
  shows "FindPointer c k hash = Some (slot_at (Entry i) xs)" "i < length (t_list (c_table c))"
    "i = unat (hash AND (t_length (c_table c) - 1))" "lseg h_next_hash (handles c) (t_list (c_table c) ! i) (xs @ ys) None"
    "set (xs @ ys) = {a \<in> S. slot_of (t_length (c_table c)) (handles c) a = i}" "distinct (xs @ ys)"
    "read_slot c (slot_at (Entry i) xs) = Some (start ys)"
    "case ys of [] \<Rightarrow> \<forall>a \<in> S. handle_id (handles c) a \<noteq> Some (k, hash) | b # _ \<Rightarrow> b \<in> S \<and> handle_id (handles c) b = Some (k, hash)"
  using assms unfolding found_def by blast+

lemma FindPointer_ok:
  assumes t: "table_ok (handles c) (c_table c) S" and k: "keyed (handles c) S"
  shows "\<exists>i xs ys. found c S k hash i xs ys"
proof -
  let ?n = "t_length (c_table c)" and ?P = "\<lambda>a. handle_id (handles c) a \<noteq> Some (k, hash)"
  have ch: "chained (handles c) ?n (t_list (c_table c)) S" using t by (simp add: table_ok_def)
  define i where "i = unat (hash AND (?n - 1))"
  have i: "i < length (t_list (c_table c))" unfolding i_def using slot_bound chainedD(1,2) [OF ch] by simp
  from chainedD(5) [OF ch i] obtain as where as: "lseg h_next_hash (handles c) (t_list (c_table c) ! i) as None"
    "set as = {a \<in> S. slot_of ?n (handles c) a = i}" by blast
  define xs where "xs = takeWhile ?P as"
  define ys where "ys = dropWhile ?P as"
  have split: "as = xs @ ys" by (simp add: xs_def ys_def)
  have "keyed (handles c) (set as)" using k as(2) by (auto simp: keyed_def)
  then have find: "FindPointer c k hash = Some (slot_at (Entry i) xs)"
    unfolding FindPointer_def i_def [symmetric] xs_def by (intro find_slot_ok [OF _ as(1)]) (use i in simp)
  have mem: "a \<in> set as" if "a \<in> S" "\<not> ?P a" for a
  proof -
    have "slot_of ?n (handles c) a = i" using that(2) by (cases "handles c a") (simp_all add: handle_id_def slot_of_def i_def)
    then show ?thesis using that(1) unfolding as(2) by simp
  qed
  have ends: "case ys of [] \<Rightarrow> \<forall>a \<in> S. ?P a | b # _ \<Rightarrow> b \<in> S \<and> handle_id (handles c) b = Some (k, hash)"
  proof (cases ys)
    case Nil
    then have "\<forall>a \<in> set as. ?P a" unfolding ys_def dropWhile_eq_Nil_conv .
    then have "\<forall>a \<in> S. ?P a" using mem by blast
    then show ?thesis unfolding Nil by simp
  next
    case (Cons b bs)
    then have "\<not> ?P b" unfolding ys_def dropWhile_eq_Cons_conv by blast
    moreover have "b \<in> S" using as(2) split Cons by auto
    ultimately show ?thesis unfolding Cons by simp
  qed
  note l = as(1) [unfolded split]
  have "found c S k hash i xs ys"
    unfolding found_def using as(2) lseg_distinct [OF as(1)] unfolding split by (intro conjI find i i_def l read_slot_at [OF i l] ends)
  then show ?thesis by blast
qed

lemma table_Lookup_ok:
  assumes "table_ok (handles c) (c_table c) S" "keyed (handles c) S"
  shows "\<exists>r. table_Lookup c k hash = Some r \<and>
    (case r of None \<Rightarrow> \<forall>a \<in> S. handle_id (handles c) a \<noteq> Some (k, hash) | Some a \<Rightarrow> a \<in> S \<and> handle_id (handles c) a = Some (k, hash))"
proof -
  obtain i xs ys where "found c S k hash i xs ys" using FindPointer_ok [OF assms] by blast
  then show ?thesis using foundD(1,7,8) [of c S k hash i xs ys] by (cases ys) (simp_all add: table_Lookup_def)
qed

section \<open>Changing a chain\<close>

lemma lseg_retarget:
  assumes l: "lseg nxt hp p (xs @ [x]) r" "x \<notin> set xs" and z: "lseg nxt hp (nxt n) zs None" "x \<notin> set zs"
  shows "lseg nxt (hp(x \<mapsto> n)) p (xs @ x # zs) None"
  using l z by (auto simp: lseg_append lseg_other)

lemma write_slot_ok:
  assumes i: "i < length (t_list (c_table c))" and l: "lseg h_next_hash (handles c) (t_list (c_table c) ! i) (xs @ ys) None"
    and d: "distinct xs" and z: "lseg h_next_hash (handles c) q zs None" "set xs \<inter> set zs = {}"
  obtains hp ts where "write_slot (slot_at (Entry i) xs) q c = Some (c\<lparr>handles := hp, c_table := (c_table c)\<lparr>t_list := ts\<rparr>\<rparr>)"
    "rechained (set xs) (handles c) hp" "lseg h_next_hash hp (ts ! i) (xs @ zs) None" "length ts = length (t_list (c_table c))"
    "\<forall>j. j \<noteq> i \<longrightarrow> ts ! j = t_list (c_table c) ! j"
proof (cases xs rule: rev_cases)
  case Nil
  show thesis
    by (rule that [where hp = "handles c" and ts = "(t_list (c_table c))[i := q]"]) (use Nil i z(1) in \<open>simp_all add: slot_at_def\<close>)
next
  case (snoc ws w)
  obtain h where h: "handles c w = Some h" using lseg_alloc [OF l, of w] snoc by auto
  let ?hp = "(handles c)(w \<mapsto> h\<lparr>h_next_hash := q\<rparr>)"
  have l': "lseg h_next_hash (handles c) (t_list (c_table c) ! i) (ws @ [w]) (start ys)"
    using l snoc lseg_start [of h_next_hash "handles c" _ ys] by (auto simp: lseg_append)
  have "lseg h_next_hash ?hp (t_list (c_table c) ! i) (ws @ w # zs) None"
    using lseg_retarget [OF l', of "h\<lparr>h_next_hash := q\<rparr>" zs] d snoc z by simp
  moreover have "rechained (set xs) (handles c) ?hp" using h snoc by (auto simp: rechained_def)
  ultimately show thesis
    using snoc h by (intro that [where hp = ?hp and ts = "t_list (c_table c)"]) (simp_all add: slot_at_def upd_handle_def)
qed

lemma chained_update:
  assumes ch: "chained hp n ts S" and i: "i < length ts" and old: "set as = {a \<in> S. slot_of n hp a = i}"
    and re: "rechained A hp hp'" "A \<inter> S \<subseteq> set as" and ts: "length ts' = length ts" "\<forall>j. j \<noteq> i \<longrightarrow> ts' ! j = ts ! j"
    and new: "lseg h_next_hash hp' (ts' ! i) bs None" "set bs = {a \<in> S'. slot_of n hp a = i}"
    and same: "{a \<in> S'. slot_of n hp a \<noteq> i} = {a \<in> S. slot_of n hp a \<noteq> i}"
  shows "chained hp' n ts' S'"
proof -
  have slots: "slot_of n hp' = slot_of n hp" by (rule rechainedD(5) [OF re(1)])
  have S': "S' = set bs \<union> {a \<in> S. slot_of n hp a \<noteq> i}" using new(2) same by auto
  then have "finite S'" using chainedD(3) [OF ch] by simp
  moreover have "S' \<subseteq> dom hp'"
  proof
    fix a assume "a \<in> S'"
    then consider "a \<in> set bs" | "a \<in> S" using S' by auto
    then show "a \<in> dom hp'"
    proof cases
      case 1
      then show ?thesis using lseg_alloc [OF new(1)] by blast
    next
      case 2
      then show ?thesis using chainedD(4) [OF ch] rechainedD(3) [OF re(1)] by blast
    qed
  qed
  moreover have "\<exists>bs. lseg h_next_hash hp' (ts' ! j) bs None \<and> set bs = {a \<in> S'. slot_of n hp' a = j}" if j: "j < length ts'" for j
  proof (cases "j = i")
    case True
    then show ?thesis using new slots by auto
  next
    case False
    obtain cs where cs: "lseg h_next_hash hp (ts ! j) cs None" "set cs = {a \<in> S. slot_of n hp a = j}"
      using chainedD(5) [OF ch, of j] j ts(1) by auto
    have "a \<notin> A" if "a \<in> set cs" for a using that cs(2) re(2) old False by auto
    then have "lseg h_next_hash hp' (ts ! j) cs None = lseg h_next_hash hp (ts ! j) cs None"
      by (intro lseg_cong rechainedD(1) [OF re(1)])
    moreover have "{a \<in> S'. slot_of n hp a = j} = {a \<in> S. slot_of n hp a = j}" using same False by blast
    ultimately show ?thesis using cs ts(2) False slots by auto
  qed
  ultimately show ?thesis using chainedD(1,2) [OF ch] ts(1) by (simp add: chained_def)
qed

section \<open>Removing a handle\<close>

lemma table_Remove_missing:
  assumes t: "table_ok (handles c) (c_table c) S" "keyed (handles c) S" and none: "\<forall>a \<in> S. handle_id (handles c) a \<noteq> Some (k, hash)"
  shows "table_Remove k hash c = Some (c, None)"
proof -
  obtain i xs ys where f: "found c S k hash i xs ys" using FindPointer_ok [OF t] by blast
  with foundD(8) [OF f] none have "ys = []" by (cases ys) auto
  with foundD(1,7) [OF f] show ?thesis by (simp add: table_Remove_def)
qed

lemma table_Remove_ok:
  assumes t: "table_ok (handles c) (c_table c) S" "keyed (handles c) S" and b: "b \<in> S" "handle_id (handles c) b = Some (k, hash)"
  obtains hp u where "table_Remove k hash c = Some (c\<lparr>handles := hp, c_table := u\<rparr>, Some b)"
    "rechained (S - {b}) (handles c) hp" "table_ok hp u (S - {b})"
proof -
  let ?n = "t_length (c_table c)" and ?ts = "t_list (c_table c)"
  have ch: "chained (handles c) ?n ?ts S" and card: "card S = unat (t_elems (c_table c))" and inj: "inj_on (handle_id (handles c)) S"
    using t(1) by (simp_all add: table_ok_def)
  obtain i xs ys where f: "found c S k hash i xs ys" using FindPointer_ok [OF t] by blast
  obtain zs where ys: "ys = b # zs"
    using foundD(8) [OF f] b inj_onD [OF inj] by (cases ys) auto
  note l = foundD(4) [OF f, unfolded ys] and d = foundD(6) [OF f, unfolded ys] and set = foundD(5) [OF f, unfolded ys]
  obtain h where h: "handles c b = Some h" using chainedD(4) [OF ch b(1)] by blast
  have z: "lseg h_next_hash (handles c) (h_next_hash h) zs None" using l h by (auto simp: lseg_append)
  have dx: "distinct xs" "set xs \<inter> set zs = {}" using d by auto
  obtain hp ts where w: "write_slot (slot_at (Entry i) xs) (h_next_hash h) c = Some (c\<lparr>handles := hp, c_table := (c_table c)\<lparr>t_list := ts\<rparr>\<rparr>)"
    "rechained (set xs) (handles c) hp" "lseg h_next_hash hp (ts ! i) (xs @ zs) None" "length ts = length ?ts"
    "\<forall>j. j \<noteq> i \<longrightarrow> ts ! j = ?ts ! j"
    by (rule write_slot_ok [OF foundD(2) [OF f] l dx(1) z dx(2)])
  let ?u = "(c_table c)\<lparr>t_list := ts, t_elems := t_elems (c_table c) - 1\<rparr>"
  have xs: "set xs \<subseteq> S - {b}" using set d by auto
  have new: "set (xs @ zs) = {a \<in> S - {b}. slot_of ?n (handles c) a = i}" using set d by auto
  have slot_b: "slot_of ?n (handles c) b = i" using set by auto
  have "chained hp ?n ts (S - {b})"
    by (rule chained_update [OF ch foundD(2) [OF f] set w(2) _ w(4,5,3) new]) (use slot_b xs in auto)
  moreover have "t_elems (c_table c) \<noteq> 0" using card b(1) chainedD(3) [OF ch] by auto
  then have "card (S - {b}) = unat (t_elems (c_table c) - 1)" using card b(1) by (simp add: unat_minus_one)
  moreover have "inj_on (handle_id hp) (S - {b})" using inj rechainedD(4) [OF w(2)] by (simp add: inj_on_diff)
  ultimately have "table_ok hp ?u (S - {b})" by (simp add: table_ok_def)
  moreover have "table_Remove k hash c = Some (c\<lparr>handles := hp, c_table := ?u\<rparr>, Some b)"
    using foundD(1,7) [OF f] ys h w(1) by (simp add: table_Remove_def)
  ultimately show thesis using that rechained_mono [OF w(2) xs] by blast
qed

section \<open>Growing the table\<close>

lemma new_length_ok: "elems \<le> 2 ^ 31 \<Longrightarrow> k \<le> 31 \<Longrightarrow> \<exists>n. new_length elems (2 ^ k) = Some n \<and> n \<noteq> 0"
proof (induction "31 - k" arbitrary: k)
  case 0
  then have "k = 31" "\<not> 2 ^ 31 < elems" by (simp_all add: not_less)
  then show ?case by (subst new_length.simps) simp
next
  case (Suc m)
  then have "\<exists>n. new_length elems (2 ^ Suc k) = Some n \<and> n \<noteq> 0" by (intro Suc.hyps(1)) simp_all
  moreover have "bit ((2 :: u32) ^ k) k" using Suc.prems by (simp add: bit_exp_iff)
  then have "(2 :: u32) ^ k \<noteq> 0" by (metis bit_0_eq bot_apply bot_bool_def)
  ultimately show ?case by (subst new_length.simps) (simp add: mult.commute)
qed

lemma rehash_chain_ok:
  assumes "lseg h_next_hash hp p as None" "chained hp n ts P" "set as \<inter> P = {}" "count = of_nat (card P)"
  shows "\<exists>hp' ts'. rehash_chain n p (hp, ts, count) = Some (hp', ts', of_nat (card (P \<union> set as))) \<and>
    rechained (set as) hp hp' \<and> chained hp' n ts' (P \<union> set as)"
  using assms
proof (induction as arbitrary: p hp ts P count)
  case Nil
  then show ?case by (subst rehash_chain.simps) (auto intro!: exI)
next
  case (Cons a as)
  then obtain h where h: "p = Some a" "hp a = Some h" "lseg h_next_hash hp (h_next_hash h) as None" by auto
  have new: "a \<notin> set as" "a \<notin> P" using lseg_distinct [OF Cons.prems(1)] Cons.prems(3) by auto
  define i where "i = unat (h_hash h AND (n - 1))"
  note ch = chainedD [OF Cons.prems(2)]
  have i: "i < length ts" unfolding i_def using slot_bound ch(1,2) by simp
  let ?hp = "hp(a \<mapsto> h\<lparr>h_next_hash := ts ! i\<rparr>)" and ?ts = "ts[i := Some a]"
  obtain bs where bs: "lseg h_next_hash hp (ts ! i) bs None" "set bs = {x \<in> P. slot_of n hp x = i}" using ch(5) [OF i] by blast
  have slot: "slot_of n hp a = i" using h(2) by (simp add: slot_of_def i_def)
  have re: "rechained {a} hp ?hp" using h(2) by (simp add: rechained_def)
  have "chained ?hp n ?ts (insert a P)"
  proof (rule chained_update [OF Cons.prems(2) i bs(2) re])
    show "lseg h_next_hash ?hp (?ts ! i) (a # bs) None" using i bs new by (simp add: lseg_other)
    show "set (a # bs) = {x \<in> insert a P. slot_of n hp x = i}" using bs(2) slot by auto
  qed (use new slot in auto)
  moreover have "lseg h_next_hash ?hp (h_next_hash h) as None" using h(3) new(1) by (simp add: lseg_other)
  moreover have "set as \<inter> insert a P = {}" using Cons.prems(3) new(1) by auto
  moreover have "count + 1 = of_nat (card (insert a P))" using Cons.prems(4) new(2) ch(3) by simp
  ultimately obtain hp' ts' where IH: "rehash_chain n (h_next_hash h) (?hp, ?ts, count + 1) = Some (hp', ts', of_nat (card (insert a P \<union> set as)))"
    "rechained (set as) ?hp hp'" "chained hp' n ts' (insert a P \<union> set as)" using Cons.IH by blast
  have "rehash_chain n p (hp, ts, count) = rehash_chain n (h_next_hash h) (?hp, ?ts, count + 1)"
    using h(1,2) i by (subst rehash_chain.simps) (simp add: Let_def i_def [symmetric] del: of_nat_unat)
  moreover have "rechained (set (a # as)) hp hp'" using rechained_trans [OF re IH(2)] by simp
  moreover have "insert a P \<union> set as = P \<union> set (a # as)" by auto
  ultimately show ?case using IH(1,3) by metis
qed

lemma rehash_all_ok:
  assumes "\<forall>i \<in> set is. i < length xs \<and> lseg h_next_hash hp (xs ! i) (C i) None \<and> set (C i) \<inter> P = {}" "distinct is"
    "\<forall>i \<in> set is. \<forall>j \<in> set is. i \<noteq> j \<longrightarrow> set (C i) \<inter> set (C j) = {}" "chained hp n ts P" "count = of_nat (card P)"
  shows "\<exists>hp' ts'. foldm (\<lambda>i st. do { p \<leftarrow> arr_get xs (int i); rehash_chain n p st }) is (hp, ts, count) =
      Some (hp', ts', of_nat (card (P \<union> (\<Union>i \<in> set is. set (C i))))) \<and>
    rechained (\<Union>i \<in> set is. set (C i)) hp hp' \<and> chained hp' n ts' (P \<union> (\<Union>i \<in> set is. set (C i)))"
  using assms
proof (induction "is" arbitrary: hp ts P count)
  case Nil
  then show ?case by (auto intro!: exI)
next
  case (Cons i "is")
  have i: "i < length xs" "lseg h_next_hash hp (xs ! i) (C i) None" "set (C i) \<inter> P = {}" using Cons.prems(1) by auto
  obtain hp1 ts1 where s1: "rehash_chain n (xs ! i) (hp, ts, count) = Some (hp1, ts1, of_nat (card (P \<union> set (C i))))"
    "rechained (set (C i)) hp hp1" "chained hp1 n ts1 (P \<union> set (C i))"
    using rehash_chain_ok [OF i(2) Cons.prems(4) i(3) Cons.prems(5)] by blast
  have "\<forall>j \<in> set is. j < length xs \<and> lseg h_next_hash hp1 (xs ! j) (C j) None \<and> set (C j) \<inter> (P \<union> set (C i)) = {}"
  proof
    fix j assume j: "j \<in> set is"
    then have "j \<noteq> i" using Cons.prems(2) by auto
    then have disj: "set (C j) \<inter> set (C i) = {}" using Cons.prems(3) j by simp
    then have "lseg h_next_hash hp1 (xs ! j) (C j) None = lseg h_next_hash hp (xs ! j) (C j) None"
      by (intro lseg_cong rechainedD(1) [OF s1(2)]) blast
    with disj Cons.prems(1) j show "j < length xs \<and> lseg h_next_hash hp1 (xs ! j) (C j) None \<and> set (C j) \<inter> (P \<union> set (C i)) = {}" by auto
  qed
  from Cons.IH [OF this _ _ s1(3) refl] Cons.prems(2,3) obtain hp' ts' where
    s2: "foldm (\<lambda>i st. do { p \<leftarrow> arr_get xs (int i); rehash_chain n p st }) is (hp1, ts1, of_nat (card (P \<union> set (C i)))) =
      Some (hp', ts', of_nat (card (P \<union> set (C i) \<union> (\<Union>i \<in> set is. set (C i)))))"
    "rechained (\<Union>i \<in> set is. set (C i)) hp1 hp'" "chained hp' n ts' (P \<union> set (C i) \<union> (\<Union>i \<in> set is. set (C i)))" by auto
  have "P \<union> set (C i) \<union> (\<Union>i \<in> set is. set (C i)) = P \<union> (\<Union>i \<in> set (i # is). set (C i))" by auto
  with s1(1) s2 i(1) rechained_trans [OF s1(2) s2(2)] show ?case by simp
qed

lemma chained_empty: "n \<noteq> 0 \<Longrightarrow> chained hp n (replicate (unat n) None) {}"
  by (simp add: chained_def)

lemma Resize_ok:
  assumes C: "\<forall>i < length (t_list (c_table c)). lseg h_next_hash (handles c) (t_list (c_table c) ! i) (C i) None"
    and len: "length (t_list (c_table c)) = unat (t_length (c_table c))"
    and disj: "\<forall>i j. i \<noteq> j \<longrightarrow> set (C i) \<inter> set (C j) = {}" and S: "S = (\<Union>i < length (t_list (c_table c)). set (C i))"
    and card: "card S = unat (t_elems (c_table c))" "card S \<le> 2 ^ 31"
  obtains hp ts n where "Resize c = Some (c\<lparr>handles := hp, c_table := (c_table c)\<lparr>t_list := ts, t_length := n\<rparr>\<rparr>)"
    "rechained S (handles c) hp" "chained hp n ts S"
proof -
  have "t_elems (c_table c) \<le> 2 ^ 31" using card by (simp add: word_le_nat_alt)
  from new_length_ok [OF this, of 2] obtain n where n: "new_length (t_elems (c_table c)) 4 = Some n" "n \<noteq> 0" by auto
  obtain hp ts where r: "foldm (\<lambda>i st. do { p \<leftarrow> arr_get (t_list (c_table c)) (int i); rehash_chain n p st })
      [0..<length (t_list (c_table c))] (handles c, replicate (unat n) None, 0) = Some (hp, ts, of_nat (card S))"
    "rechained S (handles c) hp" "chained hp n ts S"
    using rehash_all_ok [of "[0..<length (t_list (c_table c))]" "t_list (c_table c)" "handles c" C "{}" n "replicate (unat n) None" 0]
      C disj chained_empty [OF n(2)] S by (auto simp: atLeast0LessThan)
  have "of_nat (card S) = t_elems (c_table c)" unfolding card(1) by simp
  then have "Resize c = Some (c\<lparr>handles := hp, c_table := (c_table c)\<lparr>t_list := ts, t_length := n\<rparr>\<rparr>)"
    using n(1) r(1) len by (simp add: Resize_def assertion_def)
  then show thesis using that r(2,3) by blast
qed

section \<open>Entering a handle\<close>

lemma enter_chain:
  assumes ch: "chained (handles c) (t_length (c_table c)) (t_list (c_table c)) S" and f: "found c S k (h_hash h) i xs ys"
    and a: "a \<notin> S" "handles c a = Some h"
  obtains hp ts where "write_slot (slot_at (Entry i) xs) (Some a) (c\<lparr>handles := (handles c)(a \<mapsto> h\<lparr>h_next_hash := start (tl ys)\<rparr>)\<rparr>) =
      Some (c\<lparr>handles := hp, c_table := (c_table c)\<lparr>t_list := ts\<rparr>\<rparr>)"
    "rechained (insert a S) (handles c) hp" "chained hp (t_length (c_table c)) ts (insert a (S - set (take 1 ys)))"
proof -
  let ?n = "t_length (c_table c)" and ?ts = "t_list (c_table c)"
  let ?c = "c\<lparr>handles := (handles c)(a \<mapsto> h\<lparr>h_next_hash := start (tl ys)\<rparr>)\<rparr>"
  note l = foundD(4) [OF f] and set = foundD(5) [OF f] and d = foundD(6) [OF f]
  have out: "a \<notin> set (xs @ ys)" using set a(1) by blast
  have re: "rechained {a} (handles c) (handles ?c)" using a(2) by (simp add: rechained_def)
  have l': "lseg h_next_hash (handles ?c) (t_list (c_table ?c) ! i) (xs @ ys) None" using l out by (simp add: lseg_other)
  obtain r where "lseg h_next_hash (handles c) r (tl ys) None" using l by (cases ys) (auto simp: lseg_append)
  then have t: "lseg h_next_hash (handles c) (start (tl ys)) (tl ys) None" using lseg_start [of h_next_hash "handles c" r] by auto
  have out_tl: "a \<notin> set (tl ys)" using out by (cases ys) auto
  with t have z: "lseg h_next_hash (handles ?c) (Some a) (a # tl ys) None" by (simp add: lseg_other)
  have dx: "distinct xs" "set xs \<inter> set (a # tl ys) = {}" using d out by (cases ys; auto)+
  obtain hp ts where w: "write_slot (slot_at (Entry i) xs) (Some a) ?c = Some (?c\<lparr>handles := hp, c_table := (c_table ?c)\<lparr>t_list := ts\<rparr>\<rparr>)"
    "rechained (set xs) (handles ?c) hp" "lseg h_next_hash hp (ts ! i) (xs @ a # tl ys) None" "length ts = length (t_list (c_table ?c))"
    "\<forall>j. j \<noteq> i \<longrightarrow> ts ! j = t_list (c_table ?c) ! j"
    by (rule write_slot_ok [OF _ l' dx(1) z dx(2)]) (use foundD(2) [OF f] in simp)
  have re2: "rechained (insert a (set xs)) (handles c) hp" using rechained_trans [OF re w(2)] by simp
  have slot: "slot_of ?n (handles c) a = i" using a(2) foundD(3) [OF f] by (simp add: slot_of_def)
  have hd: "slot_of ?n (handles c) x = i" if "x \<in> set (take 1 ys)" for x
  proof -
    from that have "x \<in> set (xs @ ys)" by (auto dest: in_set_takeD)
    then show ?thesis unfolding set by simp
  qed
  have new: "set (xs @ a # tl ys) = {x \<in> insert a (S - set (take 1 ys)). slot_of ?n (handles c) x = i}"
    using set slot d a(1) by (cases ys) auto
  have "chained hp ?n ts (insert a (S - set (take 1 ys)))"
    by (rule chained_update [OF ch foundD(2) [OF f] set re2 _ _ _ w(3) new]) (use w(4,5) a(1) slot hd in auto)
  moreover have "rechained (insert a S) (handles c) hp" using re2 by (rule rechained_mono) (use set in auto)
  ultimately show thesis using that w(1) by simp
qed

lemma chained_family:
  assumes ch: "chained hp n ts S"
  shows "\<exists>C. (\<forall>i < length ts. lseg h_next_hash hp (ts ! i) (C i) None) \<and> (\<forall>i j. i \<noteq> j \<longrightarrow> set (C i) \<inter> set (C j) = {}) \<and>
    S = (\<Union>i < length ts. set (C i))"
proof -
  have "\<forall>i. \<exists>as. i < length ts \<longrightarrow> lseg h_next_hash hp (ts ! i) as None \<and> set as = {a \<in> S. slot_of n hp a = i}"
    using chainedD(5) [OF ch] by blast
  from choice [OF this] obtain D where
    D: "\<forall>i. i < length ts \<longrightarrow> lseg h_next_hash hp (ts ! i) (D i) None \<and> set (D i) = {a \<in> S. slot_of n hp a = i}" by blast
  let ?C = "\<lambda>i. if i < length ts then D i else []"
  have "slot_of n hp a < length ts" for a using slot_bound chainedD(1,2) [OF ch] by (simp add: slot_of_def)
  then have "S = (\<Union>i < length ts. set (?C i))" using D by auto
  moreover have "set (?C i) \<inter> set (?C j) = {}" if "i \<noteq> j" for i j using D that by auto
  ultimately show ?thesis using D by (intro exI [of _ ?C]) auto
qed

text \<open>Growing when the chains get long.\<close>

lemma grow_ok:
  assumes t: "table_ok (handles c) (c_table c) S" and small: "card S \<le> 2 ^ 31"
  shows "\<exists>hp u. (if t_length (c_table c) < t_elems (c_table c) then Resize c else Some c) = Some (c\<lparr>handles := hp, c_table := u\<rparr>) \<and>
    rechained S (handles c) hp \<and> table_ok hp u S"
proof (cases "t_length (c_table c) < t_elems (c_table c)")
  case True
  have ch: "chained (handles c) (t_length (c_table c)) (t_list (c_table c)) S" and card: "card S = unat (t_elems (c_table c))"
    and inj: "inj_on (handle_id (handles c)) S" using t by (simp_all add: table_ok_def)
  obtain C where C: "\<forall>i < length (t_list (c_table c)). lseg h_next_hash (handles c) (t_list (c_table c) ! i) (C i) None"
    "\<forall>i j. i \<noteq> j \<longrightarrow> set (C i) \<inter> set (C j) = {}" "S = (\<Union>i < length (t_list (c_table c)). set (C i))" using chained_family [OF ch] by blast
  obtain hp ts n where r: "Resize c = Some (c\<lparr>handles := hp, c_table := (c_table c)\<lparr>t_list := ts, t_length := n\<rparr>\<rparr>)"
    "rechained S (handles c) hp" "chained hp n ts S" by (rule Resize_ok [OF C(1) chainedD(2) [OF ch] C(2,3) card small])
  have "table_ok hp ((c_table c)\<lparr>t_list := ts, t_length := n\<rparr>) S" using r(3) card inj rechainedD(4) [OF r(2)] by (simp add: table_ok_def)
  then show ?thesis unfolding if_P [OF True] using r(1,2) by blast
next
  case False
  then show ?thesis using t by (intro exI [of _ "handles c"] exI [of _ "c_table c"]) simp
qed

lemma table_Insert_ok:
  assumes t: "table_ok (handles c) (c_table c) S" "keyed (handles c) S" and a: "a \<notin> S" "handles c a = Some h" "h_next h \<noteq> Some a"
    and small: "card S < 2 ^ 31"
  shows "\<exists>hp u r. table_Insert a c = Some (c\<lparr>handles := hp, c_table := u\<rparr>, r) \<and> rechained (insert a S) (handles c) hp \<and>
    (case r of
       None \<Rightarrow> (\<forall>x \<in> S. handle_id (handles c) x \<noteq> handle_id (handles c) a) \<and> table_ok hp u (insert a S)
     | Some b \<Rightarrow> b \<in> S \<and> handle_id (handles c) b = handle_id (handles c) a \<and> table_ok hp u (insert a (S - {b})))"
proof -
  let ?n = "t_length (c_table c)" and ?k = "h_page_id h"
  have ch: "chained (handles c) ?n (t_list (c_table c)) S" and card: "card S = unat (t_elems (c_table c))" and inj: "inj_on (handle_id (handles c)) S"
    using t(1) by (simp_all add: table_ok_def)
  have id: "handle_id (handles c) a = Some (?k, h_hash h)" using a(2) by (simp add: handle_id_def)
  obtain i xs ys where f: "found c S ?k (h_hash h) i xs ys" using FindPointer_ok [OF t] by blast
  obtain hp ts where w: "write_slot (slot_at (Entry i) xs) (Some a) (c\<lparr>handles := (handles c)(a \<mapsto> h\<lparr>h_next_hash := start (tl ys)\<rparr>)\<rparr>) =
      Some (c\<lparr>handles := hp, c_table := (c_table c)\<lparr>t_list := ts\<rparr>\<rparr>)"
    "rechained (insert a S) (handles c) hp" "chained hp ?n ts (insert a (S - set (take 1 ys)))"
    by (rule enter_chain [OF ch f a(1,2)])
  show ?thesis
  proof (cases ys)
    case Nil
    let ?t = "(c_table c)\<lparr>t_list := ts, t_elems := t_elems (c_table c) + 1\<rparr>" let ?c = "c\<lparr>handles := hp, c_table := ?t\<rparr>"
    have none: "\<forall>x \<in> S. handle_id (handles c) x \<noteq> handle_id (handles c) a" using foundD(8) [OF f] Nil id by simp
    then have inj': "inj_on (handle_id hp) (insert a S)" using inj rechainedD(4) [OF w(2)] by auto
    have ch': "chained hp ?n ts (insert a S)" using w(3) Nil by simp
    have n: "card (insert a S) = unat (t_elems (c_table c) + 1)" "card (insert a S) \<le> 2 ^ 31"
      using card small a(1) chainedD(3) [OF ch] by (simp_all add: unat_word_ariths)
    have run: "table_Insert a c = map_option (\<lambda>c. (c, None)) (if ?n < t_elems (c_table c) + 1 then Resize ?c else Some ?c)"
      using a foundD(1,7) [OF f] Nil w(1)
      by (simp add: table_Insert_def handle_key_def assertion_def upd_handle_def Let_def map_conv_bind_option comp_def)
    have "table_ok (handles ?c) (c_table ?c) (insert a S)" using ch' n(1) inj' by (simp add: table_ok_def)
    from grow_ok [OF this n(2)] obtain hp' u where g: "(if ?n < t_elems (c_table c) + 1 then Resize ?c else Some ?c) = Some (?c\<lparr>handles := hp', c_table := u\<rparr>)"
      "rechained (insert a S) hp hp'" "table_ok hp' u (insert a S)" by auto
    have "rechained (insert a S) (handles c) hp'" using rechained_trans [OF w(2) g(2)] by simp
    then show ?thesis using run none g(1,3) by (intro exI [of _ hp'] exI [of _ u] exI [of _ None]) simp
  next
    case (Cons b zs)
    have b: "b \<in> S" "handle_id (handles c) b = handle_id (handles c) a" using foundD(8) [OF f] Cons id by simp_all
    obtain g where g: "handles c b = Some g" using chainedD(4) [OF ch b(1)] by blast
    have "h_next_hash g = start zs"
      using lseg_middle [of h_next_hash "handles c" _ "xs @ [b]" zs] foundD(4) [OF f] Cons g by simp
    then have run: "table_Insert a c = Some (c\<lparr>handles := hp, c_table := (c_table c)\<lparr>t_list := ts\<rparr>\<rparr>, Some b)"
      using a foundD(1,7) [OF f] Cons w(1) g by (simp add: table_Insert_def handle_key_def assertion_def upd_handle_def)
    have "card (insert a (S - {b})) = card S" using a(1) card_Suc_Diff1 [OF chainedD(3) [OF ch] b(1)] chainedD(3) [OF ch] by simp
    moreover have "inj_on (handle_id hp) (insert a (S - {b}))"
    proof -
      have "handle_id (handles c) x \<noteq> handle_id (handles c) a" if "x \<in> S - {b}" for x using inj_onD [OF inj, of x b] that b by auto
      then have "handle_id (handles c) a \<notin> handle_id (handles c) ` (S - {b})" by force
      moreover have "S - {b} - {a} = S - {b}" using a(1) by auto
      ultimately show ?thesis unfolding rechainedD(4) [OF w(2)] inj_on_insert using inj by (simp add: inj_on_diff)
    qed
    ultimately have "table_ok hp ((c_table c)\<lparr>t_list := ts\<rparr>) (insert a (S - {b}))" using w(3) Cons card by (simp add: table_ok_def)
    then show ?thesis using run w(2) b by (intro exI [of _ hp] exI [of _ "(c_table c)\<lparr>t_list := ts\<rparr>"] exI [of _ "Some b"]) simp
  qed
qed

end
