(* ===== verification/LruLaws.thy ===== *)
theory LruLaws
  imports LruTable
begin

text \<open>
  The invariant of a shard of the cache, with the references its clients hold, and what the operations
  do to it.
\<close>

section \<open>The invariant of a shard\<close>

text \<open>
  \<open>R a\<close> is the number of references that clients hold on the handle \<open>a\<close>. A handle in the cache is on the
  list \<open>L\<close> when nobody uses it and on \<open>U\<close> otherwise; a handle that is not in the cache any more lives as
  long as somebody uses it.
\<close>

definition handle_ok :: "(addr \<Rightarrow> nat) \<Rightarrow> addr list \<Rightarrow> addr list \<Rightarrow> addr \<Rightarrow> LRUHandle \<Rightarrow> bool" where
  "handle_ok R L U a h \<longleftrightarrow> (h_in_cache h \<longleftrightarrow> a \<in> set L \<union> set U) \<and> unat (h_refs h) = R a + (if h_in_cache h then 1 else 0) \<and>
     (a \<in> set L \<longrightarrow> R a = 0) \<and> (a \<in> set U \<longrightarrow> 0 < R a) \<and> (h_in_cache h \<or> 0 < R a)"

definition lists_ok :: "(addr \<Rightarrow> nat) \<Rightarrow> addr list \<Rightarrow> addr list \<Rightarrow> LRUCache \<Rightarrow> bool" where
  "lists_ok R L U c \<longleftrightarrow> ring (handles c) (lru_head c) L \<and> ring (handles c) (in_use_head c) U \<and>
     distinct (lru_head c # in_use_head c # L @ U) \<and>
     (\<forall>a h. handles c a = Some h \<longrightarrow> a \<noteq> lru_head c \<longrightarrow> a \<noteq> in_use_head c \<longrightarrow> handle_ok R L U a h) \<and>
     (\<forall>a. 0 < R a \<longrightarrow> a \<in> dom (handles c) - {lru_head c, in_use_head c}) \<and>
     unat (c_usage c) = (\<Sum>a \<in> set L \<union> set U. unat (h_charge (the (handles c a))))"

definition shard_ok :: "(addr \<Rightarrow> nat) \<Rightarrow> addr list \<Rightarrow> addr list \<Rightarrow> LRUCache \<Rightarrow> bool" where
  "shard_ok R L U c \<longleftrightarrow> lists_ok R L U c \<and> table_ok (handles c) (c_table c) (set L \<union> set U)"

lemma lists_okD:
  assumes "lists_ok R L U c"
  shows "ring (handles c) (lru_head c) L" "ring (handles c) (in_use_head c) U" "distinct (lru_head c # in_use_head c # L @ U)"
    "handles c a = Some h \<Longrightarrow> a \<noteq> lru_head c \<Longrightarrow> a \<noteq> in_use_head c \<Longrightarrow> handle_ok R L U a h"
    "0 < R a \<Longrightarrow> a \<in> dom (handles c) - {lru_head c, in_use_head c}"
    "unat (c_usage c) = (\<Sum>a \<in> set L \<union> set U. unat (h_charge (the (handles c a))))"
  using assms unfolding lists_ok_def by blast+

lemma shard_okD:
  assumes "shard_ok R L U c"
  shows "lists_ok R L U c" "table_ok (handles c) (c_table c) (set L \<union> set U)"
  using assms by (simp_all add: shard_ok_def)

lemma lists_handle:
  assumes ok: "lists_ok R L U c" and a: "a \<in> set L \<union> set U"
  obtains h where "handles c a = Some h" "handle_ok R L U a h" "h_in_cache h" "a \<noteq> lru_head c" "a \<noteq> in_use_head c" "h_next h \<noteq> Some a"
proof -
  note D = lists_okD [OF ok]
  obtain h where h: "handles c a = Some h" using ring_alloc [OF D(1), of a] ring_alloc [OF D(2), of a] a by auto
  have ne: "a \<noteq> lru_head c" "a \<noteq> in_use_head c" using D(3) a by auto
  have "h_next h \<noteq> Some a" using ring_no_self [OF D(1) _ h] ring_no_self [OF D(2) _ h] a by auto
  moreover have "handle_ok R L U a h" by (rule D(4) [OF h ne])
  ultimately show thesis using that h ne a by (simp add: handle_ok_def)
qed

lemma lists_keyed: "lists_ok R L U c \<Longrightarrow> keyed (handles c) (set L \<union> set U)"
  unfolding keyed_def
proof
  fix a assume ok: "lists_ok R L U c" and a: "a \<in> set L \<union> set U"
  show "\<exists>h. handles c a = Some h \<and> h_next h \<noteq> Some a" by (rule lists_handle [OF ok a]) blast
qed

lemma held_handle:
  assumes ok: "lists_ok R L U c" and a: "0 < R a"
  obtains h where "handles c a = Some h" "handle_ok R L U a h" "a \<noteq> lru_head c" "a \<noteq> in_use_head c"
proof -
  obtain h where h: "handles c a = Some h" "a \<noteq> lru_head c" "a \<noteq> in_use_head c" using lists_okD(5) [OF ok a] by blast
  then show thesis using that lists_okD(4) [OF ok h] by blast
qed

text \<open>What the rest of a handle is for the cache.\<close>

definition core :: "LRUHandle \<Rightarrow> ptr \<times> KeyType \<times> u32 \<times> u64 \<times> ptr" where
  "core h = (h_value h, h_page_id h, h_hash h, h_charge h, h_deleter h)"

definition keeps :: "addr set \<Rightarrow> LRUCache \<Rightarrow> LRUCache \<Rightarrow> bool" where
  "keeps X c c' \<longleftrightarrow> c_capacity c' = c_capacity c \<and> lru_head c' = lru_head c \<and> in_use_head c' = in_use_head c \<and>
     (\<forall>a. a \<notin> X \<longrightarrow> map_option core (handles c' a) = map_option core (handles c a))"

lemma keeps_trans: "keeps X c c' \<Longrightarrow> keeps Y c' c'' \<Longrightarrow> keeps (X \<union> Y) c c''"
  by (simp add: keeps_def)

lemma keepsD:
  assumes "keeps X c c'"
  shows "c_capacity c' = c_capacity c" "lru_head c' = lru_head c" "in_use_head c' = in_use_head c"
    "a \<notin> X \<Longrightarrow> map_option core (handles c' a) = map_option core (handles c a)"
  using assms by (simp_all add: keeps_def)

section \<open>Frames\<close>

lemma table_frame:
  assumes t: "table_ok hp t S"
    and same: "\<And>a. a \<in> S \<Longrightarrow> map_option (\<lambda>h. (h_next_hash h, h_page_id h, h_hash h)) (hp' a) = map_option (\<lambda>h. (h_next_hash h, h_page_id h, h_hash h)) (hp a)"
  shows "table_ok hp' t S"
proof -
  have ch: "chained hp (t_length t) (t_list t) S" using t by (simp add: table_ok_def)
  have alloc: "\<exists>x y. hp a = Some x \<and> hp' a = Some y \<and> h_next_hash y = h_next_hash x \<and> h_page_id y = h_page_id x \<and> h_hash y = h_hash x"
    if "a \<in> S" for a
  proof -
    from chainedD(4) [OF ch that] obtain x where "hp a = Some x" by blast
    with same [OF that] show ?thesis by (cases "hp' a") auto
  qed
  have id: "handle_id hp' a = handle_id hp a" if "a \<in> S" for a using alloc [OF that] by (auto simp: handle_id_def)
  have slot: "slot_of n hp' a = slot_of n hp a" if "a \<in> S" for a n using alloc [OF that] by (auto simp: slot_of_def)
  have "\<exists>as. lseg h_next_hash hp' (t_list t ! i) as None \<and> set as = {a \<in> S. slot_of (t_length t) hp' a = i}" if "i < length (t_list t)" for i
  proof -
    obtain as where as: "lseg h_next_hash hp (t_list t ! i) as None" "set as = {a \<in> S. slot_of (t_length t) hp a = i}"
      using chainedD(5) [OF ch \<open>i < length (t_list t)\<close>] by blast
    have "lseg h_next_hash hp' (t_list t ! i) as None = lseg h_next_hash hp (t_list t ! i) as None"
    proof (rule lseg_proj)
      fix a assume "a \<in> set as"
      then have "a \<in> S" using as(2) by auto
      then show "map_option h_next_hash (hp' a) = map_option h_next_hash (hp a)" using alloc [of a] by auto
    qed
    with as(1) have "lseg h_next_hash hp' (t_list t ! i) as None" by simp
    moreover have "{a \<in> S. slot_of (t_length t) hp a = i} = {a \<in> S. slot_of (t_length t) hp' a = i}" using slot by auto
    ultimately show ?thesis using as(2) by auto
  qed
  moreover have "S \<subseteq> dom hp'" using alloc by blast
  moreover have "inj_on (handle_id hp') S = inj_on (handle_id hp) S" by (rule inj_on_cong) (rule id)
  ultimately show ?thesis using ch t by (simp add: table_ok_def chained_def)
qed

abbreviation counts :: "LRUHandle \<Rightarrow> u32 \<times> bool \<times> u64" where
  "counts h \<equiv> (h_refs h, h_in_cache h, h_charge h)"

lemma unlinked_eqD:
  assumes "map_option unlinked x = map_option unlinked y"
  shows "map_option counts x = map_option counts y" "map_option core x = map_option core y"
    "map_option (\<lambda>h. (h_next_hash h, h_page_id h, h_hash h)) x = map_option (\<lambda>h. (h_next_hash h, h_page_id h, h_hash h)) y"
  using arg_cong [OF assms, of "map_option counts"] arg_cong [OF assms, of "map_option core"]
    arg_cong [OF assms, of "map_option (\<lambda>h. (h_next_hash h, h_page_id h, h_hash h))"]
  by (simp_all add: option.map_comp comp_def core_def [abs_def])

lemma unchained_eqD:
  assumes "map_option unchained x = map_option unchained y"
  shows "map_option counts x = map_option counts y" "map_option core x = map_option core y"
    "map_option h_next x = map_option h_next y" "map_option h_prev x = map_option h_prev y"
  using arg_cong [OF assms, of "map_option counts"] arg_cong [OF assms, of "map_option core"]
    arg_cong [OF assms, of "map_option h_next"] arg_cong [OF assms, of "map_option h_prev"]
  by (simp_all add: option.map_comp comp_def core_def [abs_def])

text \<open>A change of one handle, with what it does to the lists and to the references.\<close>

lemma lists_change:
  assumes ok: "lists_ok R L U c" and heads: "lru_head c' = lru_head c" "in_use_head c' = in_use_head c" "a \<noteq> lru_head c" "a \<noteq> in_use_head c"
    and rings: "ring (handles c') (lru_head c) L'" "ring (handles c') (in_use_head c) U'" "distinct (lru_head c # in_use_head c # L' @ U')"
    and other: "\<And>b. b \<noteq> a \<Longrightarrow> map_option counts (handles c' b) = map_option counts (handles c b)"
    and lists: "\<And>b. b \<noteq> a \<Longrightarrow> (b \<in> set L' \<longleftrightarrow> b \<in> set L) \<and> (b \<in> set U' \<longleftrightarrow> b \<in> set U) \<and> R' b = R b"
    and own: "case handles c' a of None \<Rightarrow> R' a = 0 | Some h \<Rightarrow> handle_ok R' L' U' a h"
    and usage: "unat (c_usage c') = (\<Sum>b \<in> set L' \<union> set U'. unat (h_charge (the (handles c' b))))"
  shows "lists_ok R' L' U' c'"
proof -
  note D = lists_okD [OF ok]
  have "handle_ok R' L' U' b h" if h: "handles c' b = Some h" "b \<noteq> lru_head c" "b \<noteq> in_use_head c" for b h
  proof (cases "b = a")
    case True
    then show ?thesis using own h(1) by simp
  next
    case False
    then obtain g where g: "handles c b = Some g" "counts g = counts h" using other [OF False] h(1) by (cases "handles c b") auto
    show ?thesis using D(4) [OF g(1) h(2,3)] g(2) lists [OF False] by (auto simp: handle_ok_def)
  qed
  moreover have "b \<in> dom (handles c') - {lru_head c, in_use_head c}" if "0 < R' b" for b
  proof (cases "b = a")
    case True
    then show ?thesis using own that heads(3,4) by (cases "handles c' a") auto
  next
    case False
    then have "b \<in> dom (handles c) - {lru_head c, in_use_head c}" using D(5) lists that by simp
    then show ?thesis using other [OF False] by (cases "handles c' b") auto
  qed
  ultimately show ?thesis unfolding lists_ok_def heads using rings usage by blast
qed

lemma usage_same:
  assumes ok: "lists_ok R L U c" and sets: "set L' \<union> set U' = set L \<union> set U" and u: "c_usage c' = c_usage c"
    and same: "\<And>b. b \<in> set L \<union> set U \<Longrightarrow> map_option h_charge (handles c' b) = map_option h_charge (handles c b)"
  shows "unat (c_usage c') = (\<Sum>b \<in> set L' \<union> set U'. unat (h_charge (the (handles c' b))))"
proof -
  have "h_charge (the (handles c' b)) = h_charge (the (handles c b))" if b: "b \<in> set L \<union> set U" for b
  proof -
    obtain h where "handles c b = Some h" by (rule lists_handle [OF ok b])
    with same [OF b] show ?thesis by auto
  qed
  then show ?thesis unfolding sets u lists_okD(6) [OF ok] by simp
qed

section \<open>Moving between the lists\<close>

lemma move_handle:
  assumes r: "ring (handles c) s (xs @ a # ys)" "ring (handles c) t zs" and d: "distinct (s # t # xs @ a # ys @ zs)"
  obtains c1 c' where "LRU_Remove a c = Some c1" "LRU_Append t a c1 = Some c'" "ring (handles c') s (xs @ ys)" "ring (handles c') t (zs @ [a])"
    "relinks UNIV c c'" "lru_head c1 = lru_head c" "in_use_head c1 = in_use_head c"
proof -
  obtain c1 where c1: "LRU_Remove a c = Some c1" "ring (handles c1) s (xs @ ys)" "relinks (set (s # xs @ ys)) c c1"
    by (rule LRU_Remove_ok [OF r(1)])
  have "handles c1 x = handles c x" if "x \<in> set (t # zs)" for x using that d by (intro relinksD(7) [OF c1(3)]) auto
  then have t1: "ring (handles c1) t zs" using r(2) ring_frame by metis
  obtain h where h: "handles c a = Some h" using ring_alloc [OF r(1), of a] by auto
  then have h1: "handles c1 a = Some h" using relinksD(7) [OF c1(3), of a] d by auto
  obtain c2 where c2: "LRU_Append t a c1 = Some c2" "ring (handles c2) t (zs @ [a])" "relinks (set (t # zs @ [a])) c1 c2"
    by (rule LRU_Append_ok [OF t1 _ h1]) (use d in auto)
  have "handles c2 x = handles c1 x" if "x \<in> set (s # xs @ ys)" for x using that d by (intro relinksD(7) [OF c2(3)]) auto
  then have "ring (handles c2) s (xs @ ys)" using c1(2) ring_frame by metis
  moreover have "relinks UNIV c c2" using relinks_trans [OF c1(3) c2(3)] by (simp add: relinks_def)
  ultimately show thesis using that c1(1) c2(1,2) relinksD(3,4) [OF c1(3)] by blast
qed

lemma remove1_split: "distinct (xs @ a # ys) \<Longrightarrow> remove1 a (xs @ a # ys) = xs @ ys"
  by (simp add: remove1_append)

lemma relinks_refl [simp]: "relinks A c c"
  by (auto simp: relinks_def intro: exI [of _ "handles c"])

lemma relinks_recount:
  assumes "relinks A c c'" "handles c a = Some h" "handles c' a = Some h'"
  shows "relinks UNIV (c\<lparr>handles := (handles c)(a \<mapsto> h\<lparr>h_refs := r\<rparr>)\<rparr>) (c'\<lparr>handles := (handles c')(a \<mapsto> h'\<lparr>h_refs := r\<rparr>)\<rparr>)"
proof -
  have "unlinked h' = unlinked h" using relinksD(8) [OF assms(1), of a] assms(2,3) by simp
  then have "unlinked (h'\<lparr>h_refs := r\<rparr>) = unlinked (h\<lparr>h_refs := r\<rparr>)" by (cases h; cases h') simp
  with assms(1) show ?thesis unfolding relinks_def by auto
qed

text \<open>A new number of references, with the handle on the list where it belongs.\<close>

lemma recount_ok:
  assumes ok: "lists_ok R L U c" and h: "handles c a = Some h"
    and c': "relinks UNIV (c\<lparr>handles := (handles c)(a \<mapsto> h\<lparr>h_refs := r\<rparr>)\<rparr>) c'"
    and rings: "ring (handles c') (lru_head c) L'" "ring (handles c') (in_use_head c) U'" "distinct (lru_head c # in_use_head c # L' @ U')"
    and sets: "set L' \<union> set U' = set L \<union> set U" "\<forall>b. b \<noteq> a \<longrightarrow> (b \<in> set L' \<longleftrightarrow> b \<in> set L) \<and> (b \<in> set U' \<longleftrightarrow> b \<in> set U)"
    and a: "a \<noteq> lru_head c" "a \<noteq> in_use_head c" "handle_ok (R(a := n)) L' U' a (h\<lparr>h_refs := r\<rparr>)"
  shows "lists_ok (R(a := n)) L' U' c'" and "keeps {} c c'"
    and "table_ok (handles c) (c_table c) S \<Longrightarrow> table_ok (handles c') (c_table c') S"
proof -
  let ?hp = "(handles c)(a \<mapsto> h\<lparr>h_refs := r\<rparr>)"
  note D = relinksD(1-6) [OF c', simplified] and same = unlinked_eqD [OF relinksD(8) [OF c'], simplified]
  have core: "map_option core (handles c' b) = map_option core (handles c b)" for b
    using same(2) [of b] h by (cases "b = a") (simp_all add: core_def)
  have charge: "map_option h_charge (handles c' b) = map_option h_charge (handles c b)" for b
    using arg_cong [OF core [of b], of "map_option (\<lambda>(v, k, g, ch, d). ch)"] by (simp add: option.map_comp comp_def core_def [abs_def])
  obtain h' where h': "handles c' a = Some h'" "counts h' = counts (h\<lparr>h_refs := r\<rparr>)" using same(1) [of a] by (cases "handles c' a") auto
  have own: "handle_ok (R(a := n)) L' U' a h'" using a(3) h'(2) by (auto simp: handle_ok_def)
  show "lists_ok (R(a := n)) L' U' c'"
  proof (rule lists_change [OF ok _ _ a(1,2)])
    show "map_option counts (handles c' b) = map_option counts (handles c b)" if "b \<noteq> a" for b using same(1) [of b] that by simp
    show "unat (c_usage c') = (\<Sum>b \<in> set L' \<union> set U'. unat (h_charge (the (handles c' b))))"
      by (rule usage_same [OF ok sets(1)]) (use D(2) charge in simp_all)
  qed (use rings D sets h' own in auto)
  show "keeps {} c c'" using D core by (simp add: keeps_def)
  show "table_ok (handles c') (c_table c') S" if "table_ok (handles c) (c_table c) S"
    unfolding D(5) using that
  proof (rule table_frame)
    fix b show "map_option (\<lambda>h. (h_next_hash h, h_page_id h, h_hash h)) (handles c' b) = map_option (\<lambda>h. (h_next_hash h, h_page_id h, h_hash h)) (handles c b)"
      using same(3) [of b] h by (cases "b = a") simp_all
  qed
qed

text \<open>A client gets one more reference.\<close>

lemma Ref_ok:
  assumes s: "shard_ok R L U c" and a: "a \<in> set L \<union> set U" "R a + 2 < 2 ^ 32"
  obtains c' where "Ref a c = Some c'"
    "shard_ok (R(a := R a + 1)) (remove1 a L) (if a \<in> set L then U @ [a] else U) c'" "keeps {} c c'"
proof -
  note ok = shard_okD(1) [OF s]
  note D = lists_okD [OF ok]
  obtain h where h: "handles c a = Some h" "handle_ok R L U a h" "h_in_cache h" "a \<noteq> lru_head c" "a \<noteq> in_use_head c"
    by (rule lists_handle [OF ok a(1)])
  have refs: "unat (h_refs h) = R a + 1" "a \<in> set L \<Longrightarrow> R a = 0" "a \<in> set U \<Longrightarrow> 0 < R a" using h(2,3) by (auto simp: handle_ok_def)
  have L: "h_refs h = 1 \<longleftrightarrow> a \<in> set L" using refs a(1) by (auto simp: word_unat_eq_iff)
  let ?L = "remove1 a L" and ?U = "if a \<in> set L then U @ [a] else U"
  have "\<exists>c1. (if h_refs h = 1 \<and> h_in_cache h then do { c \<leftarrow> LRU_Remove a c; LRU_Append (in_use_head c) a c } else Some c) = Some c1 \<and>
    ring (handles c1) (lru_head c) ?L \<and> ring (handles c1) (in_use_head c) ?U \<and> relinks UNIV c c1"
  proof (cases "a \<in> set L")
    case True
    then obtain xs ys where xs: "L = xs @ a # ys" by (meson split_list)
    obtain c1 c2 where m: "LRU_Remove a c = Some c1" "LRU_Append (in_use_head c) a c1 = Some c2" "ring (handles c2) (lru_head c) (xs @ ys)"
      "ring (handles c2) (in_use_head c) (U @ [a])" "relinks UNIV c c2" "lru_head c1 = lru_head c" "in_use_head c1 = in_use_head c"
      by (rule move_handle [OF D(1) [unfolded xs] D(2)]) (use D(3) xs in auto)
    then show ?thesis using m True L h(3) D(3) xs by (simp add: remove1_append)
  qed (use D L h(3) in \<open>auto simp: remove1_idem\<close>)
  then obtain c1 where c1: "(if h_refs h = 1 \<and> h_in_cache h then do { c \<leftarrow> LRU_Remove a c; LRU_Append (in_use_head c) a c } else Some c) = Some c1"
    "ring (handles c1) (lru_head c) ?L" "ring (handles c1) (in_use_head c) ?U" "relinks UNIV c c1" by blast
  obtain h1 where h1: "handles c1 a = Some h1" "unlinked h1 = unlinked h" by (rule relinks_handle [OF c1(4) h(1)])
  have fields: "h_refs h1 = h_refs h" "h_in_cache h1 = h_in_cache h" using unlinked_eqD(1) [OF relinksD(8) [OF c1(4), of a]] h1(1) h(1) by simp_all
  have new: "handle_ok (R(a := R a + 1)) ?L ?U a (h\<lparr>h_refs := h_refs h1 + 1\<rparr>)"
    using refs(1) a fields h(3) D(3) by (auto simp: handle_ok_def unat_word_ariths)
  have d: "distinct (lru_head c # in_use_head c # ?L @ ?U)" using D(3) by (auto simp: distinct_remove1 dest: notin_set_remove1)
  have sets: "set ?L \<union> set ?U = set L \<union> set U" "\<forall>b. b \<noteq> a \<longrightarrow> (b \<in> set ?L \<longleftrightarrow> b \<in> set L) \<and> (b \<in> set ?U \<longleftrightarrow> b \<in> set U)"
    using D(3) a(1) by auto
  let ?c = "c1\<lparr>handles := (handles c1)(a \<mapsto> h1\<lparr>h_refs := h_refs h1 + 1\<rparr>)\<rparr>"
  have "ring (handles ?c) x xs = ring (handles c1) x xs" for x xs using h1(1) by (intro ring_cong) auto
  with c1(2,3) have rings: "ring (handles ?c) (lru_head c) ?L" "ring (handles ?c) (in_use_head c) ?U" by simp_all
  note r = recount_ok [OF ok h(1) relinks_recount [OF c1(4) h(1) h1(1)] rings d sets h(4,5) new]
  have "Ref a c = Some (c1\<lparr>handles := (handles c1)(a \<mapsto> h1\<lparr>h_refs := h_refs h1 + 1\<rparr>)\<rparr>)"
    using h(1) c1(1) h1(1) by (simp add: Ref_def upd_handle_def)
  then show thesis using that r(1,2) r(3) [OF shard_okD(2) [OF s]] sets(1) by (simp add: shard_ok_def)
qed

text \<open>A client gives a reference back: the handle of an entry of the cache, whose last reference makes it the
  youngest of the unused ones, or the handle of an entry that has been erased, which goes with its last
  reference.\<close>

lemma ring_refs [simp]: "handles c a = Some h \<Longrightarrow> ring ((handles c)(a \<mapsto> h\<lparr>h_refs := r\<rparr>)) x xs = ring (handles c) x xs"
  by (intro ring_cong) auto

lemma Unref_cached:
  assumes s: "shard_ok R L U c" and a: "a \<in> set U"
  obtains c' where "Unref a c = Some c'"
    "shard_ok (R(a := R a - 1)) (if R a = 1 then L @ [a] else L) (if R a = 1 then remove1 a U else U) c'" "keeps {} c c'"
proof -
  note ok = shard_okD(1) [OF s]
  note D = lists_okD [OF ok]
  have aU: "a \<in> set L \<union> set U" using a by simp
  obtain h where h: "handles c a = Some h" "handle_ok R L U a h" "h_in_cache h" "a \<noteq> lru_head c" "a \<noteq> in_use_head c"
    by (rule lists_handle [OF ok aU])
  have refs: "unat (h_refs h) = R a + 1" "0 < R a" using h(2,3) a by (auto simp: handle_ok_def)
  have less: "unat (h_refs h - 1) = R a" using refs(1) by (simp add: unat_sub word_le_nat_alt)
  then have one: "h_refs h - 1 \<noteq> 0" "h_refs h - 1 = 1 \<longleftrightarrow> R a = 1" "0 < h_refs h"
    using refs by (auto simp: word_unat_eq_iff word_less_nat_alt)
  let ?L = "if R a = 1 then L @ [a] else L" and ?U = "if R a = 1 then remove1 a U else U"
  let ?c = "c\<lparr>handles := (handles c)(a \<mapsto> h\<lparr>h_refs := h_refs h - 1\<rparr>)\<rparr>"
  have rings: "ring (handles ?c) (in_use_head c) U" "ring (handles ?c) (lru_head c) L" using D(1,2) h(1) by simp_all
  have "\<exists>c1. (if R a = 1 then do { c \<leftarrow> LRU_Remove a ?c; LRU_Append (lru_head c) a c } else Some ?c) = Some c1 \<and>
    ring (handles c1) (lru_head c) ?L \<and> ring (handles c1) (in_use_head c) ?U \<and> relinks UNIV ?c c1"
  proof (cases "R a = 1")
    case True
    obtain xs ys where xs: "U = xs @ a # ys" using a by (meson split_list)
    obtain c1 c2 where m: "LRU_Remove a ?c = Some c1" "LRU_Append (lru_head c) a c1 = Some c2" "ring (handles c2) (in_use_head c) (xs @ ys)"
      "ring (handles c2) (lru_head c) (L @ [a])" "relinks UNIV ?c c2" "lru_head c1 = lru_head ?c" "in_use_head c1 = in_use_head ?c"
      by (rule move_handle [OF rings(1) [unfolded xs] rings(2)]) (use D(3) xs in auto)
    then show ?thesis using m True D(3) xs by (simp add: remove1_append)
  qed (use rings in simp)
  then obtain c1 where c1: "(if R a = 1 then do { c \<leftarrow> LRU_Remove a ?c; LRU_Append (lru_head c) a c } else Some ?c) = Some c1"
    "ring (handles c1) (lru_head c) ?L" "ring (handles c1) (in_use_head c) ?U" "relinks UNIV ?c c1" by blast
  have new: "handle_ok (R(a := R a - 1)) ?L ?U a (h\<lparr>h_refs := h_refs h - 1\<rparr>)"
    using refs less a h(3) D(3) by (auto simp: handle_ok_def)
  have d: "distinct (lru_head c # in_use_head c # ?L @ ?U)" using D(3) h(4,5) a by (auto simp: distinct_remove1 dest: notin_set_remove1)
  have sets: "set ?L \<union> set ?U = set L \<union> set U" "\<forall>b. b \<noteq> a \<longrightarrow> (b \<in> set ?L \<longleftrightarrow> b \<in> set L) \<and> (b \<in> set ?U \<longleftrightarrow> b \<in> set U)"
    using D(3) a by auto
  note r = recount_ok [OF ok h(1) c1(4,2,3) d sets h(4,5) new]
  have "Unref a c = Some c1" using h(1,3) c1(1) one by (simp add: Unref_def upd_handle_def assertion_def)
  then show thesis using that r(1,2) r(3) [OF shard_okD(2) [OF s]] sets(1) by (simp add: shard_ok_def)
qed

lemma Unref_erased:
  assumes ok: "lists_ok R L U c" and a: "0 < R a" "a \<notin> set L \<union> set U"
  obtains c' where "Unref a c = Some c'" "lists_ok (R(a := R a - 1)) L U c'" "keeps {a} c c'" "c_table c' = c_table c"
    "\<forall>b. b \<noteq> a \<longrightarrow> handles c' b = handles c b" "R a = 1 \<Longrightarrow> handles c' a = None" "R a \<noteq> 1 \<Longrightarrow> keeps {} c c'"
proof -
  note D = lists_okD [OF ok]
  obtain h where h: "handles c a = Some h" "handle_ok R L U a h" "a \<noteq> lru_head c" "a \<noteq> in_use_head c" by (rule held_handle [OF ok a(1)])
  have refs: "unat (h_refs h) = R a" "\<not> h_in_cache h" using h(2) a(2) by (auto simp: handle_ok_def)
  have less: "unat (h_refs h - 1) = R a - 1" using refs(1) a(1) by (simp add: unat_sub word_le_nat_alt)
  then have one: "h_refs h - 1 = 0 \<longleftrightarrow> R a = 1" "0 < h_refs h" using refs(1) a(1) by (auto simp: word_unat_eq_iff word_less_nat_alt)
  let ?c = "c\<lparr>handles := (handles c)(a := if R a = 1 then None else Some (h\<lparr>h_refs := h_refs h - 1\<rparr>))\<rparr>"
  have "Unref a c = Some (?c\<lparr>deleted := deleted c @ (if R a = 1 then (case h_deleter h of None \<Rightarrow> [] | Some d \<Rightarrow> [(d, a)]) else [])\<rparr>)"
    using h(1) refs(2) one by (cases "R a = 1"; cases "h_deleter h") (simp_all add: Unref_def upd_handle_def assertion_def delete_handle_def)
  then obtain c' where c': "Unref a c = Some c'" "handles c' = handles ?c" "c_usage c' = c_usage c" "c_table c' = c_table c"
    "lru_head c' = lru_head c" "in_use_head c' = in_use_head c" "c_capacity c' = c_capacity c" by simp
  have out: "b \<noteq> a" if "b \<in> set L \<union> set U" for b using that a(2) by auto
  have "lists_ok (R(a := R a - 1)) L U c'"
  proof (rule lists_change [OF ok c'(5,6) h(3,4)])
    have same: "handles c' x = handles c x" if "x \<noteq> a" for x using that c'(2) by simp
    show "ring (handles c') (lru_head c) L" "ring (handles c') (in_use_head c) U"
      using D(1,2) same out h(3,4) ring_frame [of "lru_head c" L "handles c'" "handles c"] ring_frame [of "in_use_head c" U "handles c'" "handles c"] by fastforce+
    show "unat (c_usage c') = (\<Sum>b \<in> set L \<union> set U. unat (h_charge (the (handles c' b))))"
      by (rule usage_same [OF ok]) (use c'(3) same out in simp_all)
  qed (use D(3) c'(2) refs less a in \<open>auto simp: handle_ok_def\<close>)
  moreover have "keeps {a} c c'" "R a \<noteq> 1 \<Longrightarrow> keeps {} c c'" using c' h(1) by (auto simp: keeps_def core_def)
  ultimately show thesis using that c' by simp
qed

section \<open>Erasing\<close>

lemma unlink_handle:
  assumes ok: "lists_ok R L U c" and a: "a \<in> set L \<union> set U"
  shows "\<exists>c'. LRU_Remove a c = Some c' \<and> ring (handles c') (lru_head c) (remove1 a L) \<and> ring (handles c') (in_use_head c) (remove1 a U) \<and>
    relinks (set (lru_head c # in_use_head c # remove1 a L @ remove1 a U)) c c'"
proof -
  have rem: "\<exists>c'. LRU_Remove a c = Some c' \<and> ring (handles c') s (remove1 a A) \<and> ring (handles c') t (remove1 a B) \<and>
      relinks (set (s # t # remove1 a A @ remove1 a B)) c c'"
    if t: "ring (handles c) s A" "ring (handles c) t B" "distinct (s # t # A @ B)" "a \<in> set A" for s A t B
  proof -
    obtain xs ys where xs: "A = xs @ a # ys" using t(4) by (meson split_list)
    obtain c1 where c1: "LRU_Remove a c = Some c1" "ring (handles c1) s (xs @ ys)" "relinks (set (s # xs @ ys)) c c1"
      by (rule LRU_Remove_ok [OF t(1) [unfolded xs]])
    have same: "handles c1 x = handles c x" if "x \<in> set (t # B)" for x
      using that t(3) xs by (intro relinksD(7) [OF c1(3)]) auto
    have "ring (handles c1) t B" using t(2) ring_frame [of t B "handles c1" "handles c", OF same] by blast
    moreover have "a \<notin> set B" "a \<notin> set xs" using t(3) xs by auto
    moreover have "relinks (set (s # t # (xs @ ys) @ B)) c c1" using c1(3) by (auto simp: relinks_def)
    ultimately show ?thesis using c1(1,2) xs by (simp add: remove1_append remove1_idem)
  qed
  note D = lists_okD(1-3) [OF ok]
  show ?thesis
  proof (cases "a \<in> set L")
    case True
    then show ?thesis using rem [OF D(1,2,3)] by blast
  next
    case False
    have "distinct (in_use_head c # lru_head c # U @ L)" using D(3) by auto
    moreover have "set (in_use_head c # lru_head c # remove1 a U @ remove1 a L) = set (lru_head c # in_use_head c # remove1 a L @ remove1 a U)" by auto
    ultimately show ?thesis using rem [OF D(2,1)] False a by fastforce
  qed
qed

lemma usage_minus:
  assumes ok: "lists_ok R L U c" and a: "a \<in> set L \<union> set U" "handles c a = Some h"
  shows "unat (c_usage c - h_charge h) = (\<Sum>b \<in> set L \<union> set U - {a}. unat (h_charge (the (handles c b))))"
proof -
  have "unat (c_usage c) = unat (h_charge h) + (\<Sum>b \<in> set L \<union> set U - {a}. unat (h_charge (the (handles c b))))"
    unfolding lists_okD(6) [OF ok] using a by (subst sum.remove [of _ a]) simp_all
  then show ?thesis by (subst unat_sub) (simp_all add: word_le_nat_alt)
qed

text \<open>The reference of the cache is as good as one of a client once the handle is off the lists.\<close>

lemma unlink_ok:
  assumes ok: "lists_ok R L U c" and a: "a \<in> set L \<union> set U"
  obtains h c1 h1 where "handles c a = Some h" "h_in_cache h" "LRU_Remove a c = Some c1" "handles c1 a = Some h1" "c_usage c1 = c_usage c"
    "lists_ok (R(a := R a + 1)) (remove1 a L) (remove1 a U) (c1\<lparr>handles := (handles c1)(a \<mapsto> h1\<lparr>h_in_cache := False\<rparr>), c_usage := c_usage c - h_charge h\<rparr>)"
    "relinks UNIV c c1"
proof -
  note D = lists_okD [OF ok]
  obtain h where h: "handles c a = Some h" "handle_ok R L U a h" "h_in_cache h" "a \<noteq> lru_head c" "a \<noteq> in_use_head c"
    by (rule lists_handle [OF ok a])
  from unlink_handle [OF ok a] obtain c1 where c1: "LRU_Remove a c = Some c1" "ring (handles c1) (lru_head c) (remove1 a L)"
    "ring (handles c1) (in_use_head c) (remove1 a U)" "relinks (set (lru_head c # in_use_head c # remove1 a L @ remove1 a U)) c c1" by blast
  note K = relinksD [OF c1(4)]
  have out: "a \<notin> set (lru_head c # in_use_head c # remove1 a L @ remove1 a U)" using h(4,5) D(3) by auto
  have h1: "handles c1 a = Some h" using K(7) [OF out] h(1) by simp
  have sets: "set (remove1 a L) \<union> set (remove1 a U) = set L \<union> set U - {a}" using D(3) by auto
  let ?c = "c1\<lparr>handles := (handles c1)(a \<mapsto> h\<lparr>h_in_cache := False\<rparr>), c_usage := c_usage c - h_charge h\<rparr>"
  have counts: "map_option counts (handles c1 b) = map_option counts (handles c b)" for b by (rule unlinked_eqD(1) [OF K(8)])
  have "lists_ok (R(a := R a + 1)) (remove1 a L) (remove1 a U) ?c"
  proof (rule lists_change [OF ok _ _ h(4,5)])
    show "ring (handles ?c) (lru_head c) (remove1 a L)" "ring (handles ?c) (in_use_head c) (remove1 a U)"
      using c1(2,3) h1 ring_cong [of _ _ "handles ?c" "handles c1"] by auto
    have "h_charge (the (handles ?c b)) = h_charge (the (handles c b))" if "b \<in> set L \<union> set U - {a}" for b
    proof -
      have "b \<in> set L \<union> set U" using that by simp
      then obtain g where "handles c b = Some g" by (rule lists_handle [OF ok])
      then show ?thesis using counts [of b] that by auto
    qed
    then show "unat (c_usage ?c) = (\<Sum>b \<in> set (remove1 a L) \<union> set (remove1 a U). unat (h_charge (the (handles ?c b))))"
      unfolding sets using usage_minus [OF ok a h(1)] by simp
    show "distinct (lru_head c # in_use_head c # remove1 a L @ remove1 a U)" using D(3) by (auto simp: distinct_remove1 dest: notin_set_remove1)
  qed (use K counts D(3) h(2,3) in \<open>auto simp: handle_ok_def\<close>)
  moreover have "relinks UNIV c c1" using c1(4) by (simp add: relinks_def)
  ultimately show thesis using that h(1,3) c1(1) h1 K(2) by blast
qed

lemma FinishErase_ok:
  assumes ok: "lists_ok R L U c" and a: "a \<in> set L \<union> set U"
  obtains c' where "FinishErase (Some a) c = Some (c', True)" "lists_ok R (remove1 a L) (remove1 a U) c'" "keeps {a} c c'" "c_table c' = c_table c"
    "\<forall>b. b \<noteq> a \<longrightarrow> map_option (\<lambda>h. (h_next_hash h, h_page_id h, h_hash h)) (handles c' b) = map_option (\<lambda>h. (h_next_hash h, h_page_id h, h_hash h)) (handles c b)"
    "if R a = 0 then handles c' a = None else keeps {} c c'"
proof -
  obtain h c1 h1 where u: "handles c a = Some h" "h_in_cache h" "LRU_Remove a c = Some c1" "handles c1 a = Some h1" "c_usage c1 = c_usage c"
    "lists_ok (R(a := R a + 1)) (remove1 a L) (remove1 a U) (c1\<lparr>handles := (handles c1)(a \<mapsto> h1\<lparr>h_in_cache := False\<rparr>), c_usage := c_usage c - h_charge h\<rparr>)"
    "relinks UNIV c c1" by (rule unlink_ok [OF ok a])
  let ?c = "c1\<lparr>handles := (handles c1)(a \<mapsto> h1\<lparr>h_in_cache := False\<rparr>), c_usage := c_usage c - h_charge h\<rparr>"
  have R: "0 < (R(a := R a + 1)) a" "a \<notin> set (remove1 a L) \<union> set (remove1 a U)" using lists_okD(3) [OF ok] by auto
  obtain c2 where c2: "Unref a ?c = Some c2" "lists_ok ((R(a := R a + 1))(a := (R(a := R a + 1)) a - 1)) (remove1 a L) (remove1 a U) c2"
    "keeps {a} ?c c2" "c_table c2 = c_table ?c" "\<forall>b. b \<noteq> a \<longrightarrow> handles c2 b = handles ?c b"
    "(R(a := R a + 1)) a = 1 \<Longrightarrow> handles c2 a = None" "(R(a := R a + 1)) a \<noteq> 1 \<Longrightarrow> keeps {} ?c c2"
    by (rule Unref_erased [OF u(6) R]) blast
  note K = relinksD [OF u(7)] and same = unlinked_eqD [OF relinksD(8) [OF u(7)]]
  have "FinishErase (Some a) c = Some (c2, True)" using u(1-5) c2(1) by (simp add: FinishErase_def assertion_def upd_handle_def)
  moreover have "R(a := R a) = R" by simp
  then have "lists_ok R (remove1 a L) (remove1 a U) c2" using c2(2) by (simp del: fun_upd_triv)
  moreover have start: "keeps {} c ?c" using K(1-4) same(2) same(2) [of a] u(1,4) by (simp add: keeps_def core_def)
  have "keeps {a} c c2" using keeps_trans [OF start c2(3)] by simp
  moreover have "if R a = 0 then handles c2 a = None else keeps {} c c2" using c2(6,7) keeps_trans [OF start, of "{}" c2] by simp
  moreover have "c_table c2 = c_table c" using c2(4) K(5) by simp
  moreover have "\<forall>b. b \<noteq> a \<longrightarrow> map_option (\<lambda>h. (h_next_hash h, h_page_id h, h_hash h)) (handles c2 b) = map_option (\<lambda>h. (h_next_hash h, h_page_id h, h_hash h)) (handles c b)"
    using c2(5) same(3) by simp
  ultimately show thesis using that by blast
qed

text \<open>Changes of the hash links do not touch the lists.\<close>

lemma lists_rechained:
  assumes ok: "lists_ok R L U c" and re: "rechained A (handles c) hp"
  shows "lists_ok R L U (c\<lparr>handles := hp, c_table := t\<rparr>)" "keeps {} c (c\<lparr>handles := hp, c_table := t\<rparr>)"
proof -
  note D = lists_okD [OF ok] and same = unchained_eqD [OF rechainedD(2) [OF re]]
  have rings: "ring hp s xs = ring (handles c) s xs" for s xs by (intro ring_cong same)
  have counts: "\<exists>g. handles c a = Some g \<and> counts g = counts h" if "hp a = Some h" for a h
    using same(1) [of a] that by (cases "handles c a") auto
  have "unat (c_usage c) = (\<Sum>b \<in> set L \<union> set U. unat (h_charge (the (hp b))))"
    using usage_same [OF ok refl, of "c\<lparr>handles := hp\<rparr>"] arg_cong [OF same(1), of "map_option (\<lambda>(r, i, c). c)"]
    by (simp add: option.map_comp comp_def)
  moreover have "handle_ok R L U a h" if h: "hp a = Some h" "a \<noteq> lru_head c" "a \<noteq> in_use_head c" for a h
  proof -
    obtain g where "handles c a = Some g" "counts g = counts h" using counts [OF h(1)] by blast
    with D(4) [OF _ h(2,3)] show ?thesis by (auto simp: handle_ok_def)
  qed
  ultimately show "lists_ok R L U (c\<lparr>handles := hp, c_table := t\<rparr>)"
    unfolding lists_ok_def using D(1-3,5) rings rechainedD(3) [OF re] by simp
  show "keeps {} c (c\<lparr>handles := hp, c_table := t\<rparr>)" using same(2) by (simp add: keeps_def)
qed

text \<open>An entry is taken out of the table and the lists; its handle lives on while clients use it.\<close>

lemma erase_ok:
  assumes s: "shard_ok R L U c" and a: "a \<in> set L \<union> set U" "handle_id (handles c) a = Some (k, hash)"
  obtains c1 c' where "table_Remove k hash c = Some (c1, Some a)" "FinishErase (Some a) c1 = Some (c', True)"
    "shard_ok R (remove1 a L) (remove1 a U) c'" "keeps {a} c c'" "if R a = 0 then handles c' a = None else keeps {} c c'"
proof -
  note ok = shard_okD(1) [OF s] and t = shard_okD(2) [OF s]
  obtain hp u where r: "table_Remove k hash c = Some (c\<lparr>handles := hp, c_table := u\<rparr>, Some a)"
    "rechained (set L \<union> set U - {a}) (handles c) hp" "table_ok hp u (set L \<union> set U - {a})"
    by (rule table_Remove_ok [OF t lists_keyed [OF ok] a])
  let ?c = "c\<lparr>handles := hp, c_table := u\<rparr>"
  note ok1 = lists_rechained [OF ok r(2), of u]
  obtain c' where c': "FinishErase (Some a) ?c = Some (c', True)" "lists_ok R (remove1 a L) (remove1 a U) c'" "keeps {a} ?c c'" "c_table c' = c_table ?c"
    "\<forall>b. b \<noteq> a \<longrightarrow> map_option (\<lambda>h. (h_next_hash h, h_page_id h, h_hash h)) (handles c' b) = map_option (\<lambda>h. (h_next_hash h, h_page_id h, h_hash h)) (handles ?c b)"
    "if R a = 0 then handles c' a = None else keeps {} ?c c'" by (rule FinishErase_ok [OF ok1(1) a(1)])
  have "set (remove1 a L) \<union> set (remove1 a U) = set L \<union> set U - {a}" using lists_okD(3) [OF ok] by auto
  moreover have "table_ok (handles c') u (set L \<union> set U - {a})" by (rule table_frame [OF r(3)]) (use c'(5) in simp)
  ultimately have "shard_ok R (remove1 a L) (remove1 a U) c'" using c'(2,4) by (simp add: shard_ok_def)
  moreover have "keeps {a} c c'" using keeps_trans [OF ok1(2) c'(3)] by simp
  moreover have "if R a = 0 then handles c' a = None else keeps {} c c'" using c'(6) keeps_trans [OF ok1(2), of "{}" c'] by simp
  ultimately show thesis using that r(1) c'(1) by blast
qed

section \<open>Entering\<close>

lemma lists_alloc: "lists_ok R L U c \<Longrightarrow> a \<in> set (lru_head c # in_use_head c # L @ U) \<Longrightarrow> \<exists>h. handles c a = Some h"
  using ring_alloc [OF lists_okD(1), of R L U c a] ring_alloc [OF lists_okD(2), of R L U c a] by auto

lemma usage_plus:
  assumes ok: "lists_ok R L U c" and e: "handles c e = None" "handles c' e = Some h" "unat (c_usage c) + unat (h_charge h) < 2 ^ 64"
    and same: "\<And>b. b \<noteq> e \<Longrightarrow> map_option counts (handles c' b) = map_option counts (handles c b)"
  shows "unat (c_usage c + h_charge h) = (\<Sum>b \<in> set L \<union> set (U @ [e]). unat (h_charge (the (handles c' b))))"
proof -
  have ne: "e \<notin> set L \<union> set U" using lists_alloc [OF ok, of e] e(1) by auto
  have "h_charge (the (handles c' b)) = h_charge (the (handles c b))" if b: "b \<in> set L \<union> set U" for b
  proof -
    obtain g where g: "handles c b = Some g" by (rule lists_handle [OF ok b])
    then have "b \<noteq> e" using e(1) by auto
    then show ?thesis using same [of b] g by auto
  qed
  then have "(\<Sum>b \<in> set L \<union> set U. unat (h_charge (the (handles c' b)))) = unat (c_usage c)" using lists_okD(6) [OF ok] by simp
  moreover have "set L \<union> set (U @ [e]) = insert e (set L \<union> set U)" by auto
  ultimately show ?thesis using e(2,3) ne by (simp add: unat_word_ariths)
qed

lemma enter_lists:
  assumes ok: "lists_ok R L U c" and e: "handles c e = None" "unat (c_usage c) + unat charge < 2 ^ 64"
  obtains c' where "LRU_Append (in_use_head c) e (c\<lparr>handles := (handles c)(e \<mapsto> (new_handle e k hash value charge deleter)\<lparr>h_refs := 2, h_in_cache := True\<rparr>)\<rparr>) = Some c'"
    "lists_ok (R(e := 1)) L (U @ [e]) (c'\<lparr>c_usage := c_usage c + charge\<rparr>)" "keeps {e} c c'" "c_table c' = c_table c" "c_usage c' = c_usage c"
    "\<forall>b. b \<noteq> e \<longrightarrow> map_option (\<lambda>h. (h_next_hash h, h_page_id h, h_hash h)) (handles c' b) = map_option (\<lambda>h. (h_next_hash h, h_page_id h, h_hash h)) (handles c b)"
    "map_option core (handles c' e) = Some (value, k, hash, charge, deleter)"
proof -
  note D = lists_okD [OF ok]
  let ?h = "(new_handle e k hash value charge deleter)\<lparr>h_refs := 2, h_in_cache := True\<rparr>"
  let ?c = "c\<lparr>handles := (handles c)(e \<mapsto> ?h)\<rparr>"
  have ne: "e \<notin> set (lru_head c # in_use_head c # L @ U)" using lists_alloc [OF ok, of e] e(1) by auto
  have fresh: "ring (handles ?c) s xs = ring (handles c) s xs" if "set (s # xs) \<subseteq> set (lru_head c # in_use_head c # L @ U)" for s xs
    using that ne by (intro ring_frame) auto
  have "ring (handles ?c) (in_use_head c) U" "handles ?c e = Some ?h" "e \<notin> set (in_use_head c # U)"
    using D(2) fresh [of "in_use_head c" U] ne by auto
  then obtain c' where c': "LRU_Append (in_use_head c) e ?c = Some c'" "ring (handles c') (in_use_head c) (U @ [e])" "relinks (set (in_use_head c # U @ [e])) ?c c'"
    by (metis LRU_Append_ok)
  note K = relinksD [OF c'(3)] and same = unlinked_eqD [OF relinksD(8) [OF c'(3)]]
  have L: "ring (handles c') (lru_head c) L"
  proof -
    have "handles c' x = handles ?c x" if "x \<in> set (lru_head c # L)" for x using that D(3) ne by (intro K(7)) auto
    then have "ring (handles c') (lru_head c) L = ring (handles ?c) (lru_head c) L" by (rule ring_frame)
    then show ?thesis using D(1) fresh [of "lru_head c" L] by auto
  qed
  obtain h' where h': "handles c' e = Some h'" "counts h' = (2, True, charge)" using same(1) [of e] by (cases "handles c' e") (auto simp: new_handle_def)
  have other: "map_option counts (handles c' b) = map_option counts (handles c b)" if "b \<noteq> e" for b using same(1) [of b] that by simp
  have R: "R e = 0" using D(5) [of e] e(1) by blast
  have "lists_ok (R(e := 1)) L (U @ [e]) (c'\<lparr>c_usage := c_usage c + charge\<rparr>)"
  proof (rule lists_change [OF ok])
    show "unat (c_usage (c'\<lparr>c_usage := c_usage c + charge\<rparr>)) = (\<Sum>b \<in> set L \<union> set (U @ [e]). unat (h_charge (the (handles (c'\<lparr>c_usage := c_usage c + charge\<rparr>) b))))"
      using usage_plus [OF ok e(1) h'(1) _ other] e(2) h'(2) by simp
  qed (use K ne c'(2) L other h' D(3) in \<open>auto simp: handle_ok_def\<close>)
  moreover have "keeps {e} c c'" using K(1-4) same(2) by (simp add: keeps_def)
  moreover have "map_option core (handles c' e) = Some (value, k, hash, charge, deleter)" using same(2) [of e] by (simp add: core_def new_handle_def)
  ultimately show thesis using that c'(1) K same(3) by simp
qed

lemma core_id: "map_option core (handles c a) = Some (v, k, hash, ch, d) \<Longrightarrow> handle_id (handles c) a = Some (k, hash)"
  by (auto simp: core_def handle_id_def)

lemma keeps_id:
  assumes "keeps X c c'" "a \<notin> X"
  shows "handle_id (handles c') a = handle_id (handles c) a"
  using arg_cong [OF keepsD(4) [OF assms], of "map_option (\<lambda>(v, k, h, ch, d). (k, h))"]
  by (simp add: handle_id_def option.map_comp comp_def core_def [abs_def])

lemma keeps_usage [simp]: "keeps X (c\<lparr>c_usage := u\<rparr>) c' = keeps X c c'" "keeps X c (c'\<lparr>c_usage := u\<rparr>) = keeps X c c'"
  by (simp_all add: keeps_def)

lemma keeps_mono: "keeps X c c' \<Longrightarrow> X \<subseteq> Y \<Longrightarrow> keeps Y c c'"
  by (auto simp: keeps_def)

text \<open>A new key: the entry is used once.\<close>

lemma enter_handle_ok:
  assumes s: "shard_ok R L U c" and e: "handles c e = None" "unat (c_usage c) + unat charge < 2 ^ 64"
    and small: "card (set L \<union> set U) < 2 ^ 31" "0 < c_capacity c" and new: "\<forall>b \<in> set L \<union> set U. handle_id (handles c) b \<noteq> Some (k, hash)"
  obtains c' where "enter_handle e charge (c\<lparr>handles := (handles c)(e \<mapsto> new_handle e k hash value charge deleter)\<rparr>) = Some c'"
    "shard_ok (R(e := 1)) L (U @ [e]) c'" "keeps {e} c c'" "c_usage c' = c_usage c + charge"
    "map_option core (handles c' e) = Some (value, k, hash, charge, deleter)"
proof -
  note ok = shard_okD(1) [OF s]
  let ?S = "set L \<union> set U"
  have ne: "e \<notin> ?S" using lists_alloc [OF ok, of e] e(1) by auto
  obtain c1 where c1: "LRU_Append (in_use_head c) e (c\<lparr>handles := (handles c)(e \<mapsto> (new_handle e k hash value charge deleter)\<lparr>h_refs := 2, h_in_cache := True\<rparr>)\<rparr>) = Some c1"
    "lists_ok (R(e := 1)) L (U @ [e]) (c1\<lparr>c_usage := c_usage c + charge\<rparr>)" "keeps {e} c c1" "c_table c1 = c_table c" "c_usage c1 = c_usage c"
    "\<forall>b. b \<noteq> e \<longrightarrow> map_option (\<lambda>h. (h_next_hash h, h_page_id h, h_hash h)) (handles c1 b) = map_option (\<lambda>h. (h_next_hash h, h_page_id h, h_hash h)) (handles c b)"
    "map_option core (handles c1 e) = Some (value, k, hash, charge, deleter)" by (rule enter_lists [OF ok e])
  let ?c = "c1\<lparr>c_usage := c_usage c + charge\<rparr>"
  have t: "table_ok (handles ?c) (c_table ?c) ?S"
  proof -
    have "table_ok (handles c1) (c_table c) ?S"
    proof (rule table_frame [OF shard_okD(2) [OF s]])
      fix b assume "b \<in> ?S"
      then have "b \<noteq> e" using ne by auto
      then show "map_option (\<lambda>h. (h_next_hash h, h_page_id h, h_hash h)) (handles c1 b) = map_option (\<lambda>h. (h_next_hash h, h_page_id h, h_hash h)) (handles c b)"
        using c1(6) by simp
    qed
    then show ?thesis using c1(4) by simp
  qed
  have key: "keyed (handles ?c) ?S" using lists_keyed [OF c1(2)] by (auto simp: keyed_def)
  have "e \<in> set L \<union> set (U @ [e])" by simp
  then obtain h where h: "handles ?c e = Some h" "h_next h \<noteq> Some e" by (rule lists_handle [OF c1(2)])
  have id: "handle_id (handles ?c) e = Some (k, hash)" using core_id [OF c1(7)] by simp
  obtain hp u r where r: "table_Insert e ?c = Some (?c\<lparr>handles := hp, c_table := u\<rparr>, r)" "rechained (insert e ?S) (handles ?c) hp"
    "case r of None \<Rightarrow> (\<forall>x \<in> ?S. handle_id (handles ?c) x \<noteq> handle_id (handles ?c) e) \<and> table_ok hp u (insert e ?S)
     | Some b \<Rightarrow> b \<in> ?S \<and> handle_id (handles ?c) b = handle_id (handles ?c) e \<and> table_ok hp u (insert e (?S - {b}))"
    using table_Insert_ok [OF t key ne h small(1)] by blast
  have none: "r = None"
  proof (cases r)
    case (Some b)
    then have b: "b \<in> ?S" "handle_id (handles ?c) b = Some (k, hash)" using r(3) id by auto
    moreover have "b \<notin> {e}" using b(1) ne by auto
    ultimately have "handle_id (handles c) b = Some (k, hash)" using keeps_id [OF c1(3), of b] by simp
    then show ?thesis using new b(1) by blast
  qed
  note ok2 = lists_rechained [OF c1(2) r(2), of u]
  have "table_ok hp u (insert e ?S)" using r(3) none by simp
  then have "shard_ok (R(e := 1)) L (U @ [e]) (?c\<lparr>handles := hp, c_table := u\<rparr>)" using ok2(1) by (simp add: shard_ok_def)
  moreover have "enter_handle e charge (c\<lparr>handles := (handles c)(e \<mapsto> new_handle e k hash value charge deleter)\<rparr>) = Some (?c\<lparr>handles := hp, c_table := u\<rparr>)"
    using c1(1,5) r(1) none keepsD(3) [OF c1(3)] small(2) by (simp add: enter_handle_def upd_handle_def FinishErase_def new_handle_def)
  moreover have "keeps {e} c (?c\<lparr>handles := hp, c_table := u\<rparr>)" using keeps_trans [OF c1(3), of "{}"] ok2(2) by simp
  moreover have "map_option core (hp e) = Some (value, k, hash, charge, deleter)" using keepsD(4) [OF ok2(2), of e] c1(7) by simp
  ultimately show thesis using that by simp
qed

section \<open>Evicting\<close>

lemma shard_value:
  assumes s: "shard_ok R L U c" and e: "e \<in> set L \<union> set U" "handles c e = Some h"
  shows "shard_ok R L U (c\<lparr>handles := (handles c)(e \<mapsto> h\<lparr>h_value := v\<rparr>)\<rparr>)" (is "shard_ok R L U ?c")
    "keeps {e} c (c\<lparr>handles := (handles c)(e \<mapsto> h\<lparr>h_value := v\<rparr>)\<rparr>)"
proof -
  note ok = shard_okD(1) [OF s]
  obtain h' where h': "handles c e = Some h'" "handle_ok R L U e h'" "e \<noteq> lru_head c" "e \<noteq> in_use_head c" by (rule lists_handle [OF ok e(1)])
  have "ring (handles ?c) x xs = ring (handles c) x xs" for x xs using e(2) by (intro ring_cong) auto
  then have "lists_ok R L U ?c"
    using lists_okD(1-3) [OF ok] h' e(2) usage_same [OF ok refl, of ?c]
    by (intro lists_change [OF ok _ _ h'(3,4)]) (auto simp: handle_ok_def)
  moreover have "table_ok (handles ?c) (c_table c) (set L \<union> set U)"
    by (rule table_frame [OF shard_okD(2) [OF s]]) (use e(2) in auto)
  ultimately show "shard_ok R L U ?c" by (simp add: shard_ok_def)
  show "keeps {e} c ?c" by (simp add: keeps_def)
qed

lemma usage_less:
  assumes ok: "lists_ok R L U c" "lists_ok R' L' U' c'" and a: "a \<in> set L \<union> set U" "handles c a = Some h" and S: "set L' \<union> set U' = set L \<union> set U - {a}"
    and same: "\<And>b. b \<in> set L' \<union> set U' \<Longrightarrow> map_option h_charge (handles c' b) = map_option h_charge (handles c b)"
  shows "unat (c_usage c') + unat (h_charge h) = unat (c_usage c)"
proof -
  have "h_charge (the (handles c' b)) = h_charge (the (handles c b))" if b: "b \<in> set L' \<union> set U'" for b
  proof -
    obtain g where "handles c' b = Some g" by (rule lists_handle [OF ok(2) b])
    with same [OF b] show ?thesis by (cases "handles c b") auto
  qed
  then have "unat (c_usage c') = (\<Sum>b \<in> set L \<union> set U - {a}. unat (h_charge (the (handles c b))))"
    unfolding lists_okD(6) [OF ok(2)] S [symmetric] by simp
  moreover have "unat (c_usage c) = unat (h_charge h) + (\<Sum>b \<in> set L \<union> set U - {a}. unat (h_charge (the (handles c b))))"
    unfolding lists_okD(6) [OF ok(1)] using a by (subst sum.remove [of _ a]) simp_all
  ultimately show ?thesis by simp
qed

lemma core_charge: "map_option core x = map_option core y \<Longrightarrow> map_option h_charge x = map_option h_charge y"
  by (cases x; cases y) (simp_all add: core_def)

lemma value_triv: "h_value y = v \<Longrightarrow> y\<lparr>h_value := v\<rparr> = y"
  by (cases y) simp

lemma evict_stop:
  assumes ok: "lists_ok R L U c" and fits: "c_usage c \<le> c_capacity c \<or> L = []"
  shows "evict insert_only e value reused c = Some (c, reused)"
  using ring_first [OF lists_okD(1) [OF ok]] fits by (subst evict.simps) auto

text \<open>One round: the oldest unused entry goes, and its value may go to the new entry.\<close>

lemma evict_step:
  assumes s: "shard_ok R (a # L) U c" and full: "c_capacity c < c_usage c" and e: "e \<in> set U" "map_option core (handles c e) = Some (v, k, hash, ch, d)"
    and a: "map_option core (handles c a) = Some (w, k', hash', ch', d')"
  obtains c' where "evict False e value reused c = evict False e value (reused \<or> value = None) c'"
    "shard_ok R L U c'" "keeps {a, e} c c'" "handles c' a = None"
    "map_option core (handles c' e) = Some (if v = None \<or> value = None \<and> \<not> reused then w else v, k, hash, ch, d)"
    "unat (c_usage c') + unat ch' = unat (c_usage c)"
proof -
  note ok = shard_okD(1) [OF s]
  let ?v = "if v = None \<or> value = None \<and> \<not> reused then w else v"
  have mem: "a \<in> set (a # L) \<union> set U" "e \<in> set (a # L) \<union> set U" and ne: "e \<noteq> a" using e(1) lists_okD(3) [OF ok] by auto
  obtain x where x: "handles c a = Some x" "handle_ok R (a # L) U a x" "h_in_cache x" "a \<noteq> lru_head c" "a \<noteq> in_use_head c" "h_next x \<noteq> Some a"
    by (rule lists_handle [OF ok mem(1)])
  obtain y where y: "handles c e = Some y" by (rule lists_handle [OF ok mem(2)])
  have R: "R a = 0" "h_refs x = 1" using x(2,3) by (auto simp: handle_ok_def word_unat_eq_iff)
  have fields: "h_value x = w" "h_page_id x = k'" "h_hash x = hash'" "h_charge x = ch'" "h_value y = v" using a e(2) x(1) y by (auto simp: core_def)
  let ?c = "c\<lparr>handles := (handles c)(e \<mapsto> y\<lparr>h_value := ?v\<rparr>)\<rparr>"
  note c1 = shard_value [OF s mem(2) y, of ?v]
  have "handle_id (handles ?c) a = Some (k', hash')" using x(1) fields ne by (simp add: handle_id_def)
  from erase_ok [OF c1(1) mem(1) this]
  obtain c2 c3 where c3: "table_Remove k' hash' ?c = Some (c2, Some a)" "FinishErase (Some a) c2 = Some (c3, True)"
    "shard_ok R (remove1 a (a # L)) (remove1 a U) c3" "keeps {a} ?c c3" "if R a = 0 then handles c3 a = None else keeps {} ?c c3" by blast
  have U: "remove1 a U = U" using lists_okD(3) [OF ok] by (simp add: remove1_idem)
  obtain l where l: "handles c (lru_head c) = Some l" "h_next l = Some a" using ring_first [OF lists_okD(1) [OF ok]] by auto
  have "evict False e value reused c = evict False e value (reused \<or> value = None) c3"
    by (subst evict.simps) (use full l x(1,4,6) R(2) y fields ne c3(1,2) in \<open>auto simp: assertion_def upd_handle_def handle_key_def value_triv\<close>)
  moreover have "shard_ok R L U c3" using c3(3) U by simp
  moreover have "keeps {a, e} c c3" using keeps_trans [OF c1(2) c3(4)] by (simp add: insert_commute)
  moreover have "handles c3 a = None" using c3(5) R(1) by simp
  moreover have "map_option core (handles c3 e) = Some (?v, k, hash, ch, d)"
    using keepsD(4) [OF c3(4), of e] ne e(2) y by (auto simp: core_def)
  moreover have "unat (c_usage c3) + unat (h_charge x) = unat (c_usage ?c)"
  proof (rule usage_less [OF shard_okD(1) [OF c1(1)] shard_okD(1) [OF c3(3)] mem(1)])
    show "map_option h_charge (handles c3 b) = map_option h_charge (handles ?c b)" if "b \<in> set (remove1 a (a # L)) \<union> set (remove1 a U)" for b
      using that U lists_okD(3) [OF ok] by (intro core_charge keepsD(4) [OF c3(4)]) auto
  qed (use x(1) ne U lists_okD(3) [OF ok] in auto)
  ultimately show thesis using that fields(4) by simp
qed

end
