(* ===== verification/LruOps.thy ===== *)
theory LruOps
  imports LruLaws
begin

text \<open>
  The operations of a shard for its clients: looking up, entering a page, giving back, erasing, pruning,
  and the start and end of a shard.
\<close>

section \<open>Looking up\<close>

lemma shard_table:
  assumes s: "shard_ok R L U c"
  obtains r where "table_Lookup c k hash = Some r"
    "case r of None \<Rightarrow> \<forall>a \<in> set L \<union> set U. handle_id (handles c) a \<noteq> Some (k, hash)
     | Some a \<Rightarrow> a \<in> set L \<union> set U \<and> handle_id (handles c) a = Some (k, hash)"
  using table_Lookup_ok [OF shard_okD(2) [OF s] lists_keyed [OF shard_okD(1) [OF s]], of k hash] that by blast

lemma shard_key_unique:
  assumes s: "shard_ok R L U c" and a: "a \<in> set L \<union> set U" "b \<in> set L \<union> set U" "handle_id (handles c) a = handle_id (handles c) b"
  shows "a = b"
  using shard_okD(2) [OF s] a unfolding table_ok_def by (meson inj_onD)

lemma table_Lookup_hit:
  assumes s: "shard_ok R L U c" and a: "a \<in> set L \<union> set U" "handle_id (handles c) a = Some (k, hash)"
  shows "table_Lookup c k hash = Some (Some a)"
proof -
  obtain r where r: "table_Lookup c k hash = Some r" "case r of None \<Rightarrow> \<forall>a \<in> set L \<union> set U. handle_id (handles c) a \<noteq> Some (k, hash)
     | Some a \<Rightarrow> a \<in> set L \<union> set U \<and> handle_id (handles c) a = Some (k, hash)" by (rule shard_table [OF s])
  then obtain b where b: "r = Some b" "b \<in> set L \<union> set U" "handle_id (handles c) b = Some (k, hash)" using a by (cases r) auto
  have "b = a" by (rule shard_key_unique [OF s b(2) a(1)]) (simp add: b(3) a(2))
  then show ?thesis using r(1) b(1) by simp
qed

lemma table_Lookup_miss:
  assumes s: "shard_ok R L U c" and none: "\<forall>b \<in> set L \<union> set U. handle_id (handles c) b \<noteq> Some (k, hash)"
  shows "table_Lookup c k hash = Some None"
proof -
  obtain r where r: "table_Lookup c k hash = Some r" "case r of None \<Rightarrow> \<forall>a \<in> set L \<union> set U. handle_id (handles c) a \<noteq> Some (k, hash)
     | Some a \<Rightarrow> a \<in> set L \<union> set U \<and> handle_id (handles c) a = Some (k, hash)" by (rule shard_table [OF s])
  then show ?thesis using none by (cases r) auto
qed

text \<open>The list of used handles after one more reference.\<close>

abbreviation used :: "addr \<Rightarrow> addr list \<Rightarrow> addr list \<Rightarrow> addr list" where
  "used a L U \<equiv> if a \<in> set L then U @ [a] else U"

lemma hit_refs:
  assumes s: "shard_ok R L U c" and a: "a \<in> set L \<union> set U"
  obtains h where "handles c a = Some h" "1 \<le> h_refs h"
proof -
  obtain h where h: "handles c a = Some h" "handle_ok R L U a h" "h_in_cache h" by (rule lists_handle [OF shard_okD(1) [OF s] a])
  then have "1 \<le> h_refs h" by (simp add: handle_ok_def word_le_nat_alt)
  then show thesis using that h(1) by blast
qed

lemma Lookup_hit:
  assumes s: "shard_ok R L U c" and a: "a \<in> set L \<union> set U" "handle_id (handles c) a = Some (k, hash)" "R a + 2 < 2 ^ 32"
  obtains c' where "Lookup k hash c = Some (c', Some a)" "shard_ok (R(a := R a + 1)) (remove1 a L) (used a L U) c'" "keeps {} c c'"
proof -
  obtain h where h: "handles c a = Some h" "1 \<le> h_refs h" by (rule hit_refs [OF s a(1)])
  obtain c' where c': "Ref a c = Some c'" "shard_ok (R(a := R a + 1)) (remove1 a L) (used a L U) c'" "keeps {} c c'"
    by (rule Ref_ok [OF s a(1,3)])
  have "Lookup k hash c = Some (c', Some a)" using table_Lookup_hit [OF s a(1,2)] h c'(1) by (simp add: Lookup_def assertion_def)
  then show thesis using that c' by blast
qed

lemma Lookup_miss:
  assumes "shard_ok R L U c" "\<forall>b \<in> set L \<union> set U. handle_id (handles c) b \<noteq> Some (k, hash)"
  shows "Lookup k hash c = Some (c, None)"
  using table_Lookup_miss [OF assms] by (simp add: Lookup_def)

lemma LookupInsert_hit:
  assumes s: "shard_ok R L U c" and a: "a \<in> set L \<union> set U" "handle_id (handles c) a = Some (k, hash)" "R a + 2 < 2 ^ 32"
  obtains c' where "LookupInsert e k hash value charge deleter c fl = Some (c', fl, a)"
    "shard_ok (R(a := R a + 1)) (remove1 a L) (used a L U) c'" "keeps {} c c'"
proof -
  obtain h where h: "handles c a = Some h" "1 \<le> h_refs h" by (rule hit_refs [OF s a(1)])
  obtain c' where c': "Ref a c = Some c'" "shard_ok (R(a := R a + 1)) (remove1 a L) (used a L U) c'" "keeps {} c c'"
    by (rule Ref_ok [OF s a(1,3)])
  have "LookupInsert e k hash value charge deleter c fl = Some (c', fl, a)"
    using table_Lookup_hit [OF s a(1,2)] h c'(1) by (simp add: LookupInsert_def assertion_def)
  then show thesis using that c' by blast
qed

section \<open>Shards of pages\<close>

text \<open>Every page is charged 1, so that the capacity is a number of pages.\<close>

definition cache_ok :: "(addr \<Rightarrow> nat) \<Rightarrow> addr list \<Rightarrow> addr list \<Rightarrow> LRUCache \<Rightarrow> bool" where
  "cache_ok R L U c \<longleftrightarrow> shard_ok R L U c \<and> (\<forall>a \<in> set L \<union> set U. map_option h_charge (handles c a) = Some 1) \<and>
     length L + length U \<le> unat (c_capacity c) \<and> 0 < c_capacity c \<and> c_capacity c < 2 ^ 31"

lemma cache_okD:
  assumes "cache_ok R L U c"
  shows "shard_ok R L U c" "a \<in> set L \<union> set U \<Longrightarrow> map_option h_charge (handles c a) = Some 1" "length L + length U \<le> unat (c_capacity c)"
    "0 < c_capacity c" "c_capacity c < 2 ^ 31"
  using assms unfolding cache_ok_def by blast+

lemma lists_card: "lists_ok R L U c \<Longrightarrow> card (set L \<union> set U) = length L + length U"
  using lists_okD(3) [of R L U c] by (simp add: card_Un_disjoint distinct_card)

lemma unit_usage:
  assumes ok: "lists_ok R L U c" and unit: "\<And>a. a \<in> set L \<union> set U \<Longrightarrow> map_option h_charge (handles c a) = Some 1"
  shows "unat (c_usage c) = length L + length U"
proof -
  have "unat (h_charge (the (handles c a))) = 1" if "a \<in> set L \<union> set U" for a using unit [OF that] by auto
  then have "unat (c_usage c) = (\<Sum>a \<in> set L \<union> set U. 1)" unfolding lists_okD(6) [OF ok] by (rule sum.cong [OF refl])
  then show ?thesis using lists_card [OF ok] by simp
qed

lemma cache_usage:
  assumes "cache_ok R L U c"
  shows "unat (c_usage c) = length L + length U" "c_usage c \<le> c_capacity c" "unat (c_capacity c) < 2 ^ 31"
proof -
  show u: "unat (c_usage c) = length L + length U" by (rule unit_usage [OF shard_okD(1) [OF cache_okD(1) [OF assms]] cache_okD(2) [OF assms]])
  show "c_usage c \<le> c_capacity c" using u cache_okD(3) [OF assms] by (simp add: word_le_nat_alt)
  show "unat (c_capacity c) < 2 ^ 31" using cache_okD(5) [OF assms] by (simp add: word_less_nat_alt)
qed

text \<open>What the operations keep gives the invariant back.\<close>

lemma cache_okI:
  assumes c: "cache_ok R L U c" and s: "shard_ok R' L' U' c'" and k: "keeps X c c'"
    and X: "\<And>a. a \<in> set L' \<union> set U' \<Longrightarrow> a \<in> set L \<union> set U - X \<or> map_option h_charge (handles c' a) = Some 1"
    and len: "length L' + length U' \<le> unat (c_capacity c)"
  shows "cache_ok R' L' U' c'"
proof -
  have "map_option h_charge (handles c' a) = Some 1" if "a \<in> set L' \<union> set U'" for a
    using X [OF that] cache_okD(2) [OF c, of a] core_charge [OF keepsD(4) [OF k, of a]] by auto
  then show ?thesis using s keepsD(1) [OF k] len cache_okD(4,5) [OF c] by (simp add: cache_ok_def)
qed

lemma enter_page:
  assumes c: "cache_ok R L U c" and e: "handles c e = None" and new: "\<forall>b \<in> set L \<union> set U. handle_id (handles c) b \<noteq> Some (k, hash)"
  obtains c' where "LookupInsert e k hash value 1 deleter c fl =
      do { (c, reused) \<leftarrow> evict False e value False c';
           _ \<leftarrow> assertion (c_usage c \<le> c_capacity c);
           if value = None \<and> \<not> reused
           then do { let (v, fl) = pop_front fl; c \<leftarrow> upd_handle e (\<lambda>h. h\<lparr>h_value := v\<rparr>) c; Some (c, fl, e) }
           else Some (c, fl, e) }"
    "shard_ok (R(e := 1)) L (U @ [e]) c'" "keeps {e} c c'" "map_option core (handles c' e) = Some (value, k, hash, 1, deleter)"
    "unat (c_usage c') = length L + length U + 1"
proof -
  note s = cache_okD(1) [OF c] and u = cache_usage [OF c] and len = cache_okD(3) [OF c]
  have "unat (c_usage c) + unat (1 :: u64) < 2 ^ 64" "card (set L \<union> set U) < 2 ^ 31"
    using u len lists_card [OF shard_okD(1) [OF s]] by simp_all
  from enter_handle_ok [OF s e this cache_okD(4) [OF c] new]
  obtain c' where c': "enter_handle e 1 (c\<lparr>handles := (handles c)(e \<mapsto> new_handle e k hash value 1 deleter)\<rparr>) = Some c'"
    "shard_ok (R(e := 1)) L (U @ [e]) c'" "keeps {e} c c'" "c_usage c' = c_usage c + 1"
    "map_option core (handles c' e) = Some (value, k, hash, 1, deleter)" by blast
  have usage: "unat (c_usage c') = length L + length U + 1" using c'(4) u len by (simp add: unat_word_ariths)
  have "unat (c_capacity c' + kPageSizes) = unat (c_capacity c) + 4112" using u(3) keepsD(1) [OF c'(3)] by (simp add: unat_word_ariths)
  then have "c_usage c' \<le> c_capacity c' + kPageSizes" using usage len by (simp add: word_le_nat_alt)
  then have "LookupInsert e k hash value 1 deleter c fl =
      do { (c, reused) \<leftarrow> evict False e value False c';
           _ \<leftarrow> assertion (c_usage c \<le> c_capacity c);
           if value = None \<and> \<not> reused
           then do { let (v, fl) = pop_front fl; c \<leftarrow> upd_handle e (\<lambda>h. h\<lparr>h_value := v\<rparr>) c; Some (c, fl, e) }
           else Some (c, fl, e) }"
    using table_Lookup_miss [OF s new] c'(1) by (simp add: LookupInsert_def assertion_def)
  then show thesis using that c'(2,3,5) usage by blast
qed

text \<open>A page that is not in the shard: it gets a buffer of the free list while there is room, else that of
  the oldest unused page; when every page is in use, the assertion fails.\<close>

lemma LookupInsert_room:
  assumes c: "cache_ok R L U c" and e: "handles c e = None" and new: "\<forall>b \<in> set L \<union> set U. handle_id (handles c) b \<noteq> Some (k, hash)"
    and room: "length L + length U < unat (c_capacity c)"
  obtains c' where "LookupInsert e k hash None 1 deleter c fl = Some (c', snd (pop_front fl), e)" "cache_ok (R(e := 1)) L (U @ [e]) c'" "keeps {e} c c'"
    "map_option core (handles c' e) = Some (fst (pop_front fl), k, hash, 1, deleter)"
proof -
  obtain c1 where c1: "LookupInsert e k hash None 1 deleter c fl =
      do { (c, reused) \<leftarrow> evict False e None False c1;
           _ \<leftarrow> assertion (c_usage c \<le> c_capacity c);
           if None = (None :: ptr) \<and> \<not> reused
           then do { let (v, fl) = pop_front fl; c \<leftarrow> upd_handle e (\<lambda>h. h\<lparr>h_value := v\<rparr>) c; Some (c, fl, e) }
           else Some (c, fl, e) }"
    "shard_ok (R(e := 1)) L (U @ [e]) c1" "keeps {e} c c1" "map_option core (handles c1 e) = Some (None, k, hash, 1, deleter)"
    "unat (c_usage c1) = length L + length U + 1" by (rule enter_page [OF c e new])
  have fits: "c_usage c1 \<le> c_capacity c1" using c1(5) room keepsD(1) [OF c1(3)] by (simp add: word_le_nat_alt)
  have stop: "evict False e None False c1 = Some (c1, False)" by (rule evict_stop [OF shard_okD(1) [OF c1(2)]]) (simp add: fits)
  have mem: "e \<in> set L \<union> set (U @ [e])" by simp
  obtain h where h: "handles c1 e = Some h" using c1(4) by auto
  let ?c = "c1\<lparr>handles := (handles c1)(e \<mapsto> h\<lparr>h_value := fst (pop_front fl)\<rparr>)\<rparr>"
  note v = shard_value [OF c1(2) mem h, of "fst (pop_front fl)"]
  have "keeps {e} c ?c" using keeps_trans [OF c1(3) v(2)] by simp
  moreover have core: "map_option core (handles ?c e) = Some (fst (pop_front fl), k, hash, 1, deleter)" using c1(4) h by (simp add: core_def)
  moreover have "cache_ok (R(e := 1)) L (U @ [e]) ?c"
    by (rule cache_okI [OF c v(1) \<open>keeps {e} c ?c\<close>]) (use core room in \<open>auto simp: core_def\<close>)
  moreover have "LookupInsert e k hash None 1 deleter c fl = Some (?c, snd (pop_front fl), e)"
    unfolding c1(1) stop using fits h by (cases "pop_front fl") (simp add: assertion_def upd_handle_def)
  ultimately show thesis using that by blast
qed

lemma LookupInsert_evict:
  assumes c: "cache_ok R (a # L) U c" and e: "handles c e = None" and new: "\<forall>b \<in> set (a # L) \<union> set U. handle_id (handles c) b \<noteq> Some (k, hash)"
    and full: "length (a # L) + length U = unat (c_capacity c)" and a: "map_option core (handles c a) = Some (w, k', hash', ch', d')"
  obtains c' where "LookupInsert e k hash None 1 deleter c fl = Some (c', fl, e)" "cache_ok (R(e := 1)) L (U @ [e]) c'" "keeps {a, e} c c'"
    "map_option core (handles c' e) = Some (w, k, hash, 1, deleter)" "handles c' a = None"
proof -
  obtain c1 where c1: "LookupInsert e k hash None 1 deleter c fl =
      do { (c, reused) \<leftarrow> evict False e None False c1;
           _ \<leftarrow> assertion (c_usage c \<le> c_capacity c);
           if None = (None :: ptr) \<and> \<not> reused
           then do { let (v, fl) = pop_front fl; c \<leftarrow> upd_handle e (\<lambda>h. h\<lparr>h_value := v\<rparr>) c; Some (c, fl, e) }
           else Some (c, fl, e) }"
    "shard_ok (R(e := 1)) (a # L) (U @ [e]) c1" "keeps {e} c c1" "map_option core (handles c1 e) = Some (None, k, hash, 1, deleter)"
    "unat (c_usage c1) = length (a # L) + length U + 1" by (rule enter_page [OF c e new])
  have ne: "a \<noteq> e" using a e by auto
  have a1: "map_option core (handles c1 a) = Some (w, k', hash', ch', d')" using keepsD(4) [OF c1(3), of a] ne a by simp
  have over: "c_capacity c1 < c_usage c1" using c1(5) full keepsD(1) [OF c1(3)] by (simp add: word_less_nat_alt)
  obtain c2 where c2: "evict False e None False c1 = evict False e None (False \<or> None = (None :: ptr)) c2" "shard_ok (R(e := 1)) L (U @ [e]) c2"
    "keeps {a, e} c1 c2" "handles c2 a = None"
    "map_option core (handles c2 e) = Some (if None = (None :: ptr) \<or> None = (None :: ptr) \<and> \<not> False then w else None, k, hash, 1, deleter)"
    "unat (c_usage c2) + unat ch' = unat (c_usage c1)" by (rule evict_step [OF c1(2) over _ c1(4) a1, of None False]) auto
  have ch: "ch' = 1" using cache_okD(2) [OF c, of a] a by (auto simp: core_def)
  have fits: "c_usage c2 \<le> c_capacity c2" using c2(6) c1(5) full ch keepsD(1) [OF c1(3)] keepsD(1) [OF c2(3)] by (simp add: word_le_nat_alt)
  have stop: "evict False e None True c2 = Some (c2, True)" by (rule evict_stop [OF shard_okD(1) [OF c2(2)]]) (simp add: fits)
  have "LookupInsert e k hash None 1 deleter c fl = Some (c2, fl, e)" unfolding c1(1) c2(1) using stop fits by (simp add: assertion_def)
  moreover have "keeps {a, e} c c2" using keeps_trans [OF c1(3) c2(3)] by simp
  moreover have "a \<notin> set L" "a \<notin> set U" using lists_okD(3) [OF shard_okD(1) [OF cache_okD(1) [OF c]]] by auto
  then have "cache_ok (R(e := 1)) L (U @ [e]) c2"
    by (intro cache_okI [OF c c2(2) \<open>keeps {a, e} c c2\<close>]) (use c2(5) full in \<open>auto simp: core_def\<close>)
  ultimately show thesis using that c2(4,5) by simp
qed

lemma LookupInsert_full:
  assumes c: "cache_ok R [] U c" and e: "handles c e = None" and new: "\<forall>b \<in> set U. handle_id (handles c) b \<noteq> Some (k, hash)"
    and full: "length U = unat (c_capacity c)"
  shows "LookupInsert e k hash value 1 deleter c fl = None"
proof -
  have none: "\<forall>b \<in> set [] \<union> set U. handle_id (handles c) b \<noteq> Some (k, hash)" using new by simp
  obtain c1 where c1: "LookupInsert e k hash value 1 deleter c fl =
      do { (c, reused) \<leftarrow> evict False e value False c1;
           _ \<leftarrow> assertion (c_usage c \<le> c_capacity c);
           if value = None \<and> \<not> reused
           then do { let (v, fl) = pop_front fl; c \<leftarrow> upd_handle e (\<lambda>h. h\<lparr>h_value := v\<rparr>) c; Some (c, fl, e) }
           else Some (c, fl, e) }"
    "shard_ok (R(e := 1)) [] (U @ [e]) c1" "keeps {e} c c1" "unat (c_usage c1) = length ([] :: addr list) + length U + 1"
    by (rule enter_page [OF c e none]) blast
  have "\<not> c_usage c1 \<le> c_capacity c1" using c1(4) full keepsD(1) [OF c1(3)] by (simp add: word_le_nat_alt)
  then show ?thesis unfolding c1(1) using evict_stop [OF shard_okD(1) [OF c1(2)], of False e "value" False] by (simp add: assertion_def)
qed

section \<open>Giving back and erasing\<close>

text \<open>The lists after one reference less.\<close>

abbreviation unused_after :: "(addr \<Rightarrow> nat) \<Rightarrow> addr \<Rightarrow> addr list \<Rightarrow> addr list \<Rightarrow> addr list" where
  "unused_after R a L U \<equiv> if a \<in> set U \<and> R a = 1 then L @ [a] else L"

abbreviation used_after :: "(addr \<Rightarrow> nat) \<Rightarrow> addr \<Rightarrow> addr list \<Rightarrow> addr list" where
  "used_after R a U \<equiv> if a \<in> set U \<and> R a = 1 then remove1 a U else U"

lemma Release_ok:
  assumes c: "cache_ok R L U c" and a: "0 < R a"
  obtains c' where "Release a c = Some c'" "cache_ok (R(a := R a - 1)) (unused_after R a L U) (used_after R a U) c'"
    "keeps (if a \<notin> set U \<and> R a = 1 then {a} else {}) c c'"
proof (cases "a \<in> set U")
  case True
  obtain c' where c': "Unref a c = Some c'"
    "shard_ok (R(a := R a - 1)) (if R a = 1 then L @ [a] else L) (if R a = 1 then remove1 a U else U) c'" "keeps {} c c'"
    by (rule Unref_cached [OF cache_okD(1) [OF c] True])
  have "length (if R a = 1 then L @ [a] else L) + length (if R a = 1 then remove1 a U else U) = length L + length U"
    using True length_pos_if_in_set [OF True] by (auto simp: length_remove1)
  then have "cache_ok (R(a := R a - 1)) (if R a = 1 then L @ [a] else L) (if R a = 1 then remove1 a U else U) c'"
    using cache_okD(3) [OF c] True by (intro cache_okI [OF c c'(2,3)]) (auto split: if_splits dest: notin_set_remove1)
  then show thesis using that c' True by (simp add: Release_def)
next
  case False
  note s = cache_okD(1) [OF c]
  note ok = shard_okD(1) [OF s]
  obtain h where "handle_ok R L U a h" by (rule held_handle [OF ok a])
  then have out: "a \<notin> set L \<union> set U" using False a by (auto simp: handle_ok_def)
  obtain c' where c': "Unref a c = Some c'" "lists_ok (R(a := R a - 1)) L U c'" "keeps {a} c c'" "c_table c' = c_table c"
    "\<forall>b. b \<noteq> a \<longrightarrow> handles c' b = handles c b" "R a \<noteq> 1 \<Longrightarrow> keeps {} c c'" by (rule Unref_erased [OF ok a out]) blast
  have "table_ok (handles c') (c_table c) (set L \<union> set U)" by (rule table_frame [OF shard_okD(2) [OF s]]) (use c'(5) out in auto)
  then have "shard_ok (R(a := R a - 1)) L U c'" using c'(2,4) by (simp add: shard_ok_def)
  then have "cache_ok (R(a := R a - 1)) L U c'" using out cache_okD(3) [OF c] by (intro cache_okI [OF c _ c'(3)]) auto
  then show thesis using that c'(1,3,6) False by (simp add: Release_def)
qed

lemma erase_page:
  assumes c: "cache_ok R L U c" and a: "a \<in> set L \<union> set U" "handle_id (handles c) a = Some (k, hash)"
  obtains c1 c' where "table_Remove k hash c = Some (c1, Some a)" "FinishErase (Some a) c1 = Some (c', True)"
    "cache_ok R (remove1 a L) (remove1 a U) c'" "keeps {a} c c'" "if R a = 0 then handles c' a = None else keeps {} c c'"
proof -
  obtain c1 c' where c': "table_Remove k hash c = Some (c1, Some a)" "FinishErase (Some a) c1 = Some (c', True)"
    "shard_ok R (remove1 a L) (remove1 a U) c'" "keeps {a} c c'" "if R a = 0 then handles c' a = None else keeps {} c c'"
    by (rule erase_ok [OF cache_okD(1) [OF c] a])
  have "a \<notin> set (remove1 a L) \<union> set (remove1 a U)" using lists_okD(3) [OF shard_okD(1) [OF cache_okD(1) [OF c]]] by auto
  moreover have "length (remove1 a L) + length (remove1 a U) \<le> length L + length U" by (simp add: length_remove1 add_mono)
  ultimately have "cache_ok R (remove1 a L) (remove1 a U) c'"
    using cache_okD(3) [OF c] by (intro cache_okI [OF c c'(3,4)]) (auto dest: notin_set_remove1)
  then show thesis using that c' by blast
qed

lemma Erase_hit:
  assumes c: "cache_ok R L U c" and a: "a \<in> set L \<union> set U" "handle_id (handles c) a = Some (k, hash)"
  obtains c' where "Erase k hash c = Some c'" "cache_ok R (remove1 a L) (remove1 a U) c'" "keeps {a} c c'"
    "if R a = 0 then handles c' a = None else keeps {} c c'"
proof -
  obtain c1 c' where c': "table_Remove k hash c = Some (c1, Some a)" "FinishErase (Some a) c1 = Some (c', True)"
    "cache_ok R (remove1 a L) (remove1 a U) c'" "keeps {a} c c'" "if R a = 0 then handles c' a = None else keeps {} c c'"
    by (rule erase_page [OF c a])
  then show thesis using that by (simp add: Erase_def)
qed

lemma Erase_miss:
  assumes c: "cache_ok R L U c" and none: "\<forall>b \<in> set L \<union> set U. handle_id (handles c) b \<noteq> Some (k, hash)"
  shows "Erase k hash c = Some c"
proof -
  note s = cache_okD(1) [OF c]
  have "table_Remove k hash c = Some (c, None)"
    by (rule table_Remove_missing [OF shard_okD(2) [OF s] lists_keyed [OF shard_okD(1) [OF s]] none])
  then show ?thesis by (simp add: Erase_def FinishErase_def)
qed

lemma Prune_ok:
  assumes "cache_ok R L U c"
  shows "\<exists>c'. Prune c = Some c' \<and> cache_ok R [] U c' \<and> keeps (set L) c c'"
  using assms
proof (induction L arbitrary: c)
  case Nil
  then have "ring (handles c) (lru_head c) []" using lists_okD(1) [OF shard_okD(1) [OF cache_okD(1)]] by blast
  from ring_first [OF this] have "Prune c = Some c" by (subst Prune.simps) auto
  then show ?case using Nil by (simp add: keeps_def)
next
  case (Cons a L)
  note ok = shard_okD(1) [OF cache_okD(1) [OF Cons.prems]]
  have a: "a \<in> set (a # L) \<union> set U" by simp
  obtain x where x: "handles c a = Some x" "handle_ok R (a # L) U a x" "h_in_cache x" "a \<noteq> lru_head c" "a \<noteq> in_use_head c" "h_next x \<noteq> Some a"
    by (rule lists_handle [OF ok a])
  have refs: "h_refs x = 1" using x(2,3) by (auto simp: handle_ok_def word_unat_eq_iff)
  have "handle_id (handles c) a = Some (h_page_id x, h_hash x)" using x(1) by (simp add: handle_id_def)
  from erase_page [OF Cons.prems a this]
  obtain c1 c2 where c2: "table_Remove (h_page_id x) (h_hash x) c = Some (c1, Some a)" "FinishErase (Some a) c1 = Some (c2, True)"
    "cache_ok R (remove1 a (a # L)) (remove1 a U) c2" "keeps {a} c c2" by blast
  have U: "remove1 a U = U" using lists_okD(3) [OF ok] by (simp add: remove1_idem)
  obtain l where l: "handles c (lru_head c) = Some l" "h_next l = Some a" using ring_first [OF lists_okD(1) [OF ok]] by auto
  have "Prune c = Prune c2"
    by (subst Prune.simps) (use l x(1,4,6) refs c2(1,2) in \<open>simp add: assertion_def handle_key_def\<close>)
  moreover have "cache_ok R L U c2" using c2(3) U by simp
  then obtain c3 where "Prune c2 = Some c3" "cache_ok R [] U c3" "keeps (set L) c2 c3" using Cons.IH by blast
  ultimately show ?case using keeps_trans [OF c2(4)] by auto
qed

section \<open>The start and the end of a shard\<close>

lemma LRUCache_new_ok:
  assumes heads: "lru \<noteq> use" and cap: "0 < cap" "cap < 2 ^ 31"
  obtains c where "LRUCache_new lru use = Some c" "cache_ok (\<lambda>_. 0) [] [] (SetCapacity cap c)" "dom (handles c) = {lru, use}" "c_capacity c = 0"
proof -
  let ?hp = "[lru \<mapsto> list_head lru, use \<mapsto> list_head use]"
  let ?c = "\<lparr>handles = ?hp, c_capacity = 0, c_usage = 0, lru_head = lru, in_use_head = use, c_table = \<lparr>t_length = 0, t_elems = 0, t_list = []\<rparr>, deleted = []\<rparr>"
  obtain hp ts n where r: "Resize ?c = Some (?c\<lparr>handles := hp, c_table := (c_table ?c)\<lparr>t_list := ts, t_length := n\<rparr>\<rparr>)"
    "rechained {} (handles ?c) hp" "chained hp n ts {}" by (rule Resize_ok [of ?c "\<lambda>_. []" "{}"]) auto
  let ?d = "SetCapacity cap (?c\<lparr>handles := hp, c_table := (c_table ?c)\<lparr>t_list := ts, t_length := n\<rparr>\<rparr>)"
  have hp: "hp = ?hp" using rechainedD(1) [OF r(2)] by auto
  have "ring ?hp lru []" "ring ?hp use []" using heads by (simp_all add: ring_def linked_def list_head_def)
  then have "lists_ok (\<lambda>_. 0) [] [] ?d"
    using heads hp by (auto simp: lists_ok_def SetCapacity_def handle_ok_def list_head_def split: if_splits)
  moreover have "table_ok (handles ?d) (c_table ?d) {}" using r(3) by (simp add: table_ok_def SetCapacity_def)
  ultimately have "cache_ok (\<lambda>_. 0) [] [] ?d" using cap by (simp add: cache_ok_def shard_ok_def SetCapacity_def)
  then show thesis using that r(1) hp by (simp add: LRUCache_new_def insert_commute)
qed

text \<open>The destructor frees the unused entries, calling the deleters in the order of the list; it must not
  run while a handle is in use.\<close>

lemma path_lseg: "path hp s L t \<Longrightarrow> \<exists>h. hp s = Some h \<and> lseg h_next hp (h_next h) L (Some t)"
  by (induction L arbitrary: s) (auto simp: linked_def)

primrec deleter_calls :: "(addr \<rightharpoonup> LRUHandle) \<Rightarrow> addr list \<Rightarrow> (addr \<times> addr) list" where
  "deleter_calls hp [] = []"
| "deleter_calls hp (a # as) = (case hp a of Some h \<Rightarrow> (case h_deleter h of None \<Rightarrow> [] | Some d \<Rightarrow> [(d, a)]) | None \<Rightarrow> []) @ deleter_calls hp as"

lemma deleter_calls_other [simp]: "a \<notin> set as \<Longrightarrow> deleter_calls (hp(a := x)) as = deleter_calls hp as"
  by (induction as) auto

lemma destroy_list_ok:
  assumes "lseg h_next (handles c) p L (Some (lru_head c))" "lru_head c \<notin> set L" "distinct L"
    and "\<forall>a \<in> set L. \<exists>h. handles c a = Some h \<and> h_refs h = 1 \<and> h_in_cache h"
  shows "\<exists>c'. destroy_list p c = Some c' \<and> handles c' = handles c |` (- set L) \<and> deleted c' = deleted c @ deleter_calls (handles c) L"
  using assms
proof (induction L arbitrary: c p)
  case Nil
  then show ?case by (subst destroy_list.simps) (simp add: restrict_map_def)
next
  case (Cons a L)
  obtain h where h: "handles c a = Some h" "h_refs h = 1" "h_in_cache h" using Cons.prems(4) by auto
  let ?c = "c\<lparr>deleted := deleted c @ deleter_calls (handles c) [a], handles := (handles c)(a := None)\<rparr>"
  have step: "destroy_list p c = destroy_list (h_next h) ?c"
    by (subst destroy_list.simps)
      (use h Cons.prems in \<open>cases "h_deleter h"; simp add: assertion_def upd_handle_def Unref_def delete_handle_def\<close>)
  have "\<exists>c'. destroy_list (h_next h) ?c = Some c' \<and> handles c' = handles ?c |` (- set L) \<and> deleted c' = deleted ?c @ deleter_calls (handles ?c) L"
  proof (rule Cons.IH)
    show "lseg h_next (handles ?c) (h_next h) L (Some (lru_head ?c))"
      using Cons.prems(1,3) h(1) lseg_other [of a L h_next "handles c" None] by simp
    show "\<forall>b \<in> set L. \<exists>h. handles ?c b = Some h \<and> h_refs h = 1 \<and> h_in_cache h" using Cons.prems(3,4) by auto
  qed (use Cons.prems in auto)
  then show ?case unfolding step using Cons.prems(3) by (auto simp: restrict_map_def fun_eq_iff)
qed

lemma LRUCache_destroy_ok:
  assumes s: "shard_ok (\<lambda>_. 0) L [] c"
  shows "\<exists>c'. LRUCache_destroy c = Some c' \<and> dom (handles c') = {lru_head c, in_use_head c} \<and> deleted c' = deleted c @ deleter_calls (handles c) L"
proof -
  note ok = shard_okD(1) [OF s]
  note D = lists_okD [OF ok]
  obtain l where l: "handles c (lru_head c) = Some l" "lseg h_next (handles c) (h_next l) L (Some (lru_head c))"
    using path_lseg D(1) unfolding ring_def by blast
  have "\<exists>h. handles c a = Some h \<and> h_refs h = 1 \<and> h_in_cache h" if "a \<in> set L" for a
  proof -
    have "a \<in> set L \<union> set []" using that by simp
    from lists_handle [OF ok this] obtain h where "handles c a = Some h" "handle_ok (\<lambda>_. 0) L [] a h" "h_in_cache h" by blast
    then show ?thesis by (auto simp: handle_ok_def word_unat_eq_iff)
  qed
  then obtain c' where c': "destroy_list (h_next l) c = Some c'" "handles c' = handles c |` (- set L)" "deleted c' = deleted c @ deleter_calls (handles c) L"
    using destroy_list_ok [OF l(2)] D(3) by auto
  have "handles c a = None" if "a \<notin> set L" "a \<noteq> lru_head c" "a \<noteq> in_use_head c" for a
    using D(4) [OF _ that(2,3)] that(1) by (cases "handles c a") (auto simp: handle_ok_def)
  moreover obtain u where u: "handles c (in_use_head c) = Some u" "h_next u = Some (in_use_head c)" using ring_first [OF D(2)] by auto
  ultimately have "handles c' x \<noteq> None \<longleftrightarrow> x = lru_head c \<or> x = in_use_head c" for x
    using c'(2) l(1) D(3) by (cases "x = lru_head c"; cases "x = in_use_head c"; cases "x \<in> set L") simp_all
  then have "dom (handles c') = {lru_head c, in_use_head c}" by (auto simp: dom_def)
  moreover have "LRUCache_destroy c = Some c'" using u l(1) c'(1) by (simp add: LRUCache_destroy_def assertion_def)
  ultimately show ?thesis using c'(3) by blast
qed

lemma LRUCache_destroy_used:
  assumes "shard_ok R L (a # U) c"
  shows "LRUCache_destroy c = None"
proof -
  note D = lists_okD [OF shard_okD(1) [OF assms]]
  obtain u where u: "handles c (in_use_head c) = Some u" "h_next u = Some a" using ring_first [OF D(2)] by auto
  then show ?thesis using D(3) by (auto simp: LRUCache_destroy_def assertion_def)
qed

end
