(* ===== verification/MemPool.thy ===== *)
theory MemPool
  imports LruCache
begin

unbundle bit_operations_syntax

text \<open>
  The memory pool server: the hash of a page key (\<open>utils/GroundDB/hash.cc\<close>), the shards of the cache
  (\<open>storage/DSMEngine/cache.cc\<close>), and the manager with its request handlers
  (\<open>storage/GroundDB/init_server.cc\<close>). What the RDMA library gives is an argument: the buffers it
  registers and their memory regions. The transport of a reply is not modelled, the reply is.
\<close>

section \<open>The hash of a key\<close>

text \<open>A key as it lies in memory: 4 bytes of padding follow the fork number.\<close>

record key_image =
  the_key :: KeyType
  padding :: u32

definition image_bytes :: "key_image \<Rightarrow> bytes" where
  "image_bytes i =
     enc_le 8 (unat (SpcID (the_key i))) @ enc_le 8 (unat (DbID (the_key i))) @ enc_le 8 (unat (RelID (the_key i))) @
     enc_le 4 (unat (ForkNum (the_key i))) @ enc_le 4 (unat (padding i)) @ enc_le 8 (unat (BlkNum (the_key i)))"

definition DecodeFixed32 :: "bytes \<Rightarrow> u32" where
  "DecodeFixed32 p = word_of_nat (dec_le (take 4 p))"

abbreviation hash_m :: u32 where "hash_m \<equiv> 0xc6a4a793"

fun hash_words :: "bytes \<Rightarrow> u32 \<Rightarrow> bytes \<times> u32" where
  "hash_words (a # b # c # d # data) h =
     (let h = (h + DecodeFixed32 (a # b # c # d # data)) * hash_m in hash_words data (h XOR drop_bit 16 h))"
| "hash_words data h = (data, h)"

definition hash_rest :: "bytes \<Rightarrow> u32 \<Rightarrow> u32" where
  "hash_rest data h =
     (let h = (if length data = 3 then h + push_bit 16 (scast (data ! 2)) else h);
          h = (if 2 \<le> length data then h + push_bit 8 (scast (data ! 1)) else h)
      in if 1 \<le> length data then (let h = (h + scast (data ! 0)) * hash_m in h XOR drop_bit 24 h) else h)"

definition Hash :: "bytes \<Rightarrow> u32 \<Rightarrow> u32" where
  "Hash data seed =
     (let (rest, h) = hash_words data (ucast ((ucast seed :: u64) XOR (of_nat (length data) * ucast hash_m))) in hash_rest rest h)"

definition HashKeyType :: "key_image \<Rightarrow> u32" where
  "HashKeyType i = Hash (image_bytes i) 0"

section \<open>The shards\<close>

abbreviation kNumShards :: nat where "kNumShards \<equiv> 128"

definition Shard :: "u32 \<Rightarrow> nat" where
  "Shard hash = unat (drop_bit 25 hash)"

record ShardedLRUCache =
  shards :: "LRUCache list"
  last_id :: u64
  s_capacity :: u64

text \<open>\<open>sentinels s\<close> are the addresses of the two list sentinels of the shard \<open>s\<close>.\<close>

definition NewLRUCache :: "(nat \<Rightarrow> addr \<times> addr) \<Rightarrow> u64 \<Rightarrow> ShardedLRUCache option" where
  "NewLRUCache sentinels capacity =
     do { cs \<leftarrow> foldm (\<lambda>s cs. do { c \<leftarrow> LRUCache_new (fst (sentinels s)) (snd (sentinels s)); Some (cs @ [c]) }) [0..<kNumShards] [];
          cs \<leftarrow> foldm (\<lambda>s cs. arr_upd cs (int s) (SetCapacity ((capacity + of_nat s) div of_nat kNumShards))) [0..<kNumShards] cs;
          Some \<lparr>shards = cs, last_id = 0, s_capacity = capacity\<rparr> }"

text \<open>A handle that a client got, in the memory of the process.\<close>

fun deref :: "LRUCache list \<Rightarrow> addr \<Rightarrow> LRUHandle option" where
  "deref [] a = None"
| "deref (c # cs) a = (case handles c a of Some h \<Rightarrow> Some h | None \<Rightarrow> deref cs a)"

definition sharded_Lookup :: "key_image \<Rightarrow> ShardedLRUCache \<Rightarrow> (ShardedLRUCache \<times> ptr) option" where
  "sharded_Lookup k s =
     do { _ \<leftarrow> assertion (1000 \<le> s_capacity s);
          let hash = HashKeyType k;
          c \<leftarrow> arr_get (shards s) (int (Shard hash));
          (c, e) \<leftarrow> Lookup (the_key k) hash c;
          Some (s\<lparr>shards := (shards s)[Shard hash := c]\<rparr>, e) }"

definition sharded_LookupInsert ::
    "addr \<Rightarrow> key_image \<Rightarrow> ptr \<Rightarrow> u64 \<Rightarrow> ptr \<Rightarrow> ShardedLRUCache \<Rightarrow> FreeList \<Rightarrow> (ShardedLRUCache \<times> FreeList \<times> addr) option" where
  "sharded_LookupInsert e k value charge deleter s fl =
     do { _ \<leftarrow> assertion (1000 \<le> s_capacity s);
          let hash = HashKeyType k;
          c \<leftarrow> arr_get (shards s) (int (Shard hash));
          (c, fl, a) \<leftarrow> LookupInsert e (the_key k) hash value charge deleter c fl;
          Some (s\<lparr>shards := (shards s)[Shard hash := c]\<rparr>, fl, a) }"

definition sharded_Release :: "ptr \<Rightarrow> ShardedLRUCache \<Rightarrow> ShardedLRUCache option" where
  "sharded_Release p s =
     do { a \<leftarrow> p;
          h \<leftarrow> deref (shards s) a;
          c \<leftarrow> arr_get (shards s) (int (Shard (h_hash h)));
          c \<leftarrow> Release a c;
          Some (s\<lparr>shards := (shards s)[Shard (h_hash h) := c]\<rparr>) }"

definition sharded_Erase :: "key_image \<Rightarrow> ShardedLRUCache \<Rightarrow> ShardedLRUCache option" where
  "sharded_Erase k s =
     do { let hash = HashKeyType k;
          c \<leftarrow> arr_get (shards s) (int (Shard hash));
          c \<leftarrow> Erase (the_key k) hash c;
          Some (s\<lparr>shards := (shards s)[Shard hash := c]\<rparr>) }"

definition Value :: "ShardedLRUCache \<Rightarrow> addr \<Rightarrow> ptr option" where
  "Value s a = map_option h_value (deref (shards s) a)"

definition NewId :: "ShardedLRUCache \<Rightarrow> u64 \<times> ShardedLRUCache" where
  "NewId s = (last_id s + 1, s\<lparr>last_id := last_id s + 1\<rparr>)"

definition sharded_Prune :: "ShardedLRUCache \<Rightarrow> ShardedLRUCache option" where
  "sharded_Prune s =
     do { cs \<leftarrow> foldm (\<lambda>i cs. do { c \<leftarrow> arr_get cs (int i); c \<leftarrow> Prune c; Some (cs[i := c]) }) [0..<kNumShards] (shards s);
          Some (s\<lparr>shards := cs\<rparr>) }"

definition sharded_TotalCharge :: "ShardedLRUCache \<Rightarrow> u64 option" where
  "sharded_TotalCharge s = foldm (\<lambda>i total. do { c \<leftarrow> arr_get (shards s) (int i); Some (total + TotalCharge c) }) [0..<kNumShards] 0"

section \<open>The manager\<close>

text \<open>The address of a page or of a page id: the number of the array and the position in it.\<close>

record PageMeta =
  page_addr :: "nat \<times> nat"
  page_id_addr :: "nat \<times> nat"

record page_array =
  pa_mr :: addr
  pida_mr :: addr
  pa_buf :: "bytes list"
  pida_buf :: "key_image list"
  pa_size :: u64

record MemPoolManager =
  lru :: ShardedLRUCache
  page_arrays :: "page_array list"
  freelist :: FreeList
  metas :: "addr \<rightharpoonup> PageMeta"

text \<open>The RDMA library registers the array \<open>arr\<close>; \<open>ms\<close> are the addresses of the new \<open>PageMeta\<close> objects.\<close>

definition allocate_page_array :: "(nat \<Rightarrow> addr \<times> addr) \<Rightarrow> addr list \<Rightarrow> page_array \<Rightarrow> u64 \<Rightarrow> MemPoolManager \<Rightarrow> MemPoolManager option" where
  "allocate_page_array sentinels ms arr n_pages p =
     do { s \<leftarrow> NewLRUCache sentinels n_pages;
          let n = length (page_arrays p);
          let p = p\<lparr>lru := s, page_arrays := page_arrays p @ [arr\<lparr>pa_size := n_pages\<rparr>]\<rparr>;
          foldm (\<lambda>i p. do { m \<leftarrow> arr_get ms (int i);
                            Some (p\<lparr>metas := (metas p)(m \<mapsto> \<lparr>page_addr = (n, i), page_id_addr = (n, i)\<rparr>),
                                    freelist := push_back m (freelist p)\<rparr>) }) [0..<unat n_pages] p }"

definition copy_page :: "nat \<times> nat \<Rightarrow> bytes \<Rightarrow> MemPoolManager \<Rightarrow> MemPoolManager option" where
  "copy_page at data p =
     do { a \<leftarrow> arr_get (page_arrays p) (int (fst at));
          buf \<leftarrow> arr_upd (pa_buf a) (int (snd at)) (\<lambda>_. data);
          Some (p\<lparr>page_arrays := (page_arrays p)[fst at := a\<lparr>pa_buf := buf\<rparr>]\<rparr>) }"

definition copy_id :: "nat \<times> nat \<Rightarrow> key_image \<Rightarrow> MemPoolManager \<Rightarrow> MemPoolManager option" where
  "copy_id at k p =
     do { a \<leftarrow> arr_get (page_arrays p) (int (fst at));
          buf \<leftarrow> arr_upd (pida_buf a) (int (snd at)) (\<lambda>_. k);
          Some (p\<lparr>page_arrays := (page_arrays p)[fst at := a\<lparr>pida_buf := buf\<rparr>]\<rparr>) }"

section \<open>The handlers\<close>

text \<open>The three steps of \<open>flush_page_handler\<close>: the shard and the handle have their locks, and handlers run
  on several threads, so that other handlers can run between the steps.\<close>

definition flush_begin :: "addr \<Rightarrow> key_image \<Rightarrow> MemPoolManager \<Rightarrow> (MemPoolManager \<times> addr) option" where
  "flush_begin e k p =
     do { (s, fl, a) \<leftarrow> sharded_LookupInsert e k None 1 None (lru p) (freelist p);
          Some (p\<lparr>lru := s, freelist := fl\<rparr>, a) }"

definition flush_write :: "addr \<Rightarrow> key_image \<Rightarrow> bytes \<Rightarrow> MemPoolManager \<Rightarrow> MemPoolManager option" where
  "flush_write a k data p =
     do { v \<leftarrow> Value (lru p) a;
          m \<leftarrow> v;
          meta \<leftarrow> metas p m;
          p \<leftarrow> copy_page (page_addr meta) data p;
          copy_id (page_id_addr meta) k p }"

definition release :: "ptr \<Rightarrow> MemPoolManager \<Rightarrow> MemPoolManager option" where
  "release a p = do { s \<leftarrow> sharded_Release a (lru p); Some (p\<lparr>lru := s\<rparr>) }"

definition flush_page_handler :: "addr \<Rightarrow> key_image \<Rightarrow> bytes \<Rightarrow> MemPoolManager \<Rightarrow> (MemPoolManager \<times> bool) option" where
  "flush_page_handler e k data p =
     do { (p, a) \<leftarrow> flush_begin e k p;
          p \<leftarrow> flush_write a k data p;
          p \<leftarrow> release (Some a) p;
          Some (p, True) }"

definition access_begin :: "key_image \<Rightarrow> MemPoolManager \<Rightarrow> (MemPoolManager \<times> ptr) option" where
  "access_begin k p = do { (s, e) \<leftarrow> sharded_Lookup k (lru p); Some (p\<lparr>lru := s\<rparr>, e) }"

definition access_page_handler :: "key_image \<Rightarrow> MemPoolManager \<Rightarrow> (MemPoolManager \<times> bool) option" where
  "access_page_handler k p = do { (p, e) \<leftarrow> access_begin k p; p \<leftarrow> release e p; Some (p, True) }"

text \<open>The reply has room for 256 ids; \<open>res\<close> is what it holds before.\<close>

partial_function (option) copy_ids :: "u64 \<Rightarrow> page_array \<Rightarrow> nat \<Rightarrow> key_image list \<Rightarrow> key_image list option" where
  "copy_ids ofs a i res =
     (if ofs + of_nat i < pa_size a \<and> i < 4096
      then do { k \<leftarrow> arr_get (pida_buf a) (int (unat (ofs + of_nat i)));
                res \<leftarrow> arr_upd res (int i) (\<lambda>_. k);
                copy_ids ofs a (i + 1) res }
      else Some res)"

definition sync_pat_handler :: "u64 \<Rightarrow> u64 \<Rightarrow> key_image list \<Rightarrow> MemPoolManager \<Rightarrow> key_image list option" where
  "sync_pat_handler pa_idx pa_ofs res p =
     do { a \<leftarrow> arr_get (page_arrays p) (int (unat pa_idx)); copy_ids pa_ofs a 0 res }"

definition mr_info_handler :: "u64 \<Rightarrow> MemPoolManager \<Rightarrow> (addr \<times> addr) option" where
  "mr_info_handler pa_idx p =
     do { a \<leftarrow> arr_get (page_arrays p) (int (unat pa_idx)); Some (pa_mr a, pida_mr a) }"

section \<open>Requests\<close>

datatype request =
    flush_page bytes key_image
  | access_page key_image
  | sync_pat u64 u64
  | mr_info u64
  | other_command u32

datatype reply =
    flush_page_reply bool
  | access_page_reply bool
  | sync_pat_reply "key_image list"
  | mr_info_reply addr addr

text \<open>The handler that \<open>server_communication_thread\<close> chooses for a request; another command ends the server.\<close>

fun handle_request :: "addr \<Rightarrow> key_image list \<Rightarrow> request \<Rightarrow> MemPoolManager \<Rightarrow> (MemPoolManager \<times> reply) option" where
  "handle_request e res (flush_page data k) p = do { (p, b) \<leftarrow> flush_page_handler e k data p; Some (p, flush_page_reply b) }"
| "handle_request e res (access_page k) p = do { (p, b) \<leftarrow> access_page_handler k p; Some (p, access_page_reply b) }"
| "handle_request e res (sync_pat pa_idx pa_ofs) p = do { ids \<leftarrow> sync_pat_handler pa_idx pa_ofs res p; Some (p, sync_pat_reply ids) }"
| "handle_request e res (mr_info pa_idx) p = do { (m, m') \<leftarrow> mr_info_handler pa_idx p; Some (p, mr_info_reply m m') }"
| "handle_request e res (other_command n) p = None"

end
