(* ===== verification/PoolLaws.thy ===== *)
theory PoolLaws
  imports LruOps MemPool
begin

text \<open>
  The invariant of the memory pool: its shards, the buffers of their pages and the free list, and what
  the steps of the handlers do to it.
\<close>

section \<open>The capacities of the shards\<close>

text \<open>The capacities \<open>(c + s) / n\<close> of \<open>n\<close> shards add up to \<open>c\<close>.\<close>

lemma div_sum: "0 < n \<Longrightarrow> (\<Sum>s < n. (c + s) div n) = (c :: nat)"
proof (induction c)
  case 0
  then show ?case by simp
next
  case (Suc c)
  have "(\<Sum>s < n. (Suc c + s) div n) = (\<Sum>s \<in> {1..<Suc n}. (c + s) div n)"
    by (rule sum.reindex_bij_witness [of _ "\<lambda>s. s - 1" Suc]) auto
  also have "\<dots> = (\<Sum>s \<in> insert n ({..<n} - {0}). (c + s) div n)" using Suc.prems by (intro sum.cong) auto
  also have "\<dots> = (c + n) div n + (\<Sum>s \<in> {..<n} - {0}. (c + s) div n)" by simp
  also have "\<dots> = Suc (c div n + (\<Sum>s \<in> {..<n} - {0}. (c + s) div n))" using Suc.prems by (simp add: div_add_self2)
  also have "c div n + (\<Sum>s \<in> {..<n} - {0}. (c + s) div n) = (\<Sum>s < n. (c + s) div n)"
    using Suc.prems by (subst (2) sum.remove [of _ 0]) simp_all
  finally show ?case using Suc by simp
qed

lemma Shard_less: "Shard h < kNumShards"
proof -
  have "unat h < 2 ^ 32" using unsigned_less [of h] by simp
  then have "drop_bit 25 (unat h) < 128" by (simp add: drop_bit_eq_div)
  then show ?thesis by (simp add: Shard_def unat_drop_bit_eq)
qed

lemma shard_capacity:
  assumes "unat cap < 2 ^ 32" "s < kNumShards"
  shows "unat ((cap + of_nat s) div (of_nat kNumShards :: u64)) = (unat cap + s) div kNumShards"
proof -
  have "unat (cap + of_nat s) = unat cap + s" using assms by (simp add: unat_word_ariths unat_of_nat take_bit_eq_mod)
  then show ?thesis by (simp add: unat_div)
qed

section \<open>Buffers\<close>

text \<open>Every entry in \<open>E\<close> has a buffer of its own, and the other buffers are free.\<close>

definition owned :: "addr set \<Rightarrow> 'e set \<Rightarrow> ('e \<Rightarrow> ptr) \<Rightarrow> FreeList \<Rightarrow> bool" where
  "owned M E buf fl \<longleftrightarrow> finite M \<and> finite E \<and> (\<forall>q \<in> E. \<exists>m \<in> M - set fl. buf q = Some m) \<and> inj_on buf E \<and>
     distinct fl \<and> set fl \<subseteq> M \<and> card E + length fl = card M"

lemma ownedD:
  assumes "owned M E buf fl"
  shows "finite M" "finite E" "q \<in> E \<Longrightarrow> \<exists>m \<in> M - set fl. buf q = Some m" "inj_on buf E" "card E + length fl = card M"
  using assms unfolding owned_def by blast+

lemma owned_frame: "owned M E buf fl \<Longrightarrow> (\<And>q. q \<in> E \<Longrightarrow> buf' q = buf q) \<Longrightarrow> owned M E buf' fl"
  unfolding owned_def using inj_on_cong [of E buf' buf] by simp

lemma owned_take:
  assumes o: "owned M E buf (m # fl)" and q: "q \<notin> E" "buf' q = Some m" and same: "\<And>r. r \<in> E \<Longrightarrow> buf' r = buf r"
  shows "owned M (insert q E) buf' fl"
proof -
  have b: "\<exists>x \<in> M - set (m # fl). buf' r = Some x" if "r \<in> E" for r using ownedD(3) [OF o that] same [OF that] by simp
  then have "Some m \<notin> buf' ` E" by force
  moreover have "inj_on buf' E" using ownedD(4) [OF o] inj_on_cong [of E buf' buf] same by simp
  ultimately have "inj_on buf' (insert q E)" using q by (simp add: inj_on_insert)
  moreover have "\<exists>x \<in> M - set fl. buf' r = Some x" if "r \<in> insert q E" for r
    using that b [of r] q o unfolding owned_def by (cases "r = q") auto
  ultimately show ?thesis using o q(1) unfolding owned_def by simp
qed

lemma owned_move:
  assumes o: "owned M E buf fl" and q: "q \<in> E" "r \<notin> E" "buf' r = buf q" and same: "\<And>x. x \<in> E - {q} \<Longrightarrow> buf' x = buf x"
  shows "owned M (insert r (E - {q})) buf' fl"
proof -
  have inj: "inj_on buf E" by (rule ownedD(4) [OF o])
  have "inj_on buf' (E - {q})" using inj_on_diff [OF inj, of "{q}"] inj_on_cong [of "E - {q}" buf' buf] same by simp
  moreover have "buf' r \<noteq> buf' x" if "x \<in> E - {q}" for x using inj_onD [OF inj, of q x] that q same [OF that] by auto
  ultimately have "inj_on buf' (insert r (E - {q}))" by (auto simp: inj_on_insert)
  moreover have "\<exists>m \<in> M - set fl. buf' x = Some m" if "x \<in> insert r (E - {q})" for x
    using that ownedD(3) [OF o q(1)] ownedD(3) [OF o, of x] q(3) same [of x] by (cases "x = r") auto
  moreover have "card (insert r (E - {q})) = card E" using q(1,2) ownedD(2) [OF o] by (simp add: card_Suc_Diff1 del: card_Diff_insert)
  ultimately show ?thesis using o unfolding owned_def by simp
qed

section \<open>The shards\<close>

text \<open>\<open>R i\<close>, \<open>L i\<close> and \<open>U i\<close> are the references and the lists of the shard \<open>i\<close>. No entry is erased while it is in
  use, so that every handle in use is one of an entry.\<close>

definition entries :: "(nat \<Rightarrow> addr list) \<Rightarrow> (nat \<Rightarrow> addr list) \<Rightarrow> (nat \<times> addr) set" where
  "entries L U = (SIGMA i:{..<kNumShards}. set (L i) \<union> set (U i))"

definition one_shard :: "u64 \<Rightarrow> nat \<Rightarrow> (addr \<Rightarrow> nat) \<Rightarrow> addr list \<Rightarrow> addr list \<Rightarrow> LRUCache \<Rightarrow> bool" where
  "one_shard cap i R L U c \<longleftrightarrow> cache_ok R L U c \<and> unat (c_capacity c) = (unat cap + i) div kNumShards \<and> (\<forall>a. 0 < R a \<longrightarrow> a \<in> set U) \<and>
     (\<forall>a \<in> set L \<union> set U. \<exists>k hash. handle_id (handles c) a = Some (k, hash) \<and> Shard hash = i)"

definition shards_ok :: "u64 \<Rightarrow> (nat \<Rightarrow> addr \<Rightarrow> nat) \<Rightarrow> (nat \<Rightarrow> addr list) \<Rightarrow> (nat \<Rightarrow> addr list) \<Rightarrow> ShardedLRUCache \<Rightarrow> bool" where
  "shards_ok cap R L U s \<longleftrightarrow> length (shards s) = kNumShards \<and> s_capacity s = cap \<and> 1000 \<le> cap \<and>
     (\<forall>i < kNumShards. one_shard cap i (R i) (L i) (U i) (shards s ! i)) \<and>
     (\<forall>i < kNumShards. \<forall>j < kNumShards. i \<noteq> j \<longrightarrow> dom (handles (shards s ! i)) \<inter> dom (handles (shards s ! j)) = {})"

lemma one_shardD:
  assumes "one_shard cap i R L U c"
  shows "cache_ok R L U c" "unat (c_capacity c) = (unat cap + i) div kNumShards" "0 < R a \<Longrightarrow> a \<in> set U"
    "a \<in> set L \<union> set U \<Longrightarrow> \<exists>k hash. handle_id (handles c) a = Some (k, hash) \<and> Shard hash = i"
  using assms unfolding one_shard_def by blast+

lemma shards_okD:
  assumes "shards_ok cap R L U s"
  shows "length (shards s) = kNumShards" "s_capacity s = cap" "1000 \<le> cap"
    "i < kNumShards \<Longrightarrow> one_shard cap i (R i) (L i) (U i) (shards s ! i)"
    "i < kNumShards \<Longrightarrow> j < kNumShards \<Longrightarrow> i \<noteq> j \<Longrightarrow> dom (handles (shards s ! i)) \<inter> dom (handles (shards s ! j)) = {}"
  using assms unfolding shards_ok_def by blast+

lemma keeps_dom:
  assumes "keeps X c c'"
  shows "dom (handles c') \<subseteq> dom (handles c) \<union> X"
proof
  fix a assume "a \<in> dom (handles c')"
  then show "a \<in> dom (handles c) \<union> X" using keepsD(4) [OF assms, of a] by (cases "a \<in> X"; cases "handles c a") auto
qed

text \<open>A change of one shard, which may allocate a handle at an address that is free in all of them.\<close>

lemma shards_change:
  assumes s: "shards_ok cap R L U s" and x: "x < kNumShards" and c: "one_shard cap x R' L' U' c'"
    and d: "dom (handles c') \<subseteq> dom (handles (shards s ! x)) \<union> Y" "\<forall>i < kNumShards. i \<noteq> x \<longrightarrow> dom (handles (shards s ! i)) \<inter> Y = {}"
  shows "shards_ok cap (R(x := R')) (L(x := L')) (U(x := U')) (s\<lparr>shards := (shards s)[x := c']\<rparr>)"
proof -
  note D = shards_okD [OF s]
  have new: "dom (handles c') \<inter> dom (handles (shards s ! i)) = {}" if "i < kNumShards" "i \<noteq> x" for i
    using D(5) [OF x that(1)] that d by blast
  have "dom (handles ((shards s)[x := c'] ! i)) \<inter> dom (handles ((shards s)[x := c'] ! j)) = {}"
    if that: "i < kNumShards" "j < kNumShards" "i \<noteq> j" for i j
    using D(1) D(5) [OF that] new [of i] new [of j] that by (cases "i = x"; cases "j = x") (simp_all add: Int_commute)
  moreover have "one_shard cap i ((R(x := R')) i) ((L(x := L')) i) ((U(x := U')) i) ((shards s)[x := c'] ! i)" if "i < kNumShards" for i
    using c D(1) D(4) [OF that] that by (cases "i = x") simp_all
  ultimately show ?thesis using D(1-3) by (simp add: shards_ok_def)
qed

lemma deref_at:
  assumes "i < length cs" "handles (cs ! i) a = Some h" "\<And>j. j < length cs \<Longrightarrow> j \<noteq> i \<Longrightarrow> handles (cs ! j) a = None"
  shows "deref cs a = Some h"
  using assms
proof (induction cs arbitrary: i)
  case (Cons c cs)
  show ?case
  proof (cases i)
    case 0
    then show ?thesis using Cons.prems(2) by simp
  next
    case (Suc n)
    have "handles c a = None" using Cons.prems(3) [of 0] Suc by simp
    moreover have "deref cs a = Some h"
    proof (rule Cons.IH [of n])
      show "handles (cs ! j) a = None" if "j < length cs" "j \<noteq> n" for j using Cons.prems(3) [of "Suc j"] that Suc by simp
    qed (use Cons.prems(1,2) Suc in simp_all)
    ultimately show ?thesis by simp
  qed
qed simp

lemma shards_deref:
  assumes s: "shards_ok cap R L U s" and x: "x < kNumShards" "handles (shards s ! x) a = Some h"
  shows "deref (shards s) a = Some h"
proof (rule deref_at [of x])
  show "handles (shards s ! j) a = None" if "j < length (shards s)" "j \<noteq> x" for j
  proof -
    have "dom (handles (shards s ! j)) \<inter> dom (handles (shards s ! x)) = {}" using shards_okD(5) [OF s, of j x] that x(1) shards_okD(1) [OF s] by simp
    then show ?thesis using x(2) by blast
  qed
qed (use x shards_okD(1) [OF s] in simp_all)

section \<open>The cache and the free list\<close>

definition buf :: "ShardedLRUCache \<Rightarrow> nat \<times> addr \<Rightarrow> ptr" where
  "buf s = (\<lambda>(i, a). Option.bind (handles (shards s ! i) a) h_value)"

definition cache_pool ::
    "u64 \<Rightarrow> addr set \<Rightarrow> (nat \<Rightarrow> addr \<Rightarrow> nat) \<Rightarrow> (nat \<Rightarrow> addr list) \<Rightarrow> (nat \<Rightarrow> addr list) \<Rightarrow> ShardedLRUCache \<Rightarrow> FreeList \<Rightarrow> bool" where
  "cache_pool cap M R L U s fl \<longleftrightarrow> shards_ok cap R L U s \<and> owned M (entries L U) (buf s) fl \<and> card M = unat cap"

lemma cache_poolD:
  assumes "cache_pool cap M R L U s fl"
  shows "shards_ok cap R L U s" "owned M (entries L U) (buf s) fl" "card M = unat cap"
  using assms by (simp_all add: cache_pool_def)

text \<open>The handles outside \<open>X\<close> have what they had.\<close>

definition preserved :: "(nat \<times> addr) set \<Rightarrow> ShardedLRUCache \<Rightarrow> ShardedLRUCache \<Rightarrow> bool" where
  "preserved X s s' \<longleftrightarrow> (\<forall>i < kNumShards. \<forall>a. (i, a) \<notin> X \<longrightarrow>
     map_option core (handles (shards s' ! i) a) = map_option core (handles (shards s ! i) a))"

lemma preservedD: "preserved X s s' \<Longrightarrow> i < kNumShards \<Longrightarrow> (i, a) \<notin> X \<Longrightarrow>
  map_option core (handles (shards s' ! i) a) = map_option core (handles (shards s ! i) a)"
  by (simp add: preserved_def)

lemma core_value: "map_option core x = map_option core y \<Longrightarrow> Option.bind x h_value = Option.bind y h_value"
  by (cases x; cases y) (simp_all add: core_def)

lemma preserved_buf: "preserved X s s' \<Longrightarrow> i < kNumShards \<Longrightarrow> (i, a) \<notin> X \<Longrightarrow> buf s' (i, a) = buf s (i, a)"
  using core_value [OF preservedD, of X s s' i a] by (simp add: buf_def)

lemma preserved_shard:
  assumes "length (shards s) = kNumShards" "keeps X (shards s ! x) c'"
  shows "preserved ((\<lambda>a. (x, a)) ` X) s (s\<lparr>shards := (shards s)[x := c']\<rparr>)"
  unfolding preserved_def
proof (intro allI impI)
  fix i a assume "i < kNumShards" "(i, a) \<notin> (\<lambda>a. (x, a)) ` X"
  then show "map_option core (handles (shards (s\<lparr>shards := (shards s)[x := c']\<rparr>) ! i) a) = map_option core (handles (shards s ! i) a)"
    using assms(1) keepsD(4) [OF assms(2), of a] by (cases "i = x") auto
qed

text \<open>An operation that only moves handles between the lists.\<close>

lemma same_entries:
  assumes p: "cache_pool cap M R L U s fl" and x: "x < kNumShards" and c: "one_shard cap x R' L' U' c'" and k: "keeps {} (shards s ! x) c'"
    and sets: "set L' \<union> set U' = set (L x) \<union> set (U x)"
  shows "cache_pool cap M (R(x := R')) (L(x := L')) (U(x := U')) (s\<lparr>shards := (shards s)[x := c']\<rparr>) fl" (is "cache_pool _ _ _ _ _ ?s _")
    and "preserved {} s (s\<lparr>shards := (shards s)[x := c']\<rparr>)"
proof -
  note s = cache_poolD(1) [OF p]
  have "shards_ok cap (R(x := R')) (L(x := L')) (U(x := U')) ?s"
    by (rule shards_change [OF s x c, of "{}"]) (use keeps_dom [OF k] in simp_all)
  moreover show pr: "preserved {} s ?s" using preserved_shard [OF shards_okD(1) [OF s] k] by simp
  have "entries (L(x := L')) (U(x := U')) = entries L U" using sets by (auto simp: entries_def split: if_splits)
  moreover have "owned M (entries L U) (buf ?s) fl"
    by (rule owned_frame [OF cache_poolD(2) [OF p]]) (use preserved_buf [OF pr] in \<open>auto simp: entries_def\<close>)
  ultimately show "cache_pool cap M (R(x := R')) (L(x := L')) (U(x := U')) ?s fl" using cache_poolD(3) [OF p] by (simp add: cache_pool_def)
qed

lemma one_shard_same:
  assumes o: "one_shard cap i R L U c" and c: "cache_ok R' L' U' c'" and k: "keeps {} c c'" and sets: "set L' \<union> set U' = set L \<union> set U"
    and used: "\<And>a. 0 < R' a \<Longrightarrow> a \<in> set U'"
  shows "one_shard cap i R' L' U' c'"
proof -
  have "\<exists>k hash. handle_id (handles c') a = Some (k, hash) \<and> Shard hash = i" if "a \<in> set L' \<union> set U'" for a
    using one_shardD(4) [OF o, of a] that sets keeps_id [OF k, of a] by simp
  then show ?thesis using c used one_shardD(2) [OF o] keepsD(1) [OF k] unfolding one_shard_def by simp
qed

section \<open>Looking a page up and giving it back\<close>

lemma hit_one_shard:
  assumes o: "one_shard cap i R L U c" and a: "a \<in> set L \<union> set U" and s: "shard_ok (R(a := R a + 1)) (remove1 a L) (used a L U) c'" and k: "keeps {} c c'"
  shows "one_shard cap i (R(a := R a + 1)) (remove1 a L) (used a L U) c'" "set (remove1 a L) \<union> set (used a L U) = set L \<union> set U"
proof -
  note c = one_shardD(1) [OF o]
  note d = lists_okD(3) [OF shard_okD(1) [OF cache_okD(1) [OF c]]]
  show sets: "set (remove1 a L) \<union> set (used a L U) = set L \<union> set U" using d a by auto
  have "length (remove1 a L) + length (used a L U) = length L + length U"
    using length_pos_if_in_set [of a L] by (auto simp: length_remove1)
  then have c': "cache_ok (R(a := R a + 1)) (remove1 a L) (used a L U) c'"
    using cache_okD(3) [OF c] sets by (intro cache_okI [OF c s k]) auto
  show "one_shard cap i (R(a := R a + 1)) (remove1 a L) (used a L U) c'"
    by (rule one_shard_same [OF o c' k sets]) (use one_shardD(3) [OF o] a in \<open>auto split: if_splits\<close>)
qed

abbreviation hit_refs_of :: "(nat \<Rightarrow> addr \<Rightarrow> nat) \<Rightarrow> nat \<Rightarrow> addr \<Rightarrow> nat \<Rightarrow> addr \<Rightarrow> nat" where
  "hit_refs_of R x a \<equiv> R(x := (R x)(a := R x a + 1))"

lemma lookup_insert_hit:
  assumes p: "cache_pool cap M R L U s fl" and x: "x = Shard (HashKeyType k)" and a: "a \<in> set (L x) \<union> set (U x)"
    "handle_id (handles (shards s ! x)) a = Some (the_key k, HashKeyType k)" "R x a + 2 < 2 ^ 32"
  obtains s' where "sharded_LookupInsert e k None 1 None s fl = Some (s', fl, a)"
    "cache_pool cap M (hit_refs_of R x a) (L(x := remove1 a (L x))) (U(x := used a (L x) (U x))) s' fl" "preserved {} s s'"
proof -
  note s = cache_poolD(1) [OF p]
  have x': "x < kNumShards" by (simp add: x Shard_less)
  note o = shards_okD(4) [OF s x']
  obtain c' where c': "LookupInsert e (the_key k) (HashKeyType k) None 1 None (shards s ! x) fl = Some (c', fl, a)"
    "shard_ok ((R x)(a := R x a + 1)) (remove1 a (L x)) (used a (L x) (U x)) c'" "keeps {} (shards s ! x) c'"
    by (rule LookupInsert_hit [OF cache_okD(1) [OF one_shardD(1) [OF o]] a])
  note h = hit_one_shard [OF o a(1) c'(2,3)]
  have "sharded_LookupInsert e k None 1 None s fl = Some (s\<lparr>shards := (shards s)[x := c']\<rparr>, fl, a)"
    using c'(1) x x' shards_okD(1-3) [OF s] by (simp add: sharded_LookupInsert_def assertion_def)
  then show thesis using that same_entries [OF p x' h(1) c'(3) h(2)] by blast
qed

lemma lookup_hit:
  assumes p: "cache_pool cap M R L U s fl" and x: "x = Shard (HashKeyType k)" and a: "a \<in> set (L x) \<union> set (U x)"
    "handle_id (handles (shards s ! x)) a = Some (the_key k, HashKeyType k)" "R x a + 2 < 2 ^ 32"
  obtains s' where "sharded_Lookup k s = Some (s', Some a)"
    "cache_pool cap M (hit_refs_of R x a) (L(x := remove1 a (L x))) (U(x := used a (L x) (U x))) s' fl" "preserved {} s s'"
proof -
  note s = cache_poolD(1) [OF p]
  have x': "x < kNumShards" by (simp add: x Shard_less)
  note o = shards_okD(4) [OF s x']
  obtain c' where c': "Lookup (the_key k) (HashKeyType k) (shards s ! x) = Some (c', Some a)"
    "shard_ok ((R x)(a := R x a + 1)) (remove1 a (L x)) (used a (L x) (U x)) c'" "keeps {} (shards s ! x) c'"
    by (rule Lookup_hit [OF cache_okD(1) [OF one_shardD(1) [OF o]] a])
  note h = hit_one_shard [OF o a(1) c'(2,3)]
  have "sharded_Lookup k s = Some (s\<lparr>shards := (shards s)[x := c']\<rparr>, Some a)"
    using c'(1) x x' shards_okD(1-3) [OF s] by (simp add: sharded_Lookup_def assertion_def)
  then show thesis using that same_entries [OF p x' h(1) c'(3) h(2)] by blast
qed

lemma lookup_miss:
  assumes s: "shards_ok cap R L U s" and x: "x = Shard (HashKeyType k)"
    and none: "\<forall>b \<in> set (L x) \<union> set (U x). handle_id (handles (shards s ! x)) b \<noteq> Some (the_key k, HashKeyType k)"
  shows "sharded_Lookup k s = Some (s, None)"
proof -
  have x': "x < kNumShards" by (simp add: x Shard_less)
  have "Lookup (the_key k) (HashKeyType k) (shards s ! x) = Some (shards s ! x, None)"
    by (rule Lookup_miss [OF cache_okD(1) [OF one_shardD(1) [OF shards_okD(4) [OF s x']]] none])
  then show ?thesis using x x' shards_okD(1-3) [OF s] by (simp add: sharded_Lookup_def assertion_def)
qed

lemma release_ok:
  assumes p: "cache_pool cap M R L U s fl" and x: "x < kNumShards" and a: "0 < R x a"
  obtains s' where "sharded_Release (Some a) s = Some s'"
    "cache_pool cap M (R(x := (R x)(a := R x a - 1))) (L(x := unused_after (R x) a (L x) (U x))) (U(x := used_after (R x) a (U x))) s' fl"
    "preserved {} s s'"
proof -
  note s = cache_poolD(1) [OF p]
  note o = shards_okD(4) [OF s x]
  note c = one_shardD(1) [OF o] and mem = one_shardD(3) [OF o a]
  have aU: "a \<in> set (L x) \<union> set (U x)" using mem by simp
  obtain k hash where id: "handle_id (handles (shards s ! x)) a = Some (k, hash)" "Shard hash = x" using one_shardD(4) [OF o aU] by blast
  then obtain h where h: "handles (shards s ! x) a = Some h" "Shard (h_hash h) = x" by (auto simp: handle_id_def)
  obtain c' where c': "Release a (shards s ! x) = Some c'"
    "cache_ok ((R x)(a := R x a - 1)) (unused_after (R x) a (L x) (U x)) (used_after (R x) a (U x)) c'"
    "keeps (if a \<notin> set (U x) \<and> R x a = 1 then {a} else {}) (shards s ! x) c'" by (rule Release_ok [OF c a])
  have k: "keeps {} (shards s ! x) c'" using c'(3) mem by simp
  have d: "distinct (U x)" using lists_okD(3) [OF shard_okD(1) [OF cache_okD(1) [OF c]]] by simp
  have sets: "set (unused_after (R x) a (L x) (U x)) \<union> set (used_after (R x) a (U x)) = set (L x) \<union> set (U x)" using mem d by auto
  have o': "one_shard cap x ((R x)(a := R x a - 1)) (unused_after (R x) a (L x) (U x)) (used_after (R x) a (U x)) c'"
    by (rule one_shard_same [OF o c'(2) k sets]) (use one_shardD(3) [OF o] mem d in \<open>auto split: if_splits\<close>)
  have "sharded_Release (Some a) s = Some (s\<lparr>shards := (shards s)[x := c']\<rparr>)"
    using shards_deref [OF s x h(1)] h(2) x shards_okD(1) [OF s] c'(1) by (simp add: sharded_Release_def)
  then show thesis using that same_entries [OF p x o' k sets] by blast
qed

section \<open>Entering a page\<close>

lemma entries_card:
  assumes s: "shards_ok cap R L U s"
  shows "card (entries L U) = (\<Sum>i < kNumShards. length (L i) + length (U i))"
proof -
  have "card (set (L i) \<union> set (U i)) = length (L i) + length (U i)" if "i < kNumShards" for i
    by (rule lists_card [OF shard_okD(1) [OF cache_okD(1) [OF one_shardD(1) [OF shards_okD(4) [OF s that]]]]])
  then show ?thesis by (simp add: entries_def card_SigmaI)
qed

text \<open>While a shard has room, the free list has a buffer.\<close>

lemma free_buffer:
  assumes p: "cache_pool cap M R L U s fl" and x: "x < kNumShards" "length (L x) + length (U x) < (unat cap + x) div kNumShards"
  shows "fl \<noteq> []"
proof
  note s = cache_poolD(1) [OF p]
  assume fl: "fl = []"
  have le: "length (L i) + length (U i) \<le> (unat cap + i) div kNumShards" if "i < kNumShards" for i
    using cache_okD(3) [OF one_shardD(1) [OF shards_okD(4) [OF s that]]] one_shardD(2) [OF shards_okD(4) [OF s that]] by simp
  have "(\<Sum>i < kNumShards. length (L i) + length (U i)) < (\<Sum>i < kNumShards. (unat cap + i) div kNumShards)"
    by (rule sum_strict_mono_ex1) (use le x in auto)
  then show False using entries_card [OF s] ownedD(5) [OF cache_poolD(2) [OF p]] cache_poolD(3) [OF p] fl div_sum [of kNumShards "unat cap"] by simp
qed

lemma one_shard_new:
  assumes o: "one_shard cap i R L U c" and c: "cache_ok (R(e := 1)) L' (U @ [e]) c'" and k: "keeps X c c'" and X: "X \<inter> (set L' \<union> set U) = {}"
    and L': "set L' \<subseteq> set L" and e: "handle_id (handles c') e = Some (k, hash)" "Shard hash = i"
  shows "one_shard cap i (R(e := 1)) L' (U @ [e]) c'"
proof -
  have "\<exists>k hash. handle_id (handles c') a = Some (k, hash) \<and> Shard hash = i" if "a \<in> set L' \<union> set (U @ [e])" for a
  proof (cases "a = e")
    case False
    then have "a \<notin> X" "a \<in> set L \<union> set U" using that X L' by auto
    then show ?thesis using one_shardD(4) [OF o] keeps_id [OF k] by simp
  qed (use e in blast)
  moreover have "a \<in> set (U @ [e])" if "0 < (R(e := 1)) a" for a using that one_shardD(3) [OF o, of a] by (cases "a = e") simp_all
  ultimately show ?thesis using c one_shardD(2) [OF o] keepsD(1) [OF k] unfolding one_shard_def by simp
qed

lemma lookup_insert_room:
  assumes p: "cache_pool cap M R L U s fl" and x: "x = Shard (HashKeyType k)" and e: "\<forall>i < kNumShards. handles (shards s ! i) e = None"
    and new: "\<forall>b \<in> set (L x) \<union> set (U x). handle_id (handles (shards s ! x)) b \<noteq> Some (the_key k, HashKeyType k)"
    and room: "length (L x) + length (U x) < (unat cap + x) div kNumShards"
  obtains s' m fl' where "fl = m # fl'" "sharded_LookupInsert e k None 1 None s fl = Some (s', fl', e)"
    "cache_pool cap M (R(x := (R x)(e := 1))) L (U(x := U x @ [e])) s' fl'" "preserved {(x, e)} s s'"
    "handle_id (handles (shards s' ! x)) e = Some (the_key k, HashKeyType k)" "buf s' (x, e) = Some m"
proof -
  note s = cache_poolD(1) [OF p]
  have x': "x < kNumShards" by (simp add: x Shard_less)
  note o = shards_okD(4) [OF s x']
  note c = one_shardD(1) [OF o]
  obtain m fl' where fl: "fl = m # fl'" using free_buffer [OF p x' room] by (cases fl) auto
  have cap: "length (L x) + length (U x) < unat (c_capacity (shards s ! x))" using room one_shardD(2) [OF o] by simp
  have e': "handles (shards s ! x) e = None" using e x' by blast
  obtain c' where c': "LookupInsert e (the_key k) (HashKeyType k) None 1 None (shards s ! x) fl = Some (c', snd (pop_front fl), e)"
    "cache_ok ((R x)(e := 1)) (L x) (U x @ [e]) c'" "keeps {e} (shards s ! x) c'"
    "map_option core (handles c' e) = Some (fst (pop_front fl), the_key k, HashKeyType k, 1, None)"
    by (rule LookupInsert_room [OF c e' new cap])
  have out: "e \<notin> set (L x) \<union> set (U x)" using lists_alloc [OF shard_okD(1) [OF cache_okD(1) [OF c]], of e] e' by auto
  note id = core_id [OF c'(4)]
  have o': "one_shard cap x ((R x)(e := 1)) (L x) (U x @ [e]) c'"
    by (rule one_shard_new [OF o c'(2,3) _ _ id]) (use out x in auto)
  let ?s = "s\<lparr>shards := (shards s)[x := c']\<rparr>"
  have "shards_ok cap (R(x := (R x)(e := 1))) (L(x := L x)) (U(x := U x @ [e])) ?s"
    by (rule shards_change [OF s x' o', of "{e}"]) (use keeps_dom [OF c'(3)] e in auto)
  moreover have pr: "preserved {(x, e)} s ?s" using preserved_shard [OF shards_okD(1) [OF s] c'(3)] by simp
  have E: "entries L (U(x := U x @ [e])) = insert (x, e) (entries L U)" "(x, e) \<notin> entries L U" using x' out by (auto simp: entries_def split: if_splits)
  have b: "buf ?s (x, e) = Some m" using c'(4) fl shards_okD(1) [OF s] x' by (auto simp: buf_def core_def)
  have "owned M (insert (x, e) (entries L U)) (buf ?s) fl'"
  proof (rule owned_take [OF cache_poolD(2) [OF p, unfolded fl] E(2)])
    show "buf ?s (x, e) = Some m" by (rule b)
    fix q assume "q \<in> entries L U"
    then show "buf ?s q = buf s q" using preserved_buf [OF pr, of "fst q" "snd q"] E(2) by (cases q) (auto simp: entries_def)
  qed
  ultimately have "cache_pool cap M (R(x := (R x)(e := 1))) L (U(x := U x @ [e])) ?s fl'" using cache_poolD(3) [OF p] E(1) by (simp add: cache_pool_def)
  moreover have "sharded_LookupInsert e k None 1 None s fl = Some (?s, fl', e)"
    using c'(1) fl x x' shards_okD(1-3) [OF s] by (simp add: sharded_LookupInsert_def assertion_def)
  moreover have "handle_id (handles (shards ?s ! x)) e = Some (the_key k, HashKeyType k)" using id shards_okD(1) [OF s] x' by simp
  ultimately show thesis using that fl pr b by blast
qed

lemma lookup_insert_evict:
  assumes p: "cache_pool cap M R L U s fl" and x: "x = Shard (HashKeyType k)" and e: "\<forall>i < kNumShards. handles (shards s ! i) e = None"
    and new: "\<forall>b \<in> set (L x) \<union> set (U x). handle_id (handles (shards s ! x)) b \<noteq> Some (the_key k, HashKeyType k)"
    and full: "\<not> length (L x) + length (U x) < (unat cap + x) div kNumShards" and L: "L x = a # L'"
  obtains s' where "sharded_LookupInsert e k None 1 None s fl = Some (s', fl, e)"
    "cache_pool cap M (R(x := (R x)(e := 1))) (L(x := L')) (U(x := U x @ [e])) s' fl" "preserved {(x, a), (x, e)} s s'"
    "handle_id (handles (shards s' ! x)) e = Some (the_key k, HashKeyType k)" "buf s' (x, e) = buf s (x, a)" "handles (shards s' ! x) a = None"
proof -
  note s = cache_poolD(1) [OF p]
  have x': "x < kNumShards" by (simp add: x Shard_less)
  note o = shards_okD(4) [OF s x', unfolded L]
  note c = one_shardD(1) [OF o]
  note ok = shard_okD(1) [OF cache_okD(1) [OF c]]
  have cap: "length (a # L') + length (U x) = unat (c_capacity (shards s ! x))" using full L one_shardD(2) [OF o] cache_okD(3) [OF c] by simp
  have e': "handles (shards s ! x) e = None" using e x' by blast
  have "a \<in> set (a # L') \<union> set (U x)" by simp
  then obtain g where g: "handles (shards s ! x) a = Some g" by (rule lists_handle [OF ok])
  obtain w k' hash' ch' d' where core: "core g = (w, k', hash', ch', d')" by (cases "core g") auto
  then have a: "map_option core (handles (shards s ! x) a) = Some (w, k', hash', ch', d')" using g by simp
  obtain c' where c': "LookupInsert e (the_key k) (HashKeyType k) None 1 None (shards s ! x) fl = Some (c', fl, e)"
    "cache_ok ((R x)(e := 1)) L' (U x @ [e]) c'" "keeps {a, e} (shards s ! x) c'"
    "map_option core (handles c' e) = Some (w, the_key k, HashKeyType k, 1, None)" "handles c' a = None"
    by (rule LookupInsert_evict [OF c e' new [unfolded L] cap a])
  have out: "e \<notin> set (L x) \<union> set (U x)" "a \<notin> set L' \<union> set (U x)" using lists_alloc [OF ok, of e] e' L lists_okD(3) [OF ok] by auto
  note id = core_id [OF c'(4)]
  have o': "one_shard cap x ((R x)(e := 1)) L' (U x @ [e]) c'"
    by (rule one_shard_new [OF o c'(2,3) _ _ id]) (use out x L in auto)
  let ?s = "s\<lparr>shards := (shards s)[x := c']\<rparr>"
  have dom: "dom (handles c') \<subseteq> dom (handles (shards s ! x)) \<union> {e}" using keeps_dom [OF c'(3)] g by auto
  have "shards_ok cap (R(x := (R x)(e := 1))) (L(x := L')) (U(x := U x @ [e])) ?s"
    by (rule shards_change [OF s x' o' dom]) (use e in auto)
  moreover have pr: "preserved {(x, a), (x, e)} s ?s" using preserved_shard [OF shards_okD(1) [OF s] c'(3)] by simp
  have E: "entries (L(x := L')) (U(x := U x @ [e])) = insert (x, e) (entries L U - {(x, a)})" "(x, a) \<in> entries L U" "(x, e) \<notin> entries L U"
    using x' out L by (auto simp: entries_def split: if_splits)
  have b: "buf ?s (x, e) = buf s (x, a)" using c'(4) g core shards_okD(1) [OF s] x' by (auto simp: buf_def core_def)
  have "owned M (insert (x, e) (entries L U - {(x, a)})) (buf ?s) fl"
  proof (rule owned_move [OF cache_poolD(2) [OF p] E(2,3)])
    show "buf ?s (x, e) = buf s (x, a)" by (rule b)
    fix q assume "q \<in> entries L U - {(x, a)}"
    then show "buf ?s q = buf s q" using preserved_buf [OF pr, of "fst q" "snd q"] E(3) by (cases q) (auto simp: entries_def)
  qed
  ultimately have "cache_pool cap M (R(x := (R x)(e := 1))) (L(x := L')) (U(x := U x @ [e])) ?s fl" using cache_poolD(3) [OF p] E(1) by (simp add: cache_pool_def)
  moreover have "sharded_LookupInsert e k None 1 None s fl = Some (?s, fl, e)"
    using c'(1) x x' shards_okD(1-3) [OF s] by (simp add: sharded_LookupInsert_def assertion_def)
  moreover have "handle_id (handles (shards ?s ! x)) e = Some (the_key k, HashKeyType k)" "handles (shards ?s ! x) a = None"
    using id c'(5) shards_okD(1) [OF s] x' by simp_all
  ultimately show thesis using that pr b by blast
qed

end
