(* ===== verification/PoolRun.thy ===== *)
theory PoolRun
  imports PoolLaws
begin

text \<open>
  The pages of the memory pool: the buffers that hold them, the entry of a key, the start of the pool, and
  the handlers running side by side on the threads of the server.
\<close>

section \<open>The page arrays\<close>

definition slots_ok :: "MemPoolManager \<Rightarrow> bool" where
  "slots_ok p \<longleftrightarrow> inj_on (\<lambda>m. page_addr (the (metas p m))) (dom (metas p)) \<and>
     (\<forall>m meta. metas p m = Some meta \<longrightarrow> page_id_addr meta = page_addr meta \<and> fst (page_addr meta) < length (page_arrays p) \<and>
        snd (page_addr meta) < length (pa_buf (page_arrays p ! fst (page_addr meta))) \<and>
        snd (page_addr meta) < length (pida_buf (page_arrays p ! fst (page_addr meta))))"

text \<open>The page and the id in a buffer.\<close>

definition page_at :: "MemPoolManager \<Rightarrow> addr \<Rightarrow> bytes option" where
  "page_at p m = do { meta \<leftarrow> metas p m; a \<leftarrow> arr_get (page_arrays p) (int (fst (page_addr meta))); arr_get (pa_buf a) (int (snd (page_addr meta))) }"

definition id_at :: "MemPoolManager \<Rightarrow> addr \<Rightarrow> key_image option" where
  "id_at p m = do { meta \<leftarrow> metas p m; a \<leftarrow> arr_get (page_arrays p) (int (fst (page_id_addr meta))); arr_get (pida_buf a) (int (snd (page_id_addr meta))) }"

lemma slots_okD:
  assumes "slots_ok p" "metas p m = Some meta"
  shows "page_id_addr meta = page_addr meta" "fst (page_addr meta) < length (page_arrays p)"
    "snd (page_addr meta) < length (pa_buf (page_arrays p ! fst (page_addr meta)))"
    "snd (page_addr meta) < length (pida_buf (page_arrays p ! fst (page_addr meta)))"
  using assms unfolding slots_ok_def by blast+

lemma at_slot:
  assumes "slots_ok p" "metas p m = Some meta"
  shows "page_at p m = Some (pa_buf (page_arrays p ! fst (page_addr meta)) ! snd (page_addr meta))"
    "id_at p m = Some (pida_buf (page_arrays p ! fst (page_addr meta)) ! snd (page_addr meta))"
  using slots_okD [OF assms] assms(2) by (simp_all add: page_at_def id_at_def)

text \<open>What the copies of a handler change: one page and one id.\<close>

lemma copy_slot_ok:
  assumes ok: "slots_ok p" and m: "metas p m = Some meta"
  obtains p' where "do { p \<leftarrow> copy_page (page_addr meta) data p; copy_id (page_id_addr meta) k p } = Some p'" "slots_ok p'"
    "lru p' = lru p" "freelist p' = freelist p" "metas p' = metas p" "page_at p' m = Some data" "id_at p' m = Some k"
    "\<forall>m'. m' \<noteq> m \<longrightarrow> page_at p' m' = page_at p m' \<and> id_at p' m' = id_at p m'"
proof -
  note D = slots_okD [OF ok m]
  define n i where ni: "n = fst (page_addr meta)" "i = snd (page_addr meta)"
  let ?a = "page_arrays p ! n"
  define a' where "a' = ?a\<lparr>pa_buf := (pa_buf ?a)[i := data], pida_buf := (pida_buf ?a)[i := k]\<rparr>"
  define p' where "p' = p\<lparr>page_arrays := (page_arrays p)[n := a']\<rparr>"
  have c: "do { p \<leftarrow> copy_page (page_addr meta) data p; copy_id (page_id_addr meta) k p } = Some p'"
    using D by (simp add: copy_page_def copy_id_def p'_def a'_def ni)
  have len: "length (pa_buf (page_arrays p' ! j)) = length (pa_buf (page_arrays p ! j)) \<and> length (pida_buf (page_arrays p' ! j)) = length (pida_buf (page_arrays p ! j))"
    if "j < length (page_arrays p)" for j using that by (cases "j = n") (simp_all add: p'_def a'_def)
  have ok': "slots_ok p'" using ok len unfolding slots_ok_def by (simp add: p'_def)
  have m': "metas p' m = Some meta" using m by (simp add: p'_def)
  have "page_at p' m = Some data" "id_at p' m = Some k"
    using at_slot [OF ok' m'] D by (simp_all add: p'_def a'_def ni)
  moreover have "page_at p' x = page_at p x \<and> id_at p' x = id_at p x" if "x \<noteq> m" for x
  proof (cases "metas p x")
    case None
    then show ?thesis by (simp add: page_at_def id_at_def p'_def)
  next
    case (Some mx)
    have "page_addr mx \<noteq> page_addr meta"
      using ok m Some that unfolding slots_ok_def inj_on_def by (metis domI option.sel)
    then have "fst (page_addr mx) \<noteq> n \<or> snd (page_addr mx) \<noteq> i" by (auto simp: ni prod_eq_iff)
    moreover have x: "metas p' x = Some mx" using Some by (simp add: p'_def)
    ultimately show ?thesis using at_slot [OF ok Some] at_slot [OF ok' x] slots_okD [OF ok Some]
      by (cases "fst (page_addr mx) = n") (auto simp: p'_def a'_def)
  qed
  ultimately show thesis using that c ok' by (simp add: p'_def)
qed

section \<open>The page of a key\<close>

definition pool_entry :: "MemPoolManager \<Rightarrow> key_image \<Rightarrow> ptr" where
  "pool_entry p k = Option.bind (table_Lookup (shards (lru p) ! Shard (HashKeyType k)) (the_key k) (HashKeyType k)) (\<lambda>e. e)"

text \<open>The buffer of a key, the page in it, and the id that goes with it.\<close>

definition pool_slot :: "MemPoolManager \<Rightarrow> key_image \<Rightarrow> ptr" where
  "pool_slot p k = do { a \<leftarrow> pool_entry p k; v \<leftarrow> Value (lru p) a; v }"

definition pool_page :: "MemPoolManager \<Rightarrow> key_image \<Rightarrow> bytes option" where
  "pool_page p k = do { m \<leftarrow> pool_slot p k; page_at p m }"

definition pool_id :: "MemPoolManager \<Rightarrow> key_image \<Rightarrow> key_image option" where
  "pool_id p k = do { m \<leftarrow> pool_slot p k; id_at p m }"

definition pool_ok :: "u64 \<Rightarrow> (nat \<Rightarrow> addr \<Rightarrow> nat) \<Rightarrow> (nat \<Rightarrow> addr list) \<Rightarrow> (nat \<Rightarrow> addr list) \<Rightarrow> MemPoolManager \<Rightarrow> bool" where
  "pool_ok cap R L U p \<longleftrightarrow> cache_pool cap (dom (metas p)) R L U (lru p) (freelist p) \<and> slots_ok p"

lemma pool_okD:
  assumes "pool_ok cap R L U p"
  shows "cache_pool cap (dom (metas p)) R L U (lru p) (freelist p)" "slots_ok p" "shards_ok cap R L U (lru p)"
    "x < kNumShards \<Longrightarrow> one_shard cap x (R x) (L x) (U x) (shards (lru p) ! x)"
proof -
  show c: "cache_pool cap (dom (metas p)) R L U (lru p) (freelist p)" and "slots_ok p" using assms by (simp_all add: pool_ok_def)
  show s: "shards_ok cap R L U (lru p)" by (rule cache_poolD(1) [OF c])
  show "one_shard cap x (R x) (L x) (U x) (shards (lru p) ! x)" if "x < kNumShards" by (rule shards_okD(4) [OF s that])
qed

text \<open>The entry of a key, in terms of the lists.\<close>

definition entry_of :: "(nat \<Rightarrow> addr list) \<Rightarrow> (nat \<Rightarrow> addr list) \<Rightarrow> ShardedLRUCache \<Rightarrow> key_image \<Rightarrow> addr \<Rightarrow> bool" where
  "entry_of L U s k a \<longleftrightarrow> (let x = Shard (HashKeyType k) in
     a \<in> set (L x) \<union> set (U x) \<and> handle_id (handles (shards s ! x)) a = Some (the_key k, HashKeyType k))"

lemma pool_entry_iff:
  assumes p: "pool_ok cap R L U p"
  shows "pool_entry p k = Some a \<longleftrightarrow> entry_of L U (lru p) k a"
proof -
  let ?x = "Shard (HashKeyType k)"
  have s: "shard_ok (R ?x) (L ?x) (U ?x) (shards (lru p) ! ?x)" by (rule cache_okD(1) [OF one_shardD(1) [OF pool_okD(4) [OF p Shard_less]]])
  obtain r where r: "table_Lookup (shards (lru p) ! ?x) (the_key k) (HashKeyType k) = Some r"
    "case r of None \<Rightarrow> \<forall>a \<in> set (L ?x) \<union> set (U ?x). handle_id (handles (shards (lru p) ! ?x)) a \<noteq> Some (the_key k, HashKeyType k)
     | Some a \<Rightarrow> a \<in> set (L ?x) \<union> set (U ?x) \<and> handle_id (handles (shards (lru p) ! ?x)) a = Some (the_key k, HashKeyType k)" by (rule shard_table [OF s])
  show ?thesis
  proof (cases r)
    case None
    then show ?thesis using r by (auto simp: pool_entry_def entry_of_def Let_def)
  next
    case (Some b)
    then have "a = b" if "entry_of L U (lru p) k a" using that r(2) shard_key_unique [OF s, of a b] by (simp add: entry_of_def Let_def)
    then show ?thesis using r Some by (auto simp: pool_entry_def entry_of_def Let_def)
  qed
qed

lemma pool_entry_None: "pool_ok cap R L U p \<Longrightarrow> pool_entry p k = None \<longleftrightarrow> (\<forall>a. \<not> entry_of L U (lru p) k a)"
  using pool_entry_iff [of cap R L U p k] by (cases "pool_entry p k") auto

lemma entry_buffer:
  assumes p: "pool_ok cap R L U p" and a: "entry_of L U (lru p) k a"
  obtains m meta where "buf (lru p) (Shard (HashKeyType k), a) = Some m" "metas p m = Some meta" "Value (lru p) a = Some (Some m)"
    "pool_slot p k = Some m" "m \<notin> set (freelist p)"
proof -
  let ?x = "Shard (HashKeyType k)"
  have x: "?x < kNumShards" by (rule Shard_less)
  have E: "(?x, a) \<in> entries L U" using a x by (simp add: entries_def entry_of_def Let_def)
  obtain m where m: "m \<in> dom (metas p)" "m \<notin> set (freelist p)" "buf (lru p) (?x, a) = Some m"
    using ownedD(3) [OF cache_poolD(2) [OF pool_okD(1) [OF p]] E] by blast
  then obtain h where h: "handles (shards (lru p) ! ?x) a = Some h" "h_value h = Some m" by (auto simp: buf_def split: bind_splits)
  have v: "Value (lru p) a = Some (Some m)" using shards_deref [OF pool_okD(3) [OF p] x h(1)] h(2) by (simp add: Value_def)
  have "pool_entry p k = Some a" using pool_entry_iff [OF p] a by blast
  then have "pool_slot p k = Some m" using v by (simp add: pool_slot_def)
  then show thesis using that m v by blast
qed

text \<open>Keys with the same entry have the same identity.\<close>

abbreviation key_id :: "key_image \<Rightarrow> KeyType \<times> u32" where
  "key_id k \<equiv> (the_key k, HashKeyType k)"

lemma slot_kept:
  assumes p: "pool_ok cap R L U p" and p': "pool_ok cap R' L' U' p'" and pr: "preserved X (lru p) (lru p')"
    and mem: "entry_of L U (lru p) k a" "(Shard (HashKeyType k), a) \<notin> X" "(Shard (HashKeyType k), a) \<in> entries L' U'"
  shows "pool_slot p' k = pool_slot p k"
proof -
  let ?x = "Shard (HashKeyType k)"
  have x: "?x < kNumShards" by (rule Shard_less)
  have "handle_id (handles (shards (lru p') ! ?x)) a = handle_id (handles (shards (lru p) ! ?x)) a"
    using arg_cong [OF preservedD [OF pr x mem(2)], of "map_option (\<lambda>(v, k, h, ch, d). (k, h))"]
    by (simp add: handle_id_def option.map_comp comp_def core_def [abs_def])
  then have a': "entry_of L' U' (lru p') k a" using mem(1,3) by (simp add: entry_of_def Let_def entries_def)
  obtain m where m: "buf (lru p) (?x, a) = Some m" "pool_slot p k = Some m" by (rule entry_buffer [OF p mem(1)]) blast
  obtain m' where m': "buf (lru p') (?x, a) = Some m'" "pool_slot p' k = Some m'" by (rule entry_buffer [OF p' a']) blast
  have "m' = m" using m(1) m'(1) preserved_buf [OF pr x mem(2)] by simp
  then show ?thesis using m(2) m'(2) by simp
qed

section \<open>The start of the pool\<close>

lemma foldm_build: "(\<And>i. i \<in> set is \<Longrightarrow> f i = Some (g i)) \<Longrightarrow>
  foldm (\<lambda>i xs. do { x \<leftarrow> f i; Some (xs @ [x]) }) is xs = Some (xs @ map g is)"
  by (induction "is" arbitrary: xs) simp_all

lemma foldm_each:
  "k \<le> length xs \<Longrightarrow> foldm (\<lambda>i xs. arr_upd xs (int i) (F i)) [0..<k] xs = Some (map (\<lambda>i. if i < k then F i (xs ! i) else xs ! i) [0..<length xs])"
proof (induction k)
  case 0
  then show ?case by (simp add: map_nth)
next
  case (Suc k)
  then have "foldm (\<lambda>i xs. arr_upd xs (int i) (F i)) [0..<k] xs = Some (map (\<lambda>i. if i < k then F i (xs ! i) else xs ! i) [0..<length xs])" by simp
  then show ?case using Suc.prems by (auto simp: foldm_append intro!: nth_equalityI simp: nth_list_update)
qed

definition sentinels_ok :: "(nat \<Rightarrow> addr \<times> addr) \<Rightarrow> bool" where
  "sentinels_ok sentinels \<longleftrightarrow> (\<forall>i < kNumShards. fst (sentinels i) \<noteq> snd (sentinels i)) \<and>
     (\<forall>i < kNumShards. \<forall>j < kNumShards. i \<noteq> j \<longrightarrow> {fst (sentinels i), snd (sentinels i)} \<inter> {fst (sentinels j), snd (sentinels j)} = {})"

lemma NewLRUCache_ok:
  assumes n: "sentinels_ok sentinels" and cap: "1000 \<le> cap" "cap < 2 ^ 32"
  obtains s where "NewLRUCache sentinels cap = Some s" "shards_ok cap (\<lambda>_ _. 0) (\<lambda>_. []) (\<lambda>_. []) s"
    "\<forall>i < kNumShards. dom (handles (shards s ! i)) = {fst (sentinels i), snd (sentinels i)}"
proof -
  define scap where "scap i = (cap + of_nat i) div (of_nat kNumShards :: u64)" for i
  have c: "1000 \<le> unat cap" "unat cap < 2 ^ 32" using cap by (simp_all add: word_le_nat_alt word_less_nat_alt)
  have u: "unat (scap i) = (unat cap + i) div kNumShards" if "i < kNumShards" for i
    unfolding scap_def by (rule shard_capacity [OF c(2) that])
  have small: "0 < scap i" "scap i < 2 ^ 31" if "i < kNumShards" for i
    using u [OF that] c that by (simp_all add: word_less_nat_alt div_greater_zero_iff)
  have "\<exists>c. LRUCache_new (fst (sentinels i)) (snd (sentinels i)) = Some c \<and> cache_ok (\<lambda>_. 0) [] [] (SetCapacity (scap i) c) \<and>
      dom (handles c) = {fst (sentinels i), snd (sentinels i)}" if "i < kNumShards" for i
  proof -
    have ne: "fst (sentinels i) \<noteq> snd (sentinels i)" using n that by (simp add: sentinels_ok_def)
    show ?thesis by (rule LRUCache_new_ok [OF ne small [OF that]]) blast
  qed
  then obtain g where g: "\<forall>i < kNumShards. LRUCache_new (fst (sentinels i)) (snd (sentinels i)) = Some (g i) \<and>
      cache_ok (\<lambda>_. 0) [] [] (SetCapacity (scap i) (g i)) \<and> dom (handles (g i)) = {fst (sentinels i), snd (sentinels i)}" by metis
  define cs where "cs = map (\<lambda>i. SetCapacity (scap i) (g i)) [0..<kNumShards]"
  define s where "s = \<lparr>shards = cs, last_id = 0, s_capacity = cap\<rparr>"
  have "foldm (\<lambda>s cs. do { c \<leftarrow> LRUCache_new (fst (sentinels s)) (snd (sentinels s)); Some (cs @ [c]) }) [0..<kNumShards] [] = Some ([] @ map g [0..<kNumShards])"
    by (rule foldm_build) (use g in simp)
  moreover have "foldm (\<lambda>i cs. arr_upd cs (int i) (SetCapacity (scap i))) [0..<kNumShards] (map g [0..<kNumShards]) = Some cs"
    by (subst foldm_each) (simp_all add: cs_def del: upt_Suc cong: map_cong)
  ultimately have "NewLRUCache sentinels cap = Some s" by (simp add: NewLRUCache_def s_def scap_def del: upt_Suc)
  moreover have nth: "shards s ! i = SetCapacity (scap i) (g i)" if "i < kNumShards" for i using that by (simp add: s_def cs_def del: upt_Suc)
  have dom: "dom (handles (shards s ! i)) = {fst (sentinels i), snd (sentinels i)}" if "i < kNumShards" for i
    using g that nth [OF that] by (simp add: SetCapacity_def)
  have "one_shard cap i (\<lambda>_. 0) [] [] (shards s ! i)" if "i < kNumShards" for i
    using g that nth [OF that] u [OF that] by (simp add: one_shard_def SetCapacity_def)
  then have "shards_ok cap (\<lambda>_ _. 0) (\<lambda>_. []) (\<lambda>_. []) s"
    using cap(1) dom n unfolding shards_ok_def sentinels_ok_def by (simp add: s_def cs_def del: upt_Suc)
  ultimately show thesis using that dom by blast
qed

abbreviation new_meta :: "nat \<Rightarrow> addr list \<Rightarrow> nat \<Rightarrow> MemPoolManager \<Rightarrow> MemPoolManager option" where
  "new_meta n ms i p \<equiv> do { m \<leftarrow> arr_get ms (int i);
     Some (p\<lparr>metas := (metas p)(m \<mapsto> \<lparr>page_addr = (n, i), page_id_addr = (n, i)\<rparr>), freelist := push_back m (freelist p)\<rparr>) }"

lemma new_metas:
  assumes "k \<le> length ms" "distinct ms"
  shows "\<exists>p'. foldm (new_meta n ms) [0..<k] p = Some p' \<and> lru p' = lru p \<and> page_arrays p' = page_arrays p \<and> freelist p' = freelist p @ take k ms \<and>
    (\<forall>i < k. metas p' (ms ! i) = Some \<lparr>page_addr = (n, i), page_id_addr = (n, i)\<rparr>) \<and> dom (metas p') = dom (metas p) \<union> set (take k ms)"
  using assms
proof (induction k)
  case (Suc k)
  then have le: "k \<le> length ms" by simp
  obtain p' where p': "foldm (new_meta n ms) [0..<k] p = Some p'" "lru p' = lru p" "page_arrays p' = page_arrays p"
    "freelist p' = freelist p @ take k ms" "\<forall>i < k. metas p' (ms ! i) = Some \<lparr>page_addr = (n, i), page_id_addr = (n, i)\<rparr>"
    "dom (metas p') = dom (metas p) \<union> set (take k ms)" using Suc.IH [OF le Suc.prems(2)] by blast
  have k: "k < length ms" using Suc.prems(1) by simp
  let ?p = "p'\<lparr>metas := (metas p')(ms ! k \<mapsto> \<lparr>page_addr = (n, k), page_id_addr = (n, k)\<rparr>), freelist := push_back (ms ! k) (freelist p')\<rparr>"
  have "foldm (new_meta n ms) [0..<Suc k] p = Some ?p" using p'(1) k by (simp add: foldm_append)
  moreover have "metas ?p (ms ! i) = Some \<lparr>page_addr = (n, i), page_id_addr = (n, i)\<rparr>" if "i < Suc k" for i
    using that p'(5) k Suc.prems(2) by (cases "i = k") (auto simp: nth_eq_iff_index_eq)
  moreover have "dom (metas ?p) = dom (metas p) \<union> set (take (Suc k) ms)" using p'(6) k by (simp add: take_Suc_conv_app_nth)
  moreover have "freelist ?p = freelist p @ take (Suc k) ms" using p'(4) k by (simp add: push_back_def take_Suc_conv_app_nth)
  moreover have "lru ?p = lru p" "page_arrays ?p = page_arrays p" using p'(2,3) by simp_all
  ultimately show ?case by blast
qed simp

definition fresh_manager :: "ShardedLRUCache \<Rightarrow> MemPoolManager" where
  "fresh_manager s = \<lparr>lru = s, page_arrays = [], freelist = [], metas = Map.empty\<rparr>"

lemma allocate_ok:
  assumes n: "sentinels_ok sentinels" and cap: "1000 \<le> cap" "cap < 2 ^ 32" and ms: "distinct ms" "length ms = unat cap"
    and arr: "length (pa_buf arr) = unat cap" "length (pida_buf arr) = unat cap"
  obtains p where "allocate_page_array sentinels ms arr cap (fresh_manager s) = Some p"
    "pool_ok cap (\<lambda>_ _. 0) (\<lambda>_. []) (\<lambda>_. []) p" "freelist p = ms" "page_arrays p = [arr\<lparr>pa_size := cap\<rparr>]"
    "\<forall>i < unat cap. metas p (ms ! i) = Some \<lparr>page_addr = (0, i), page_id_addr = (0, i)\<rparr>"
proof -
  obtain t where t: "NewLRUCache sentinels cap = Some t" "shards_ok cap (\<lambda>_ _. 0) (\<lambda>_. []) (\<lambda>_. []) t" by (rule NewLRUCache_ok [OF n cap]) blast
  let ?p = "(fresh_manager s)\<lparr>lru := t, page_arrays := page_arrays (fresh_manager s) @ [arr\<lparr>pa_size := cap\<rparr>]\<rparr>"
  obtain p where p: "foldm (new_meta 0 ms) [0..<unat cap] ?p = Some p" "lru p = lru ?p" "page_arrays p = page_arrays ?p"
    "freelist p = freelist ?p @ take (unat cap) ms" "\<forall>i < unat cap. metas p (ms ! i) = Some \<lparr>page_addr = (0, i), page_id_addr = (0, i)\<rparr>"
    "dom (metas p) = dom (metas ?p) \<union> set (take (unat cap) ms)"
    using new_metas [OF eq_refl [OF ms(2) [symmetric]] ms(1), of 0 ?p] by blast
  have a: "allocate_page_array sentinels ms arr cap (fresh_manager s) = Some p"
    using t(1) p(1) by (simp add: allocate_page_array_def fresh_manager_def)
  have M: "dom (metas p) = set ms" "freelist p = ms" "page_arrays p = [arr\<lparr>pa_size := cap\<rparr>]" using p(3,4,6) ms(2) by (simp_all add: fresh_manager_def)
  have slot: "\<exists>i < unat cap. m = ms ! i \<and> metas p m = Some \<lparr>page_addr = (0, i), page_id_addr = (0, i)\<rparr>" if m: "m \<in> set ms" for m
  proof -
    obtain i where "i < unat cap" "m = ms ! i" using m ms(2) by (auto simp: in_set_conv_nth)
    then show ?thesis using p(5) by blast
  qed
  have slots: "slots_ok p"
    unfolding slots_ok_def
  proof (intro conjI allI impI)
    show "inj_on (\<lambda>m. page_addr (the (metas p m))) (dom (metas p))" unfolding M(1)
    proof (rule inj_onI)
      fix x y assume "x \<in> set ms" "y \<in> set ms" "page_addr (the (metas p x)) = page_addr (the (metas p y))"
      then show "x = y" using slot [of x] slot [of y] by auto
    qed
  next
    fix m meta assume meta: "metas p m = Some meta"
    then have "m \<in> set ms" using M(1) by blast
    then obtain i where "i < unat cap" "metas p m = Some \<lparr>page_addr = (0, i), page_id_addr = (0, i)\<rparr>" using slot by blast
    then show "page_id_addr meta = page_addr meta" "fst (page_addr meta) < length (page_arrays p)"
      "snd (page_addr meta) < length (pa_buf (page_arrays p ! fst (page_addr meta)))"
      "snd (page_addr meta) < length (pida_buf (page_arrays p ! fst (page_addr meta)))" using meta M(3) arr by auto
  qed
  have "owned (dom (metas p)) (entries (\<lambda>_. []) (\<lambda>_. [])) (buf (lru p)) (freelist p)" "card (dom (metas p)) = unat cap"
    using M ms by (simp_all add: owned_def entries_def distinct_card)
  then have "pool_ok cap (\<lambda>_ _. 0) (\<lambda>_. []) (\<lambda>_. []) p" using t(2) p(2) slots by (simp add: pool_ok_def cache_pool_def)
  then show thesis using that a M p(5) by blast
qed

end
