(* ===== verification/PoolSteps.thy ===== *)
theory PoolSteps
  imports PoolRun
begin

text \<open>
  What the steps of the handlers do to the pages of the pool, and the handlers running side by side.
\<close>

section \<open>Pages that stay\<close>

lemma preserved_id:
  assumes "preserved X s s'" "i < kNumShards" "(i, a) \<notin> X"
  shows "handle_id (handles (shards s' ! i)) a = handle_id (handles (shards s ! i)) a"
  using arg_cong [OF preservedD [OF assms], of "map_option (\<lambda>(v, k, h, ch, d). (k, h))"]
  by (simp add: handle_id_def option.map_comp comp_def core_def [abs_def])

lemma entry_of_entries: "entry_of L U s k a \<longleftrightarrow> (Shard (HashKeyType k), a) \<in> entries L U \<and>
  handle_id (handles (shards s ! Shard (HashKeyType k))) a = Some (key_id k)"
  using Shard_less [of "HashKeyType k"] by (simp add: entry_of_def entries_def Let_def)

lemma slot_eq:
  assumes p: "pool_ok cap R L U p" and p': "pool_ok cap R' L' U' p'" and pr: "preserved X (lru p) (lru p')"
    and same: "\<forall>a. entry_of L U (lru p) k a \<or> entry_of L' U' (lru p') k a \<longrightarrow>
      (Shard (HashKeyType k), a) \<notin> X \<and> ((Shard (HashKeyType k), a) \<in> entries L U \<longleftrightarrow> (Shard (HashKeyType k), a) \<in> entries L' U')"
  shows "pool_slot p' k = pool_slot p k"
proof (cases "pool_entry p k")
  case (Some a)
  then have a: "entry_of L U (lru p) k a" using pool_entry_iff [OF p] by simp
  show ?thesis by (rule slot_kept [OF p p' pr a]) (use same a in \<open>auto simp: entry_of_entries\<close>)
next
  case None
  have "\<not> entry_of L' U' (lru p') k a" for a
  proof
    assume a: "entry_of L' U' (lru p') k a"
    then have "entry_of L U (lru p) k a"
      using same preserved_id [OF pr Shard_less, of "HashKeyType k" a] unfolding entry_of_entries by simp
    then show False using None pool_entry_None [OF p, of k] by blast
  qed
  then have "pool_entry p' k = None" using pool_entry_None [OF p'] by simp
  then show ?thesis using None by (simp add: pool_slot_def)
qed

lemma slot_same:
  assumes "pool_ok cap R L U p" "pool_ok cap R' L' U' p'" "preserved {} (lru p) (lru p')"
    and E: "entries L' U' = entries L U"
  shows "pool_slot p' k = pool_slot p k"
  by (rule slot_eq [OF assms(1-3)]) (simp add: E)

lemma entries_moved: "x < kNumShards \<Longrightarrow> set L' \<union> set U' = set (L x) \<union> set (U x) \<Longrightarrow> entries (L(x := L')) (U(x := U')) = entries L U"
  by (auto simp: entries_def split: if_splits)

lemma entries_shard:
  assumes s: "shards_ok cap R L U s" and a: "(i, a) \<in> entries L U" "(j, a) \<in> entries L U"
  shows "i = j"
proof (rule ccontr)
  assume ne: "i \<noteq> j"
  have dom: "a \<in> dom (handles (shards s ! n))" if "(n, a) \<in> entries L U" for n
  proof -
    have n: "n < kNumShards" "a \<in> set (L n) \<union> set (U n)" using that by (auto simp: entries_def)
    then have "handle_id (handles (shards s ! n)) a \<noteq> None" using one_shardD(4) [OF shards_okD(4) [OF s n(1)] n(2)] by auto
    then show ?thesis by (auto simp: handle_id_def)
  qed
  have "i < kNumShards" "j < kNumShards" using a by (auto simp: entries_def)
  then show False using shards_okD(5) [OF s _ _ ne] dom [OF a(1)] dom [OF a(2)] by blast
qed

section \<open>The steps of a handler\<close>

lemma pool_okI: "cache_pool cap (dom (metas p)) R L U s fl \<Longrightarrow> slots_ok p \<Longrightarrow> pool_ok cap R L U (p\<lparr>lru := s, freelist := fl\<rparr>)"
  by (simp add: pool_ok_def slots_ok_def)

lemma hit_sets:
  assumes "pool_ok cap R L U p" "x < kNumShards" "a \<in> set (L x) \<union> set (U x)"
  shows "set (remove1 a (L x)) \<union> set (used a (L x) (U x)) = set (L x) \<union> set (U x)"
  using lists_okD(3) [OF shard_okD(1) [OF cache_okD(1) [OF one_shardD(1) [OF pool_okD(4) [OF assms(1,2)]]]]] assms(3) by auto

lemma flush_begin_hit:
  assumes p: "pool_ok cap R L U p" and x: "x = Shard (HashKeyType k)" and a: "pool_entry p k = Some a" "R x a + 2 < 2 ^ 32"
  obtains p' where "flush_begin e k p = Some (p', a)"
    "pool_ok cap (hit_refs_of R x a) (L(x := remove1 a (L x))) (U(x := used a (L x) (U x))) p'" "preserved {} (lru p) (lru p')"
    "page_arrays p' = page_arrays p" "metas p' = metas p" "\<forall>k'. pool_slot p' k' = pool_slot p k'"
proof -
  have x': "x < kNumShards" by (simp add: x Shard_less)
  have e: "a \<in> set (L x) \<union> set (U x)" "handle_id (handles (shards (lru p) ! x)) a = Some (the_key k, HashKeyType k)"
    using a(1) pool_entry_iff [OF p] x by (simp_all add: entry_of_def Let_def)
  obtain s' where s': "sharded_LookupInsert e k None 1 None (lru p) (freelist p) = Some (s', freelist p, a)"
    "cache_pool cap (dom (metas p)) (hit_refs_of R x a) (L(x := remove1 a (L x))) (U(x := used a (L x) (U x))) s' (freelist p)" "preserved {} (lru p) s'"
    by (rule lookup_insert_hit [OF pool_okD(1) [OF p] x e a(2)])
  let ?p = "p\<lparr>lru := s', freelist := freelist p\<rparr>"
  have ok: "pool_ok cap (hit_refs_of R x a) (L(x := remove1 a (L x))) (U(x := used a (L x) (U x))) ?p" by (rule pool_okI [OF s'(2) pool_okD(2) [OF p]])
  have "pool_slot ?p k' = pool_slot p k'" for k'
    by (rule slot_same [OF p ok]) (simp_all add: s'(3) entries_moved [where L = L and U = U, OF x' hit_sets [OF p x' e(1)]])
  then show thesis using that [of ?p] s' ok by (simp add: flush_begin_def)
qed

lemma access_begin_hit:
  assumes p: "pool_ok cap R L U p" and x: "x = Shard (HashKeyType k)" and a: "pool_entry p k = Some a" "R x a + 2 < 2 ^ 32"
  obtains p' where "access_begin k p = Some (p', Some a)"
    "pool_ok cap (hit_refs_of R x a) (L(x := remove1 a (L x))) (U(x := used a (L x) (U x))) p'" "preserved {} (lru p) (lru p')"
    "page_arrays p' = page_arrays p" "metas p' = metas p" "\<forall>k'. pool_slot p' k' = pool_slot p k'"
proof -
  have x': "x < kNumShards" by (simp add: x Shard_less)
  have e: "a \<in> set (L x) \<union> set (U x)" "handle_id (handles (shards (lru p) ! x)) a = Some (the_key k, HashKeyType k)"
    using a(1) pool_entry_iff [OF p] x by (simp_all add: entry_of_def Let_def)
  obtain s' where s': "sharded_Lookup k (lru p) = Some (s', Some a)"
    "cache_pool cap (dom (metas p)) (hit_refs_of R x a) (L(x := remove1 a (L x))) (U(x := used a (L x) (U x))) s' (freelist p)" "preserved {} (lru p) s'"
    by (rule lookup_hit [OF pool_okD(1) [OF p] x e a(2)])
  let ?p = "p\<lparr>lru := s', freelist := freelist p\<rparr>"
  have ok: "pool_ok cap (hit_refs_of R x a) (L(x := remove1 a (L x))) (U(x := used a (L x) (U x))) ?p" by (rule pool_okI [OF s'(2) pool_okD(2) [OF p]])
  have "pool_slot ?p k' = pool_slot p k'" for k'
    by (rule slot_same [OF p ok]) (simp_all add: s'(3) entries_moved [where L = L and U = U, OF x' hit_sets [OF p x' e(1)]])
  then show thesis using that [of ?p] s' ok by (simp add: access_begin_def)
qed

lemma access_begin_miss:
  assumes p: "pool_ok cap R L U p" and k: "pool_entry p k = None"
  shows "access_begin k p = Some (p, None)"
proof -
  have "\<forall>b \<in> set (L (Shard (HashKeyType k))) \<union> set (U (Shard (HashKeyType k))).
      handle_id (handles (shards (lru p) ! Shard (HashKeyType k))) b \<noteq> Some (the_key k, HashKeyType k)"
    using k pool_entry_None [OF p, of k] by (auto simp: entry_of_def Let_def)
  then have "sharded_Lookup k (lru p) = Some (lru p, None)" by (rule lookup_miss [OF pool_okD(3) [OF p] refl])
  then show ?thesis by (simp add: access_begin_def)
qed

lemma release_step:
  assumes p: "pool_ok cap R L U p" and x: "x < kNumShards" and a: "0 < R x a"
  obtains p' where "release (Some a) p = Some p'"
    "pool_ok cap (R(x := (R x)(a := R x a - 1))) (L(x := unused_after (R x) a (L x) (U x))) (U(x := used_after (R x) a (U x))) p'"
    "preserved {} (lru p) (lru p')" "page_arrays p' = page_arrays p" "metas p' = metas p" "\<forall>k'. pool_slot p' k' = pool_slot p k'"
proof -
  obtain s' where s': "sharded_Release (Some a) (lru p) = Some s'"
    "cache_pool cap (dom (metas p)) (R(x := (R x)(a := R x a - 1))) (L(x := unused_after (R x) a (L x) (U x))) (U(x := used_after (R x) a (U x))) s' (freelist p)"
    "preserved {} (lru p) s'" by (rule release_ok [OF pool_okD(1) [OF p] x a])
  let ?p = "p\<lparr>lru := s', freelist := freelist p\<rparr>" and ?L = "L(x := unused_after (R x) a (L x) (U x))" and ?U = "U(x := used_after (R x) a (U x))"
  have ok: "pool_ok cap (R(x := (R x)(a := R x a - 1))) ?L ?U ?p" by (rule pool_okI [OF s'(2) pool_okD(2) [OF p]])
  note o = pool_okD(4) [OF p x]
  have "set (unused_after (R x) a (L x) (U x)) \<union> set (used_after (R x) a (U x)) = set (L x) \<union> set (U x)"
    using lists_okD(3) [OF shard_okD(1) [OF cache_okD(1) [OF one_shardD(1) [OF o]]]] one_shardD(3) [OF o a] by auto
  note E = entries_moved [where L = L and U = U, OF x this]
  have "pool_slot ?p k' = pool_slot p k'" for k' by (rule slot_same [OF p ok _ E]) (simp_all add: s'(3))
  then show thesis using that [of ?p] s' ok by (simp add: release_def)
qed

text \<open>An address that is free in the memory of the process.\<close>

definition fresh_handle :: "addr \<Rightarrow> MemPoolManager \<Rightarrow> bool" where
  "fresh_handle e p \<longleftrightarrow> (\<forall>c \<in> set (shards (lru p)). handles c e = None)"

lemma fresh_handleD: "pool_ok cap R L U p \<Longrightarrow> fresh_handle e p \<Longrightarrow> \<forall>i < kNumShards. handles (shards (lru p) ! i) e = None"
  using shards_okD(1) [OF pool_okD(3)] by (simp add: fresh_handle_def)

definition has_room :: "u64 \<Rightarrow> nat \<Rightarrow> (nat \<Rightarrow> addr list) \<Rightarrow> (nat \<Rightarrow> addr list) \<Rightarrow> bool" where
  "has_room cap x L U \<longleftrightarrow> length (L x) + length (U x) < (unat cap + x) div kNumShards"

lemma miss_none:
  assumes "pool_ok cap R L U p" "pool_entry p k = None" "x = Shard (HashKeyType k)"
  shows "\<forall>b \<in> set (L x) \<union> set (U x). handle_id (handles (shards (lru p) ! x)) b \<noteq> Some (the_key k, HashKeyType k)"
  using assms(2,3) pool_entry_None [OF assms(1), of k] by (auto simp: entry_of_def Let_def)

lemma entries_enter: "x < kNumShards \<Longrightarrow> entries L (U(x := U x @ [e])) = insert (x, e) (entries L U)"
  by (auto simp: entries_def split: if_splits)

lemma entries_evict:
  "x < kNumShards \<Longrightarrow> L x = a # L' \<Longrightarrow> a \<notin> set L' \<union> set (U x) \<Longrightarrow>
   entries (L(x := L')) (U(x := U x @ [e])) = insert (x, e) (entries L U - {(x, a)})"
  by (auto simp: entries_def split: if_splits)

text \<open>The entry of another key is not the new one.\<close>

lemma other_entry:
  assumes "entry_of L U s k a" "entry_of L U s k' a'" "key_id k' \<noteq> key_id k"
  shows "(Shard (HashKeyType k'), a') \<noteq> (Shard (HashKeyType k), a)"
  using assms by (auto simp: entry_of_entries)

lemma flush_begin_room:
  assumes p: "pool_ok cap R L U p" and x: "x = Shard (HashKeyType k)" and e: "fresh_handle e p" and k: "pool_entry p k = None"
    and room: "has_room cap x L U"
  obtains p' where "flush_begin e k p = Some (p', e)" "pool_ok cap (R(x := (R x)(e := 1))) L (U(x := U x @ [e])) p'"
    "page_arrays p' = page_arrays p" "metas p' = metas p" "entry_of L (U(x := U x @ [e])) (lru p') k e" "preserved {(x, e)} (lru p) (lru p')"
    "\<forall>k'. key_id k' \<noteq> key_id k \<longrightarrow> pool_slot p' k' = pool_slot p k'"
proof -
  have x': "x < kNumShards" by (simp add: x Shard_less)
  obtain s' m fl' where s': "freelist p = m # fl'" "sharded_LookupInsert e k None 1 None (lru p) (freelist p) = Some (s', fl', e)"
    "cache_pool cap (dom (metas p)) (R(x := (R x)(e := 1))) L (U(x := U x @ [e])) s' fl'" "preserved {(x, e)} (lru p) s'"
    "handle_id (handles (shards s' ! x)) e = Some (the_key k, HashKeyType k)" "buf s' (x, e) = Some m"
    by (rule lookup_insert_room [OF pool_okD(1) [OF p] x fresh_handleD [OF p e] miss_none [OF p k x] room [unfolded has_room_def]])
  let ?p = "p\<lparr>lru := s', freelist := fl'\<rparr>"
  have ok: "pool_ok cap (R(x := (R x)(e := 1))) L (U(x := U x @ [e])) ?p" by (rule pool_okI [OF s'(3) pool_okD(2) [OF p]])
  note E = entries_enter [OF x', of L U e]
  have new: "entry_of L (U(x := U x @ [e])) (lru ?p) k e" using s'(5) x E by (simp add: entry_of_entries)
  have out: "(x, e) \<notin> entries L U"
    using lists_alloc [OF shard_okD(1) [OF cache_okD(1) [OF one_shardD(1) [OF pool_okD(4) [OF p x']]]], of e] fresh_handleD [OF p e] x'
    by (auto simp: entries_def)
  have "pool_slot ?p k' = pool_slot p k'" if "key_id k' \<noteq> key_id k" for k'
  proof (rule slot_eq [OF p ok, of "{(x, e)}"], simp add: s'(4), intro allI impI)
    fix a assume a: "entry_of L U (lru p) k' a \<or> entry_of L (U(x := U x @ [e])) (lru ?p) k' a"
    then have "(Shard (HashKeyType k'), a) \<noteq> (x, e)"
      using out other_entry [OF new _ that, of a] x entry_of_entries [of L U "lru p" k' a] by fastforce
    then show "(Shard (HashKeyType k'), a) \<notin> {(x, e)} \<and> ((Shard (HashKeyType k'), a) \<in> entries L U \<longleftrightarrow> (Shard (HashKeyType k'), a) \<in> entries L (U(x := U x @ [e])))"
      unfolding E by auto
  qed
  then show thesis using that [of ?p] s' ok new by (simp add: flush_begin_def)
qed

lemma flush_begin_evict:
  assumes p: "pool_ok cap R L U p" and x: "x = Shard (HashKeyType k)" and e: "fresh_handle e p" and k: "pool_entry p k = None"
    and full: "\<not> has_room cap x L U" and L: "L x = a # L'"
  obtains p' where "flush_begin e k p = Some (p', e)" "pool_ok cap (R(x := (R x)(e := 1))) (L(x := L')) (U(x := U x @ [e])) p'"
    "page_arrays p' = page_arrays p" "metas p' = metas p" "entry_of (L(x := L')) (U(x := U x @ [e])) (lru p') k e"
    "preserved {(x, a), (x, e)} (lru p) (lru p')"
    "\<forall>k'. key_id k' \<noteq> key_id k \<longrightarrow> pool_entry p k' \<noteq> Some a \<longrightarrow> pool_slot p' k' = pool_slot p k'"
    "\<forall>k'. pool_entry p k' = Some a \<longrightarrow> pool_slot p' k' = None"
proof -
  have x': "x < kNumShards" by (simp add: x Shard_less)
  obtain s' where s': "sharded_LookupInsert e k None 1 None (lru p) (freelist p) = Some (s', freelist p, e)"
    "cache_pool cap (dom (metas p)) (R(x := (R x)(e := 1))) (L(x := L')) (U(x := U x @ [e])) s' (freelist p)" "preserved {(x, a), (x, e)} (lru p) s'"
    "handle_id (handles (shards s' ! x)) e = Some (the_key k, HashKeyType k)" "buf s' (x, e) = buf (lru p) (x, a)" "handles (shards s' ! x) a = None"
    by (rule lookup_insert_evict [OF pool_okD(1) [OF p] x fresh_handleD [OF p e] miss_none [OF p k x] full [unfolded has_room_def] L])
  let ?p = "p\<lparr>lru := s', freelist := freelist p\<rparr>" and ?L = "L(x := L')" and ?U = "U(x := U x @ [e])"
  have ok: "pool_ok cap (R(x := (R x)(e := 1))) ?L ?U ?p" by (rule pool_okI [OF s'(2) pool_okD(2) [OF p]])
  note lists = shard_okD(1) [OF cache_okD(1) [OF one_shardD(1) [OF pool_okD(4) [OF p x']]]]
  have d: "a \<notin> set L' \<union> set (U x)" using lists_okD(3) [OF lists] L by auto
  note E = entries_evict [where L = L and U = U and e = e, OF x' L d]
  have new: "entry_of ?L ?U (lru ?p) k e" using s'(4) x unfolding entry_of_entries E by simp
  have out: "(x, e) \<notin> entries L U" "(x, a) \<in> entries L U"
    using lists_alloc [OF lists, of e] fresh_handleD [OF p e] x' L by (auto simp: entries_def)
  have gone: "pool_entry ?p k' = None" if "pool_entry p k' = Some a" for k'
  proof -
    have a: "entry_of L U (lru p) k' a" using that pool_entry_iff [OF p] by simp
    then have sx: "Shard (HashKeyType k') = x" using entries_shard [OF pool_okD(3) [OF p] _ out(2)] by (simp add: entry_of_entries)
    have "\<not> entry_of ?L ?U (lru ?p) k' b" for b
    proof
      assume b: "entry_of ?L ?U (lru ?p) k' b"
      have "key_id k' \<noteq> key_id k" using a k pool_entry_None [OF p, of k] sx x by (auto simp: entry_of_def Let_def)
      then have "b \<noteq> e" using other_entry [OF new b] sx x by auto
      moreover have "b \<noteq> a" using b s'(6) sx by (auto simp: entry_of_entries handle_id_def)
      ultimately have "entry_of L U (lru p) k' b"
        using b preserved_id [OF s'(3) x', of b] sx unfolding entry_of_entries E by simp
      then show False using pool_entry_iff [OF p, of k' b] that \<open>b \<noteq> a\<close> by simp
    qed
    then show ?thesis using pool_entry_None [OF ok] by simp
  qed
  have "pool_slot ?p k' = pool_slot p k'" if k': "key_id k' \<noteq> key_id k" "pool_entry p k' \<noteq> Some a" for k'
  proof (rule slot_eq [OF p ok, of "{(x, a), (x, e)}"], simp add: s'(3), intro allI impI)
    fix b assume b: "entry_of L U (lru p) k' b \<or> entry_of ?L ?U (lru ?p) k' b"
    then have "(Shard (HashKeyType k'), b) \<noteq> (x, e)"
      using out(1) other_entry [OF new _ k'(1), of b] x entry_of_entries [of L U "lru p" k' b] by fastforce
    moreover have "(Shard (HashKeyType k'), b) \<noteq> (x, a)"
      using b k'(2) pool_entry_iff [OF p, of k' b] s'(6) by (auto simp: entry_of_entries handle_id_def)
    ultimately show "(Shard (HashKeyType k'), b) \<notin> {(x, a), (x, e)} \<and> ((Shard (HashKeyType k'), b) \<in> entries L U \<longleftrightarrow> (Shard (HashKeyType k'), b) \<in> entries ?L ?U)"
      unfolding E by auto
  qed
  then show thesis using that [of ?p] s' ok new gone by (simp add: flush_begin_def pool_slot_def)
qed

lemma flush_begin_full:
  assumes p: "pool_ok cap R L U p" and x: "x = Shard (HashKeyType k)" and e: "fresh_handle e p" and k: "pool_entry p k = None"
    and full: "\<not> has_room cap x L U" "L x = []"
  shows "flush_begin e k p = None"
proof -
  have x': "x < kNumShards" by (simp add: x Shard_less)
  note o = pool_okD(4) [OF p x', unfolded full(2)]
  note c = one_shardD(1) [OF o] and len = shards_okD(1) [OF pool_okD(3) [OF p]]
  have e': "handles (shards (lru p) ! x) e = None" using fresh_handleD [OF p e] x' by blast
  have "\<forall>b \<in> set (U x). handle_id (handles (shards (lru p) ! x)) b \<noteq> Some (the_key k, HashKeyType k)" using miss_none [OF p k x] by simp
  moreover have "length (U x) = unat (c_capacity (shards (lru p) ! x))"
    using full cache_okD(3) [OF c] one_shardD(2) [OF o] by (simp add: has_room_def)
  ultimately have "LookupInsert e (the_key k) (HashKeyType k) None 1 None (shards (lru p) ! x) (freelist p) = None"
    using LookupInsert_full [OF c e'] by blast
  then show ?thesis using x x' len by (simp add: flush_begin_def sharded_LookupInsert_def assertion_def)
qed

text \<open>Two keys with the same buffer are one key.\<close>

lemma slot_key:
  assumes p: "pool_ok cap R L U p" and m: "pool_slot p k = Some m" "pool_slot p k' = Some m"
  shows "key_id k = key_id k'"
proof -
  have entry: "\<exists>a. entry_of L U (lru p) k a \<and> buf (lru p) (Shard (HashKeyType k), a) = Some m" if m: "pool_slot p k = Some m" for k
  proof -
    obtain a where a: "pool_entry p k = Some a" using m by (auto simp: pool_slot_def split: bind_splits)
    then have e: "entry_of L U (lru p) k a" using pool_entry_iff [OF p] by simp
    obtain m' where "buf (lru p) (Shard (HashKeyType k), a) = Some m'" "pool_slot p k = Some m'" by (rule entry_buffer [OF p e]) blast
    then show ?thesis using e m by auto
  qed
  obtain a where a: "entry_of L U (lru p) k a" "buf (lru p) (Shard (HashKeyType k), a) = Some m" using entry [OF m(1)] by blast
  obtain b where b: "entry_of L U (lru p) k' b" "buf (lru p) (Shard (HashKeyType k'), b) = Some m" using entry [OF m(2)] by blast
  have "(Shard (HashKeyType k), a) = (Shard (HashKeyType k'), b)"
    by (rule inj_onD [OF ownedD(4) [OF cache_poolD(2) [OF pool_okD(1) [OF p]]]]) (use a b in \<open>simp_all add: entry_of_entries\<close>)
  then show ?thesis using a(1) b(1) by (simp add: entry_of_entries)
qed

lemma flush_write_ok:
  assumes p: "pool_ok cap R L U p" and a: "entry_of L U (lru p) k a"
  obtains p' where "flush_write a k data p = Some p'" "pool_ok cap R L U p'" "lru p' = lru p" "metas p' = metas p"
    "\<forall>k'. pool_slot p' k' = pool_slot p k'" "pool_page p' k = Some data" "pool_id p' k = Some k"
    "\<forall>k'. key_id k' \<noteq> key_id k \<longrightarrow> pool_page p' k' = pool_page p k' \<and> pool_id p' k' = pool_id p k'"
proof -
  obtain m meta where m: "metas p m = Some meta" "Value (lru p) a = Some (Some m)" "pool_slot p k = Some m"
    by (rule entry_buffer [OF p a]) blast
  obtain p' where p': "do { p \<leftarrow> copy_page (page_addr meta) data p; copy_id (page_id_addr meta) k p } = Some p'" "slots_ok p'"
    "lru p' = lru p" "freelist p' = freelist p" "metas p' = metas p" "page_at p' m = Some data" "id_at p' m = Some k"
    "\<forall>m'. m' \<noteq> m \<longrightarrow> page_at p' m' = page_at p m' \<and> id_at p' m' = id_at p m'"
    by (rule copy_slot_ok [OF pool_okD(2) [OF p] m(1)])
  have "flush_write a k data p = Some p'" using m p'(1) by (simp add: flush_write_def)
  moreover have "pool_ok cap R L U p'" using pool_okD(1) [OF p] p'(2-5) by (simp add: pool_ok_def)
  moreover have slots: "pool_slot p' k' = pool_slot p k'" for k' by (simp add: pool_slot_def pool_entry_def p'(3))
  moreover have "pool_page p' k = Some data" "pool_id p' k = Some k" using slots [of k] m(3) p'(6,7) by (simp_all add: pool_page_def pool_id_def)
  moreover have "pool_page p' k' = pool_page p k' \<and> pool_id p' k' = pool_id p k'" if "key_id k' \<noteq> key_id k" for k'
  proof (cases "pool_slot p k'")
    case None
    then show ?thesis using slots [of k'] by (simp add: pool_page_def pool_id_def)
  next
    case (Some m')
    then have "m' \<noteq> m" using slot_key [OF p m(3), of k'] that by auto
    then show ?thesis using slots [of k'] Some p'(8) by (simp add: pool_page_def pool_id_def)
  qed
  ultimately show thesis using that p'(3,5) by blast
qed

end
