(* ===== verification/PoolThreads.thy ===== *)
theory PoolThreads
  imports PoolSteps "HOL-Library.Multiset"
begin

text \<open>
  The handlers of the memory pool on the threads of the server: a handler that has got its handle writes
  the page and gives the handle back, and other handlers run between these steps.
\<close>

section \<open>Runs\<close>

datatype task = Writing addr key_image bytes | Releasing addr

primrec holds :: "task \<Rightarrow> addr" where
  "holds (Writing a k data) = a"
| "holds (Releasing a) = a"

text \<open>\<open>pool_run cap threads p T ws\<close>: the pool can be \<open>p\<close> while the handlers \<open>T\<close> run, after the writes \<open>ws\<close>. A
  thread runs one handler at a time; the memory allocator gives an address that is free.\<close>

inductive pool_run :: "u64 \<Rightarrow> nat \<Rightarrow> MemPoolManager \<Rightarrow> task multiset \<Rightarrow> (key_image \<times> bytes) list \<Rightarrow> bool" for cap threads where
  run_start: "sentinels_ok sentinels \<Longrightarrow> distinct ms \<Longrightarrow> length ms = unat cap \<Longrightarrow> length (pa_buf arr) = unat cap \<Longrightarrow>
    length (pida_buf arr) = unat cap \<Longrightarrow> allocate_page_array sentinels ms arr cap (fresh_manager s) = Some p \<Longrightarrow> pool_run cap threads p {#} []"
| run_flush: "pool_run cap threads p T ws \<Longrightarrow> size T < threads \<Longrightarrow> fresh_handle e p \<Longrightarrow> flush_begin e k p = Some (p', a) \<Longrightarrow>
    pool_run cap threads p' (add_mset (Writing a k data) T) ws"
| run_write: "pool_run cap threads p (add_mset (Writing a k data) T) ws \<Longrightarrow> flush_write a k data p = Some p' \<Longrightarrow>
    pool_run cap threads p' (add_mset (Releasing a) T) (ws @ [(k, data)])"
| run_access: "pool_run cap threads p T ws \<Longrightarrow> size T < threads \<Longrightarrow> access_begin k p = Some (p', Some a) \<Longrightarrow>
    pool_run cap threads p' (add_mset (Releasing a) T) ws"
| run_release: "pool_run cap threads p (add_mset (Releasing a) T) ws \<Longrightarrow> release (Some a) p = Some p' \<Longrightarrow> pool_run cap threads p' T ws"

section \<open>The references of the handlers\<close>

definition refs :: "task multiset \<Rightarrow> addr \<Rightarrow> nat" where
  "refs T a = count (image_mset holds T) a"

definition counted :: "(nat \<Rightarrow> addr \<Rightarrow> nat) \<Rightarrow> (nat \<Rightarrow> addr list) \<Rightarrow> (nat \<Rightarrow> addr list) \<Rightarrow> task multiset \<Rightarrow> bool" where
  "counted R L U T \<longleftrightarrow> (\<forall>x < kNumShards. \<forall>a. R x a = (if (x, a) \<in> entries L U then refs T a else 0))"

primrec held :: "(nat \<Rightarrow> addr list) \<Rightarrow> (nat \<Rightarrow> addr list) \<Rightarrow> MemPoolManager \<Rightarrow> task \<Rightarrow> bool" where
  "held L U p (Writing a k data) = entry_of L U (lru p) k a"
| "held L U p (Releasing a) = (\<exists>x. (x, a) \<in> entries L U)"

lemma refs_add [simp]: "refs (add_mset t T) a = refs T a + (if holds t = a then 1 else 0)"
  by (simp add: refs_def)

lemma refs_empty [simp]: "refs {#} a = 0"
  by (simp add: refs_def)

lemma refs_pos: "t \<in># T \<Longrightarrow> 0 < refs T (holds t)"
  unfolding refs_def count_greater_zero_iff by simp

lemma refs_size: "refs T a \<le> size T"
  unfolding refs_def using count_le_size [of "image_mset holds T" a] by simp

lemma held_entry: "held L U p t \<Longrightarrow> \<exists>x. (x, holds t) \<in> entries L U"
  by (cases t) (auto simp: entry_of_entries)

lemma countedD: "counted R L U T \<Longrightarrow> x < kNumShards \<Longrightarrow> R x a = (if (x, a) \<in> entries L U then refs T a else 0)"
  by (simp add: counted_def)

lemma entries_less: "(x, a) \<in> entries L U \<Longrightarrow> x < kNumShards"
  by (simp add: entries_def)

lemma counted_hit:
  assumes c: "counted R L U T" and s: "shards_ok cap R L U s" and a: "(x, a) \<in> entries L U" and t: "holds t = a" and E: "entries L' U' = entries L U"
  shows "counted (hit_refs_of R x a) L' U' (add_mset t T)"
  unfolding counted_def
proof (intro allI impI)
  fix y b assume y: "y < kNumShards"
  have other: "(y, a) \<notin> entries L U" if "y \<noteq> x" using entries_shard [OF s _ a, of y] that by blast
  show "hit_refs_of R x a y b = (if (y, b) \<in> entries L' U' then refs (add_mset t T) b else 0)"
    using countedD [OF c y, of b] a t E other by (cases "b = a"; cases "y = x") simp_all
qed

lemma counted_release:
  assumes c: "counted R L U (add_mset t T)" and s: "shards_ok cap R L U s" and a: "(x, a) \<in> entries L U" and t: "holds t = a" and E: "entries L' U' = entries L U"
  shows "counted (R(x := (R x)(a := R x a - 1))) L' U' T"
  unfolding counted_def
proof (intro allI impI)
  fix y b assume y: "y < kNumShards"
  have other: "(y, a) \<notin> entries L U" if "y \<noteq> x" using entries_shard [OF s _ a, of y] that by blast
  show "(R(x := (R x)(a := R x a - 1))) y b = (if (y, b) \<in> entries L' U' then refs T b else 0)"
    using countedD [OF c y, of b] a t E other by (cases "b = a"; cases "y = x") simp_all
qed

lemma counted_new:
  assumes c: "counted R L U T" and e: "refs T e = 0" "\<forall>y. (y, e) \<notin> entries L U" and t: "holds t = e"
    and E: "entries L' U' = insert (x, e) (entries L U - V)" and V: "\<forall>q \<in> V. refs T (snd q) = 0"
  shows "counted (R(x := (R x)(e := 1))) L' U' (add_mset t T)"
  unfolding counted_def
proof (intro allI impI)
  fix y b assume y: "y < kNumShards"
  show "(R(x := (R x)(e := 1))) y b = (if (y, b) \<in> entries L' U' then refs (add_mset t T) b else 0)"
  proof (cases "b = e")
    case True
    then show ?thesis using countedD [OF c y, of e] e t unfolding E by simp
  next
    case False
    have "refs T b = 0" if "(y, b) \<in> V" using V that by force
    then show ?thesis using countedD [OF c y, of b] False t unfolding E by auto
  qed
qed

lemma held_change:
  assumes h: "held L U p t" and pr: "preserved X (lru p) (lru p')"
    and E: "\<forall>x. (x, holds t) \<in> entries L U \<longrightarrow> (x, holds t) \<in> entries L' U' \<and> (x, holds t) \<notin> X"
  shows "held L' U' p' t"
proof (cases t)
  case (Writing a k data)
  then have "(Shard (HashKeyType k), a) \<in> entries L U" using h by (simp add: entry_of_entries)
  then show ?thesis using h E Writing preserved_id [OF pr Shard_less, of "HashKeyType k" a] by (simp add: entry_of_entries)
next
  case (Releasing a)
  then show ?thesis using h E by auto
qed

section \<open>The invariant of runs\<close>

definition running :: "u64 \<Rightarrow> (nat \<Rightarrow> addr \<Rightarrow> nat) \<Rightarrow> (nat \<Rightarrow> addr list) \<Rightarrow> (nat \<Rightarrow> addr list) \<Rightarrow> MemPoolManager \<Rightarrow> task multiset \<Rightarrow> bool" where
  "running cap R L U p T \<longleftrightarrow> pool_ok cap R L U p \<and> counted R L U T \<and> (\<forall>t \<in># T. held L U p t)"

lemma runningD:
  assumes "running cap R L U p T"
  shows "pool_ok cap R L U p" "counted R L U T" "t \<in># T \<Longrightarrow> held L U p t"
  using assms by (simp_all add: running_def)

lemma unheld:
  assumes r: "running cap R L U p T" and e: "fresh_handle e p"
  shows "refs T e = 0" "(y, e) \<notin> entries L U"
proof -
  note p = runningD(1) [OF r]
  show out: "(y, e) \<notin> entries L U" for y
  proof
    assume y: "(y, e) \<in> entries L U"
    then have y': "y < kNumShards" "e \<in> set (L y) \<union> set (U y)" by (auto simp: entries_def)
    have "handle_id (handles (shards (lru p) ! y)) e \<noteq> None" using one_shardD(4) [OF pool_okD(4) [OF p y'(1)] y'(2)] by auto
    then show False using fresh_handleD [OF p e] y'(1) by (simp add: handle_id_def)
  qed
  show "refs T e = 0"
  proof (rule ccontr)
    assume "refs T e \<noteq> 0"
    then obtain t where "t \<in># T" "holds t = e" unfolding refs_def by (metis count_eq_zero_iff imageE set_image_mset)
    then show False using held_entry [OF runningD(3) [OF r]] out by blast
  qed
qed

lemma running_hit:
  assumes r: "running cap R L U p T" and a: "entry_of L U (lru p) k a" and x: "x = Shard (HashKeyType k)"
    and p': "pool_ok cap (hit_refs_of R x a) (L(x := remove1 a (L x))) (U(x := used a (L x) (U x))) p'" "preserved {} (lru p) (lru p')"
    and t: "holds t = a" "\<And>data k'. t = Writing a k' data \<Longrightarrow> k' = k"
  shows "running cap (hit_refs_of R x a) (L(x := remove1 a (L x))) (U(x := used a (L x) (U x))) p' (add_mset t T)"
proof -
  note p = runningD(1) [OF r]
  have x': "x < kNumShards" by (simp add: x Shard_less)
  have mem: "a \<in> set (L x) \<union> set (U x)" using a x by (simp add: entry_of_def Let_def)
  let ?L = "L(x := remove1 a (L x))" and ?U = "U(x := used a (L x) (U x))"
  have E: "entries ?L ?U = entries L U" by (rule entries_moved [where L = L and U = U, OF x' hit_sets [OF p x' mem]])
  have c: "counted (hit_refs_of R x a) ?L ?U (add_mset t T)"
    by (rule counted_hit [OF runningD(2) [OF r] pool_okD(3) [OF p] _ t(1) E]) (use a x in \<open>simp add: entry_of_entries\<close>)
  have keep: "held ?L ?U p' u" if "held L U p u" for u
    by (rule held_change [OF that p'(2)], unfold E) simp
  have "held L U p t" using t a by (cases t) (auto simp: entry_of_entries)
  then show ?thesis using p'(1) c keep runningD(3) [OF r] unfolding running_def by auto
qed

lemma running_new:
  assumes r: "running cap R L U p T" and e: "fresh_handle e p" and p': "pool_ok cap (R(x := (R x)(e := 1))) L' U' p'"
    and pr: "preserved (insert (x, e) V) (lru p) (lru p')" and E: "entries L' U' = insert (x, e) (entries L U - V)"
    and V: "\<forall>q \<in> V. refs T (snd q) = 0" and k: "entry_of L' U' (lru p') k e"
  shows "running cap (R(x := (R x)(e := 1))) L' U' p' (add_mset (Writing e k data) T)"
proof -
  note u = unheld [OF r e]
  have "counted (R(x := (R x)(e := 1))) L' U' (add_mset (Writing e k data) T)"
    by (rule counted_new [OF runningD(2) [OF r] u(1) _ _ E V]) (simp_all add: u(2))
  moreover have "held L' U' p' t" if t: "t \<in># T" for t
  proof (rule held_change [OF runningD(3) [OF r t] pr], intro allI impI)
    fix y assume y: "(y, holds t) \<in> entries L U"
    have "(y, holds t) \<notin> V" using V refs_pos [OF t] by force
    moreover have "(y, holds t) \<noteq> (x, e)" using y u(2) by auto
    ultimately show "(y, holds t) \<in> entries L' U' \<and> (y, holds t) \<notin> insert (x, e) V" using y unfolding E by simp
  qed
  ultimately show ?thesis using p' k by (simp add: running_def)
qed

lemma running_refs: "running cap R L U p T \<Longrightarrow> x < kNumShards \<Longrightarrow> R x a \<le> size T"
  using countedD [OF runningD(2), of cap R L U p T x a] refs_size [of T a] by (simp split: if_splits)

lemma unused_refs:
  assumes r: "running cap R L U p T" and x: "x < kNumShards" and a: "a \<in> set (L x)"
  shows "refs T a = 0"
proof -
  note o = pool_okD(4) [OF runningD(1) [OF r] x]
  have "a \<in> set (L x) \<union> set (U x)" using a by simp
  then obtain h where "handle_ok (R x) (L x) (U x) a h" by (rule lists_handle [OF shard_okD(1) [OF cache_okD(1) [OF one_shardD(1) [OF o]]]])
  then have "R x a = 0" using a by (simp add: handle_ok_def)
  then show ?thesis using countedD [OF runningD(2) [OF r] x, of a] a x by (simp add: entries_def)
qed

section \<open>The steps\<close>

text \<open>A handler starts: the pages of other keys stay, but for one that makes room.\<close>

definition started :: "u64 \<Rightarrow> key_image \<Rightarrow> MemPoolManager \<Rightarrow> MemPoolManager \<Rightarrow> task multiset \<Rightarrow> bool" where
  "started cap k p p' T \<longleftrightarrow> (\<exists>R L U. running cap R L U p' T) \<and> page_arrays p' = page_arrays p \<and> metas p' = metas p \<and>
     (\<forall>k'. key_id k' \<noteq> key_id k \<longrightarrow> pool_slot p' k' = pool_slot p k' \<or> pool_slot p' k' = None)"

lemma startedI:
  assumes "running cap R L U p' T" "page_arrays p' = page_arrays p" "metas p' = metas p"
    "\<And>k'. key_id k' \<noteq> key_id k \<Longrightarrow> pool_slot p' k' = pool_slot p k' \<or> pool_slot p' k' = None"
  shows "started cap k p p' T"
  using assms unfolding started_def by blast

lemma startedD:
  assumes "started cap k p p' T"
  shows "\<exists>R L U. running cap R L U p' T" "page_arrays p' = page_arrays p" "metas p' = metas p"
    "key_id k' \<noteq> key_id k \<Longrightarrow> pool_slot p' k' = pool_slot p k' \<or> pool_slot p' k' = None"
  using assms unfolding started_def by simp_all

lemma start_hit:
  assumes r: "running cap R L U p T" and b: "pool_entry p k = Some b" and n: "size T + 2 < 2 ^ 32"
  obtains p' where "flush_begin e k p = Some (p', b)" "started cap k p p' (add_mset (Writing b k data) T)"
proof -
  define x where "x = Shard (HashKeyType k)"
  note p = runningD(1) [OF r]
  have x': "x < kNumShards" by (simp add: x_def Shard_less)
  have eb: "entry_of L U (lru p) k b" using b pool_entry_iff [OF p] by simp
  have "R x b + 2 < 2 ^ 32" using running_refs [OF r x', of b] n by simp
  then obtain p1 where p1: "flush_begin e k p = Some (p1, b)" "pool_ok cap (hit_refs_of R x b) (L(x := remove1 b (L x))) (U(x := used b (L x) (U x))) p1"
    "preserved {} (lru p) (lru p1)" "page_arrays p1 = page_arrays p" "metas p1 = metas p" "\<forall>k'. pool_slot p1 k' = pool_slot p k'"
    by (rule flush_begin_hit [OF p x_def b])
  have "running cap (hit_refs_of R x b) (L(x := remove1 b (L x))) (U(x := used b (L x) (U x))) p1 (add_mset (Writing b k data) T)"
    by (rule running_hit [OF r eb x_def p1(2,3)]) simp_all
  then have "started cap k p p1 (add_mset (Writing b k data) T)" by (rule startedI) (use p1(4-6) in simp_all)
  then show thesis using that p1(1) by blast
qed

lemma start_room:
  assumes r: "running cap R L U p T" and e: "fresh_handle e p" and k: "pool_entry p k = None" and room: "has_room cap (Shard (HashKeyType k)) L U"
  obtains p' where "flush_begin e k p = Some (p', e)" "started cap k p p' (add_mset (Writing e k data) T)"
proof -
  define x where "x = Shard (HashKeyType k)"
  have x': "x < kNumShards" by (simp add: x_def Shard_less)
  obtain p1 where p1: "flush_begin e k p = Some (p1, e)" "pool_ok cap (R(x := (R x)(e := 1))) L (U(x := U x @ [e])) p1"
    "page_arrays p1 = page_arrays p" "metas p1 = metas p" "entry_of L (U(x := U x @ [e])) (lru p1) k e" "preserved {(x, e)} (lru p) (lru p1)"
    "\<forall>k'. key_id k' \<noteq> key_id k \<longrightarrow> pool_slot p1 k' = pool_slot p k'"
    by (rule flush_begin_room [OF runningD(1) [OF r] x_def e k room [folded x_def]])
  have "running cap (R(x := (R x)(e := 1))) L (U(x := U x @ [e])) p1 (add_mset (Writing e k data) T)"
    by (rule running_new [OF r e p1(2), of "{}"]) (use p1(5,6) entries_enter [OF x', of L U e] in simp_all)
  then have "started cap k p p1 (add_mset (Writing e k data) T)" by (rule startedI) (use p1(3,4,7) in simp_all)
  then show thesis using that p1(1) by blast
qed

lemma start_evict:
  assumes r: "running cap R L U p T" and e: "fresh_handle e p" and k: "pool_entry p k = None"
    and full: "\<not> has_room cap (Shard (HashKeyType k)) L U" "L (Shard (HashKeyType k)) = v # L'"
  obtains p' where "flush_begin e k p = Some (p', e)" "started cap k p p' (add_mset (Writing e k data) T)"
proof -
  define x where "x = Shard (HashKeyType k)"
  note p = runningD(1) [OF r] and L = full(2) [folded x_def]
  have x': "x < kNumShards" by (simp add: x_def Shard_less)
  obtain p1 where p1: "flush_begin e k p = Some (p1, e)" "pool_ok cap (R(x := (R x)(e := 1))) (L(x := L')) (U(x := U x @ [e])) p1"
    "page_arrays p1 = page_arrays p" "metas p1 = metas p" "entry_of (L(x := L')) (U(x := U x @ [e])) (lru p1) k e"
    "preserved {(x, v), (x, e)} (lru p) (lru p1)"
    "\<forall>k'. key_id k' \<noteq> key_id k \<longrightarrow> pool_entry p k' \<noteq> Some v \<longrightarrow> pool_slot p1 k' = pool_slot p k'"
    "\<forall>k'. pool_entry p k' = Some v \<longrightarrow> pool_slot p1 k' = None"
    by (rule flush_begin_evict [OF p x_def e k full(1) [folded x_def] L])
  have d: "v \<notin> set L' \<union> set (U x)"
    using lists_okD(3) [OF shard_okD(1) [OF cache_okD(1) [OF one_shardD(1) [OF pool_okD(4) [OF p x']]]]] L by auto
  have "running cap (R(x := (R x)(e := 1))) (L(x := L')) (U(x := U x @ [e])) p1 (add_mset (Writing e k data) T)"
  proof (rule running_new [OF r e p1(2), of "{(x, v)}"])
    show "preserved (insert (x, e) {(x, v)}) (lru p) (lru p1)" using p1(6) by (simp add: insert_commute)
    show "entries (L(x := L')) (U(x := U x @ [e])) = insert (x, e) (entries L U - {(x, v)})" by (rule entries_evict [where L = L and U = U, OF x' L d])
    show "\<forall>q \<in> {(x, v)}. refs T (snd q) = 0" using unused_refs [OF r x', of v] L by simp
  qed (rule p1(5))
  then have "started cap k p p1 (add_mset (Writing e k data) T)"
  proof (rule startedI)
    show "pool_slot p1 k' = pool_slot p k' \<or> pool_slot p1 k' = None" if "key_id k' \<noteq> key_id k" for k'
      using that p1(7,8) by (cases "pool_entry p k' = Some v") simp_all
  qed (use p1(3,4) in simp_all)
  then show thesis using that p1(1) by blast
qed

lemma step_flush:
  assumes r: "running cap R L U p T" and e: "fresh_handle e p" and f: "flush_begin e k p = Some (p', a)" and n: "size T + 2 < 2 ^ 32"
  shows "started cap k p p' (add_mset (Writing a k data) T)"
proof (cases "pool_entry p k")
  case (Some b)
  obtain p1 where "flush_begin e k p = Some (p1, b)" "started cap k p p1 (add_mset (Writing b k data) T)" by (rule start_hit [OF r Some n])
  then show ?thesis using f by simp
next
  case None
  show ?thesis
  proof (cases "has_room cap (Shard (HashKeyType k)) L U")
    case True
    obtain p1 where "flush_begin e k p = Some (p1, e)" "started cap k p p1 (add_mset (Writing e k data) T)" by (rule start_room [OF r e None True])
    then show ?thesis using f by simp
  next
    case False
    have "L (Shard (HashKeyType k)) \<noteq> []" using flush_begin_full [OF runningD(1) [OF r] refl e None False] f by auto
    then obtain v L' where L: "L (Shard (HashKeyType k)) = v # L'" by (cases "L (Shard (HashKeyType k))") auto
    obtain p1 where "flush_begin e k p = Some (p1, e)" "started cap k p p1 (add_mset (Writing e k data) T)" by (rule start_evict [OF r e None False L])
    then show ?thesis using f by simp
  qed
qed

lemma step_access:
  assumes r: "running cap R L U p T" and f: "access_begin k p = Some (p', Some a)" and n: "size T + 2 < 2 ^ 32"
  obtains R' L' U' where "running cap R' L' U' p' (add_mset (Releasing a) T)" "page_arrays p' = page_arrays p" "metas p' = metas p"
    "\<forall>k'. pool_slot p' k' = pool_slot p k'"
proof -
  define x where "x = Shard (HashKeyType k)"
  note p = runningD(1) [OF r]
  have x': "x < kNumShards" by (simp add: x_def Shard_less)
  obtain b where b: "pool_entry p k = Some b" using access_begin_miss [OF p, of k] f by (cases "pool_entry p k") auto
  have eb: "entry_of L U (lru p) k b" using b pool_entry_iff [OF p] by simp
  have "R x b + 2 < 2 ^ 32" using running_refs [OF r x', of b] n by simp
  then obtain p1 where p1: "access_begin k p = Some (p1, Some b)" "pool_ok cap (hit_refs_of R x b) (L(x := remove1 b (L x))) (U(x := used b (L x) (U x))) p1"
    "preserved {} (lru p) (lru p1)" "page_arrays p1 = page_arrays p" "metas p1 = metas p" "\<forall>k'. pool_slot p1 k' = pool_slot p k'"
    by (rule access_begin_hit [OF p x_def b])
  have eq: "p' = p1" "a = b" using f p1(1) by simp_all
  have "running cap (hit_refs_of R x b) (L(x := remove1 b (L x))) (U(x := used b (L x) (U x))) p1 (add_mset (Releasing b) T)"
    by (rule running_hit [OF r eb x_def p1(2,3)]) simp_all
  then show thesis using that p1(4-6) unfolding eq by blast
qed

lemma held_refs:
  assumes r: "running cap R L U p T" and t: "t \<in># T"
  obtains x where "x < kNumShards" "(x, holds t) \<in> entries L U" "0 < R x (holds t)"
proof -
  obtain x where x: "(x, holds t) \<in> entries L U" using held_entry [OF runningD(3) [OF r t]] by blast
  then have "x < kNumShards" by (rule entries_less)
  then show thesis using that x countedD [OF runningD(2) [OF r]] refs_pos [OF t] by simp
qed

lemma step_release:
  assumes r: "running cap R L U p (add_mset (Releasing a) T)"
  obtains p' R' L' U' where "release (Some a) p = Some p'" "running cap R' L' U' p' T" "page_arrays p' = page_arrays p" "metas p' = metas p"
    "\<forall>k'. pool_slot p' k' = pool_slot p k'"
proof -
  note p = runningD(1) [OF r]
  obtain x where x: "x < kNumShards" "(x, a) \<in> entries L U" "0 < R x a" using held_refs [OF r, of "Releasing a"] by auto
  let ?R = "R(x := (R x)(a := R x a - 1))" and ?L = "L(x := unused_after (R x) a (L x) (U x))" and ?U = "U(x := used_after (R x) a (U x))"
  obtain p' where p': "release (Some a) p = Some p'" "pool_ok cap ?R ?L ?U p'" "preserved {} (lru p) (lru p')"
    "page_arrays p' = page_arrays p" "metas p' = metas p" "\<forall>k'. pool_slot p' k' = pool_slot p k'" by (rule release_step [OF p x(1,3)])
  note o = pool_okD(4) [OF p x(1)]
  have sets: "set (unused_after (R x) a (L x) (U x)) \<union> set (used_after (R x) a (U x)) = set (L x) \<union> set (U x)"
    using lists_okD(3) [OF shard_okD(1) [OF cache_okD(1) [OF one_shardD(1) [OF o]]]] one_shardD(3) [OF o x(3)] by auto
  note E = entries_moved [where L = L and U = U, OF x(1) sets]
  have c: "counted ?R ?L ?U T" by (rule counted_release [OF runningD(2) [OF r] pool_okD(3) [OF p] x(2) _ E]) simp
  have "held ?L ?U p' t" if "t \<in># T" for t
  proof (rule held_change [OF _ p'(3)])
    show "held L U p t" using runningD(3) [OF r] that by simp
    show "\<forall>y. (y, holds t) \<in> entries L U \<longrightarrow> (y, holds t) \<in> entries ?L ?U \<and> (y, holds t) \<notin> {}" unfolding E by simp
  qed
  then have "running cap ?R ?L ?U p' T" using p'(2) c unfolding running_def by blast
  then show thesis using that p'(1,4-6) by blast
qed

lemma step_write:
  assumes r: "running cap R L U p (add_mset (Writing a k data) T)"
  obtains p' where "flush_write a k data p = Some p'" "running cap R L U p' (add_mset (Releasing a) T)"
    "pool_page p' k = Some data" "pool_id p' k = Some k"
    "\<forall>k'. key_id k' \<noteq> key_id k \<longrightarrow> pool_page p' k' = pool_page p k' \<and> pool_id p' k' = pool_id p k'"
    "\<forall>k'. pool_slot p' k' = pool_slot p k'"
proof -
  note p = runningD(1) [OF r]
  have a: "entry_of L U (lru p) k a" using runningD(3) [OF r, of "Writing a k data"] by simp
  obtain p' where p': "flush_write a k data p = Some p'" "pool_ok cap R L U p'" "lru p' = lru p" "metas p' = metas p"
    "\<forall>k'. pool_slot p' k' = pool_slot p k'" "pool_page p' k = Some data" "pool_id p' k = Some k"
    "\<forall>k'. key_id k' \<noteq> key_id k \<longrightarrow> pool_page p' k' = pool_page p k' \<and> pool_id p' k' = pool_id p k'"
    by (rule flush_write_ok [OF p a])
  have "counted R L U (add_mset (Releasing a) T)" using runningD(2) [OF r] by (simp add: counted_def)
  moreover have "held L U p' t = held L U p t" for t by (cases t) (simp_all add: p'(3))
  moreover have "held L U p (Releasing a)" using a by (auto simp: entry_of_entries)
  ultimately have "running cap R L U p' (add_mset (Releasing a) T)" using p'(2) runningD(3) [OF r] by (simp add: running_def)
  then show thesis using that p'(1,5-8) by blast
qed

section \<open>The pages of a run\<close>

definition last_write :: "(key_image \<times> bytes) list \<Rightarrow> key_image \<Rightarrow> bytes option" where
  "last_write ws k = map_option snd (find (\<lambda>w. key_id (fst w) = key_id k) (rev ws))"

lemma last_write_snoc: "last_write (ws @ [(k', data)]) k = (if key_id k' = key_id k then Some data else last_write ws k)"
  by (simp add: last_write_def)

text \<open>A page that no handler is about to write is the last one that was written, with its id beside it.\<close>

definition pending :: "task multiset \<Rightarrow> key_image \<Rightarrow> bool" where
  "pending T k \<longleftrightarrow> (\<exists>t \<in># T. case t of Writing a k' data \<Rightarrow> key_id k' = key_id k | Releasing a \<Rightarrow> False)"

definition current :: "MemPoolManager \<Rightarrow> task multiset \<Rightarrow> (key_image \<times> bytes) list \<Rightarrow> bool" where
  "current p T ws \<longleftrightarrow> (\<forall>k. pending T k \<or> pool_slot p k = None \<or>
     pool_page p k \<noteq> None \<and> pool_page p k = last_write ws k \<and> map_option key_id (pool_id p k) = Some (key_id k))"

lemma pending_add [simp]: "pending (add_mset (Writing a k' data) T) k \<longleftrightarrow> key_id k' = key_id k \<or> pending T k"
  "pending (add_mset (Releasing a) T) k = pending T k" "\<not> pending {#} k"
  by (auto simp: pending_def)

lemma same_slot:
  assumes "page_arrays p' = page_arrays p" "metas p' = metas p" "pool_slot p' k = pool_slot p k"
  shows "pool_page p' k = pool_page p k" "pool_id p' k = pool_id p k"
proof -
  have "page_at p' m = page_at p m" "id_at p' m = id_at p m" for m using assms(1,2) by (simp_all add: page_at_def id_at_def)
  then show "pool_page p' k = pool_page p k" "pool_id p' k = pool_id p k" using assms(3) by (simp_all add: pool_page_def pool_id_def)
qed

lemma current_keep:
  assumes c: "current p T ws" and p': "page_arrays p' = page_arrays p" "metas p' = metas p"
    and slots: "\<forall>k. \<not> pending T' k \<longrightarrow> \<not> pending T k \<and> (pool_slot p' k = pool_slot p k \<or> pool_slot p' k = None)"
  shows "current p' T' ws"
  unfolding current_def
proof
  fix k
  show "pending T' k \<or> pool_slot p' k = None \<or>
      pool_page p' k \<noteq> None \<and> pool_page p' k = last_write ws k \<and> map_option key_id (pool_id p' k) = Some (key_id k)"
  proof (cases "pending T' k \<or> pool_slot p' k = None")
    case False
    then have old: "\<not> pending T k" "pool_slot p' k = pool_slot p k" using slots [THEN spec, of k] by auto
    then have "pool_slot p k \<noteq> None" using False by simp
    then show ?thesis using c [unfolded current_def, THEN spec, of k] old(1) unfolding same_slot [OF p' old(2)] by argo
  qed blast
qed

lemma current_write:
  assumes c: "current p (add_mset (Writing a k data) T) ws" and p': "pool_page p' k = Some data" "pool_id p' k = Some k"
    "\<forall>k'. key_id k' \<noteq> key_id k \<longrightarrow> pool_page p' k' = pool_page p k' \<and> pool_id p' k' = pool_id p k'" "\<forall>k'. pool_slot p' k' = pool_slot p k'"
    and same: "\<And>k'. key_id k' = key_id k \<Longrightarrow> pool_page p' k' = pool_page p' k \<and> pool_id p' k' = pool_id p' k"
  shows "current p' (add_mset (Releasing a) T) (ws @ [(k, data)])"
  unfolding current_def
proof
  fix k'
  show "pending (add_mset (Releasing a) T) k' \<or> pool_slot p' k' = None \<or> pool_page p' k' \<noteq> None \<and>
      pool_page p' k' = last_write (ws @ [(k, data)]) k' \<and> map_option key_id (pool_id p' k') = Some (key_id k')"
  proof (cases "key_id k' = key_id k")
    case True
    have "pool_page p' k' = Some data" "pool_id p' k' = Some k" using same [OF True] p'(1,2) by simp_all
    then show ?thesis using True by (simp add: last_write_snoc)
  next
    case False
    then have eq: "pool_page p' k' = pool_page p k'" "pool_id p' k' = pool_id p k'" "pool_slot p' k' = pool_slot p k'"
      using p'(3) [THEN spec, of k'] p'(4) [THEN spec, of k'] by simp_all
    have ne: "key_id k \<noteq> key_id k'" using False by auto
    have "pending T k' \<or> pool_slot p k' = None \<or>
      pool_page p k' \<noteq> None \<and> pool_page p k' = last_write ws k' \<and> map_option key_id (pool_id p k') = Some (key_id k')"
      using c [unfolded current_def, THEN spec, of k'] pending_add(1) [of a k data T k'] ne by argo
    then show ?thesis unfolding eq last_write_snoc if_not_P [OF ne] pending_add(2) .
  qed
qed

lemma same_key_slot: "key_id k' = key_id k \<Longrightarrow> pool_slot p k' = pool_slot p k"
  by (simp add: pool_slot_def pool_entry_def)

lemma same_key: "key_id k' = key_id k \<Longrightarrow> pool_page p k' = pool_page p k \<and> pool_id p k' = pool_id p k"
  using same_key_slot [of k' k p] by (simp add: pool_page_def pool_id_def)

text \<open>Capacities and threads of a server that keep the counters from wrapping around.\<close>

definition sizes_ok :: "u64 \<Rightarrow> nat \<Rightarrow> bool" where
  "sizes_ok cap threads \<longleftrightarrow> 1000 \<le> cap \<and> cap < 2 ^ 32 \<and> threads < 2 ^ 31"

lemma run_size: "pool_run cap threads p T ws \<Longrightarrow> size T \<le> threads"
  by (induction rule: pool_run.induct) simp_all

lemma start_slots:
  assumes p: "pool_ok cap (\<lambda>_ _. 0) (\<lambda>_. []) (\<lambda>_. []) p"
  shows "pool_slot p k = None" "running cap (\<lambda>_ _. 0) (\<lambda>_. []) (\<lambda>_. []) p {#}"
proof -
  have "pool_entry p k = None" using pool_entry_None [OF p, of k] by (simp add: entry_of_def)
  then show "pool_slot p k = None" by (simp add: pool_slot_def)
  show "running cap (\<lambda>_ _. 0) (\<lambda>_. []) (\<lambda>_. []) p {#}" using p by (simp add: running_def counted_def)
qed

definition run_ok :: "u64 \<Rightarrow> MemPoolManager \<Rightarrow> task multiset \<Rightarrow> (key_image \<times> bytes) list \<Rightarrow> bool" where
  "run_ok cap p T ws \<longleftrightarrow> (\<exists>R L U. running cap R L U p T) \<and> current p T ws"

lemma run_okE:
  assumes "run_ok cap p T ws"
  obtains R L U where "running cap R L U p T" "current p T ws"
  using assms unfolding run_ok_def by blast

lemma run_okI: "running cap R L U p T \<Longrightarrow> current p T ws \<Longrightarrow> run_ok cap p T ws"
  unfolding run_ok_def by blast

lemma run_ok_start:
  assumes "sentinels_ok sentinels" "1000 \<le> cap" "cap < 2 ^ 32" "distinct ms" "length ms = unat cap" "length (pa_buf arr) = unat cap"
    "length (pida_buf arr) = unat cap" and p: "allocate_page_array sentinels ms arr cap (fresh_manager s) = Some p"
  shows "run_ok cap p {#} []"
proof -
  obtain p1 where p1: "allocate_page_array sentinels ms arr cap (fresh_manager s) = Some p1" "pool_ok cap (\<lambda>_ _. 0) (\<lambda>_. []) (\<lambda>_. []) p1"
    by (rule allocate_ok [OF assms(1-7)]) blast
  have eq: "p1 = p" using p p1(1) by simp
  show ?thesis unfolding eq [symmetric] by (rule run_okI [OF start_slots(2) [OF p1(2)]]) (simp add: current_def start_slots(1) [OF p1(2)])
qed

lemma run_ok_flush:
  assumes i: "run_ok cap p T ws" and f: "fresh_handle e p" "flush_begin e k p = Some (p', a)" and n: "size T + 2 < 2 ^ 32"
  shows "run_ok cap p' (add_mset (Writing a k data) T) ws"
proof -
  obtain R L U where r: "running cap R L U p T" and c: "current p T ws" by (rule run_okE [OF i])
  have s: "started cap k p p' (add_mset (Writing a k data) T)" by (rule step_flush [OF r f n])
  have "current p' (add_mset (Writing a k data) T) ws"
  proof (rule current_keep [OF c startedD(2,3) [OF s]], intro allI impI)
    fix k' assume "\<not> pending (add_mset (Writing a k data) T) k'"
    then have "\<not> key_id k = key_id k'" "\<not> pending T k'" unfolding pending_add by simp_all
    then show "\<not> pending T k' \<and> (pool_slot p' k' = pool_slot p k' \<or> pool_slot p' k' = None)"
      using startedD(4) [OF s, of k'] by (metis (no_types))
  qed
  then show ?thesis using startedD(1) [OF s] by (simp add: run_ok_def)
qed

lemma run_ok_write:
  assumes i: "run_ok cap p (add_mset (Writing a k data) T) ws"
  obtains p' where "flush_write a k data p = Some p'" "run_ok cap p' (add_mset (Releasing a) T) (ws @ [(k, data)])"
    "pool_page p' k = Some data" "pool_id p' k = Some k" "\<forall>k'. pool_slot p' k' = pool_slot p k'"
    "\<forall>k'. key_id k' \<noteq> key_id k \<longrightarrow> pool_page p' k' = pool_page p k'"
proof -
  obtain R L U where r: "running cap R L U p (add_mset (Writing a k data) T)" and c: "current p (add_mset (Writing a k data) T) ws"
    by (rule run_okE [OF i])
  obtain p' where p': "flush_write a k data p = Some p'" "running cap R L U p' (add_mset (Releasing a) T)" "pool_page p' k = Some data" "pool_id p' k = Some k"
    "\<forall>k'. key_id k' \<noteq> key_id k \<longrightarrow> pool_page p' k' = pool_page p k' \<and> pool_id p' k' = pool_id p k'" "\<forall>k'. pool_slot p' k' = pool_slot p k'"
    by (rule step_write [OF r])
  have "current p' (add_mset (Releasing a) T) (ws @ [(k, data)])" by (rule current_write [OF c p'(3-6) same_key])
  then have "run_ok cap p' (add_mset (Releasing a) T) (ws @ [(k, data)])" by (rule run_okI [OF p'(2)])
  then show thesis using that p'(1,3-6) by blast
qed

lemma run_ok_access:
  assumes i: "run_ok cap p T ws" and f: "access_begin k p = Some (p', Some a)" and n: "size T + 2 < 2 ^ 32"
  shows "run_ok cap p' (add_mset (Releasing a) T) ws" "pool_page p' k' = pool_page p k'"
proof -
  obtain R L U where r: "running cap R L U p T" and c: "current p T ws" by (rule run_okE [OF i])
  obtain R' L' U' where s: "running cap R' L' U' p' (add_mset (Releasing a) T)" "page_arrays p' = page_arrays p" "metas p' = metas p"
    "\<forall>k'. pool_slot p' k' = pool_slot p k'" by (rule step_access [OF r f n])
  have "current p' (add_mset (Releasing a) T) ws" by (rule current_keep [OF c s(2,3)]) (simp add: s(4))
  then show "run_ok cap p' (add_mset (Releasing a) T) ws" by (rule run_okI [OF s(1)])
  show "pool_page p' k' = pool_page p k'" by (rule same_slot(1) [OF s(2,3)]) (simp add: s(4))
qed

lemma run_ok_release:
  assumes i: "run_ok cap p (add_mset (Releasing a) T) ws"
  obtains p' where "release (Some a) p = Some p'" "run_ok cap p' T ws" "\<forall>k. pool_slot p' k = pool_slot p k"
    "\<forall>k. pool_page p' k = pool_page p k \<and> pool_id p' k = pool_id p k"
proof -
  obtain R L U where r: "running cap R L U p (add_mset (Releasing a) T)" and c: "current p (add_mset (Releasing a) T) ws" by (rule run_okE [OF i])
  obtain p' R' L' U' where s: "release (Some a) p = Some p'" "running cap R' L' U' p' T" "page_arrays p' = page_arrays p" "metas p' = metas p"
    "\<forall>k'. pool_slot p' k' = pool_slot p k'" by (rule step_release [OF r])
  have "current p' T ws" by (rule current_keep [OF c s(3,4)]) (simp add: s(5))
  then have "run_ok cap p' T ws" by (rule run_okI [OF s(2)])
  moreover have "pool_page p' k = pool_page p k \<and> pool_id p' k = pool_id p k" for k using same_slot [OF s(3,4), of k] s(5) by simp
  ultimately show thesis using that s(1,5) by blast
qed

lemma run_invariant:
  assumes "pool_run cap threads p T ws" "sizes_ok cap threads"
  shows "run_ok cap p T ws"
  using assms
proof (induction rule: pool_run.induct)
  case (run_start sentinels ms arr s p)
  have "1000 \<le> cap" "cap < 2 ^ 32" using run_start.prems by (simp_all add: sizes_ok_def)
  then show ?case by (rule run_ok_start [OF run_start.hyps(1) _ _ run_start.hyps(2-6)])
next
  case (run_flush p T ws e k p' a data)
  have "size T + 2 < 2 ^ 32" using run_flush.hyps(2) run_flush.prems by (simp add: sizes_ok_def)
  then show ?case by (rule run_ok_flush [OF run_flush.IH [OF run_flush.prems] run_flush.hyps(3,4)])
next
  case (run_write p a k data T ws p')
  obtain p1 where "flush_write a k data p = Some p1" "run_ok cap p1 (add_mset (Releasing a) T) (ws @ [(k, data)])"
    by (rule run_ok_write [OF run_write.IH [OF run_write.prems]]) blast
  then show ?case using run_write.hyps(2) by simp
next
  case (run_access p T ws k p' a)
  have "size T + 2 < 2 ^ 32" using run_access.hyps(2) run_access.prems by (simp add: sizes_ok_def)
  then show ?case by (rule run_ok_access [OF run_access.IH [OF run_access.prems] run_access.hyps(3)])
next
  case (run_release p a T ws p')
  obtain p1 where "release (Some a) p = Some p1" "run_ok cap p1 T ws" by (rule run_ok_release [OF run_release.IH [OF run_release.prems]]) blast
  then show ?case using run_release.hyps(2) by simp
qed

end
