(* ===== verification/PoolClient.thy ===== *)
theory PoolClient
  imports PoolThreads
begin

text \<open>
  The handlers from start to end, the view of the hash table as a map, and the reply to \<open>sync_pat\<close>.
\<close>

section \<open>Handlers from start to end\<close>

text \<open>A new page can enter its shard: it has room, or a page that nobody uses.\<close>

definition can_enter :: "MemPoolManager \<Rightarrow> key_image \<Rightarrow> bool" where
  "can_enter p k \<longleftrightarrow> (let c = shards (lru p) ! Shard (HashKeyType k) in
     c_usage c < c_capacity c \<or> map_option h_next (handles c (lru_head c)) \<noteq> Some (Some (lru_head c)))"

lemma can_enter_iff:
  assumes p: "pool_ok cap R L U p" and x: "x = Shard (HashKeyType k)"
  shows "can_enter p k \<longleftrightarrow> has_room cap x L U \<or> L x \<noteq> []"
proof -
  have x': "x < kNumShards" by (simp add: x Shard_less)
  note o = pool_okD(4) [OF p x']
  note c = one_shardD(1) [OF o]
  note D = lists_okD [OF shard_okD(1) [OF cache_okD(1) [OF c]]]
  have "c_usage (shards (lru p) ! x) < c_capacity (shards (lru p) ! x) \<longleftrightarrow> has_room cap x L U"
    using cache_usage(1) [OF c] one_shardD(2) [OF o] by (simp add: word_less_nat_alt has_room_def)
  moreover obtain h where "handles (shards (lru p) ! x) (lru_head (shards (lru p) ! x)) = Some h"
    "h_next h = Some (hd (L x @ [lru_head (shards (lru p) ! x)]))" using ring_first [OF D(1)] by blast
  moreover have "hd (L x @ [lru_head (shards (lru p) ! x)]) = lru_head (shards (lru p) ! x) \<longleftrightarrow> L x = []"
    using D(3) by (cases "L x") auto
  ultimately show ?thesis using x by (simp add: can_enter_def Let_def)
qed

lemma flush_begin_iff:
  assumes r: "running cap R L U p T" and e: "fresh_handle e p" and n: "size T + 2 < 2 ^ 32"
  shows "flush_begin e k p \<noteq> None \<longleftrightarrow> pool_entry p k \<noteq> None \<or> can_enter p k"
proof (cases "pool_entry p k")
  case (Some b)
  obtain p' where "flush_begin e k p = Some (p', b)" by (rule start_hit [OF r Some n])
  then show ?thesis using Some by simp
next
  case None
  note p = runningD(1) [OF r]
  let ?x = "Shard (HashKeyType k)"
  note can = can_enter_iff [OF p refl, of k]
  consider "has_room cap ?x L U" | v L' where "\<not> has_room cap ?x L U" "L ?x = v # L'" | "\<not> has_room cap ?x L U" "L ?x = []"
    by (cases "has_room cap ?x L U"; cases "L ?x") auto
  then show ?thesis
  proof cases
    case 1
    obtain p' where "flush_begin e k p = Some (p', e)" by (rule start_room [OF r e None 1])
    then show ?thesis using can 1 by simp
  next
    case 2
    obtain p' where "flush_begin e k p = Some (p', e)" by (rule start_evict [OF r e None 2])
    then show ?thesis using can 2 by simp
  next
    case 3
    then show ?thesis using flush_begin_full [OF p refl e None 3] can None by simp
  qed
qed

lemma flush_handler_ok:
  assumes i: "run_ok cap p T ws" and e: "fresh_handle e p" and n: "size T + 2 < 2 ^ 32" and can: "pool_entry p k \<noteq> None \<or> can_enter p k"
  obtains p' where "flush_page_handler e k data p = Some (p', True)" "run_ok cap p' T (ws @ [(k, data)])"
    "pool_page p' k = Some data" "pool_id p' k = Some k"
    "\<forall>k'. key_id k' \<noteq> key_id k \<longrightarrow> pool_page p' k' = pool_page p k' \<or> pool_page p' k' = None"
proof -
  obtain R L U where r: "running cap R L U p T" by (rule run_okE [OF i])
  obtain p1 a where p1: "flush_begin e k p = Some (p1, a)" using flush_begin_iff [OF r e n, of k] can by auto
  note s = step_flush [OF r e p1 n, of data]
  have i1: "run_ok cap p1 (add_mset (Writing a k data) T) ws" by (rule run_ok_flush [OF i e p1 n])
  obtain p2 where p2: "flush_write a k data p1 = Some p2" "run_ok cap p2 (add_mset (Releasing a) T) (ws @ [(k, data)])"
    "pool_page p2 k = Some data" "pool_id p2 k = Some k" "\<forall>k'. pool_slot p2 k' = pool_slot p1 k'"
    "\<forall>k'. key_id k' \<noteq> key_id k \<longrightarrow> pool_page p2 k' = pool_page p1 k'" by (rule run_ok_write [OF i1])
  obtain p3 where p3: "release (Some a) p2 = Some p3" "run_ok cap p3 T (ws @ [(k, data)])" "\<forall>k. pool_slot p3 k = pool_slot p2 k"
    "\<forall>k. pool_page p3 k = pool_page p2 k \<and> pool_id p3 k = pool_id p2 k" by (rule run_ok_release [OF p2(2)])
  have "flush_page_handler e k data p = Some (p3, True)" using p1 p2(1) p3(1) by (simp add: flush_page_handler_def)
  moreover have "pool_page p3 k' = pool_page p k' \<or> pool_page p3 k' = None" if "key_id k' \<noteq> key_id k" for k'
  proof -
    have "pool_page p3 k' = pool_page p1 k'" using p3(4) [THEN spec, of k'] p2(6) [THEN spec, of k'] that by simp
    then show ?thesis using startedD(4) [OF s that] same_slot(1) [OF startedD(2,3) [OF s], of k'] by (auto simp: pool_page_def)
  qed
  ultimately show thesis using that p3(2) p2(3,4) p3(4) by simp
qed

lemma flush_handler_None:
  assumes i: "run_ok cap p T ws" and e: "fresh_handle e p" and n: "size T + 2 < 2 ^ 32" and can: "\<not> (pool_entry p k \<noteq> None \<or> can_enter p k)"
  shows "flush_page_handler e k data p = None"
proof -
  obtain R L U where r: "running cap R L U p T" by (rule run_okE [OF i])
  have "flush_begin e k p = None" using flush_begin_iff [OF r e n, of k] can by blast
  then show ?thesis by (simp add: flush_page_handler_def)
qed

lemma access_handler_ok:
  assumes i: "run_ok cap p T ws" and n: "size T + 2 < 2 ^ 32" and k: "pool_entry p k \<noteq> None"
  obtains p' where "access_page_handler k p = Some (p', True)" "run_ok cap p' T ws" "\<forall>k'. pool_page p' k' = pool_page p k'"
proof -
  obtain R L U where r: "running cap R L U p T" by (rule run_okE [OF i])
  note p = runningD(1) [OF r]
  obtain a where a: "pool_entry p k = Some a" using k by blast
  have "R (Shard (HashKeyType k)) a + 2 < 2 ^ 32" using running_refs [OF r Shard_less, of "HashKeyType k" a] n by simp
  then obtain p1 where p1: "access_begin k p = Some (p1, Some a)" by (rule access_begin_hit [OF p refl a])
  note i1 = run_ok_access [OF i p1 n]
  obtain p2 where p2: "release (Some a) p1 = Some p2" "run_ok cap p2 T ws" "\<forall>k. pool_page p2 k = pool_page p1 k \<and> pool_id p2 k = pool_id p1 k"
    by (rule run_ok_release [OF i1(1)]) blast
  have "access_page_handler k p = Some (p2, True)" using p1 p2(1) by (simp add: access_page_handler_def)
  moreover have "pool_page p2 k' = pool_page p k'" for k' using p2(3) [THEN spec, of k'] i1(2) [of k'] by simp
  ultimately show thesis using that p2(2) by blast
qed

lemma access_handler_None:
  assumes i: "run_ok cap p T ws" and k: "pool_entry p k = None"
  shows "access_page_handler k p = None"
proof -
  obtain R L U where r: "running cap R L U p T" by (rule run_okE [OF i])
  then show ?thesis using access_begin_miss [OF runningD(1) [OF r] k] by (simp add: access_page_handler_def release_def sharded_Release_def)
qed

section \<open>The hash table as a map\<close>

definition table_view :: "LRUCache \<Rightarrow> KeyType \<times> u32 \<rightharpoonup> addr" where
  "table_view c i = Option.bind (table_Lookup c (fst i) (snd i)) (\<lambda>e. e)"

lemma table_view_iff:
  assumes t: "table_ok (handles c) (c_table c) S" "keyed (handles c) S"
  shows "table_view c i = Some a \<longleftrightarrow> a \<in> S \<and> handle_id (handles c) a = Some i"
proof -
  obtain r where r: "table_Lookup c (fst i) (snd i) = Some r" "case r of None \<Rightarrow> \<forall>a \<in> S. handle_id (handles c) a \<noteq> Some i
    | Some a \<Rightarrow> a \<in> S \<and> handle_id (handles c) a = Some i" using table_Lookup_ok [OF t, of "fst i" "snd i"] unfolding prod.collapse by blast
  have inj: "inj_on (handle_id (handles c)) S" using t(1) by (simp add: table_ok_def)
  show ?thesis
  proof (cases r)
    case None
    then show ?thesis using r by (auto simp: table_view_def)
  next
    case (Some b)
    then have b: "b \<in> S" "handle_id (handles c) b = Some i" using r(2) by simp_all
    have "a = b" if "a \<in> S" "handle_id (handles c) a = Some i" using inj_onD [OF inj, of a b] that b by simp
    then show ?thesis using r(1) Some b by (auto simp: table_view_def)
  qed
qed

lemma table_view_eq:
  assumes "\<And>a. table_view c' i = Some a \<longleftrightarrow> x = Some a"
  shows "table_view c' i = x"
  using assms by (cases x; cases "table_view c' i") auto

lemma rechained_keyed:
  assumes "rechained A hp hp'" "keyed hp S"
  shows "keyed hp' S"
  unfolding keyed_def
proof
  fix a assume "a \<in> S"
  then obtain h where "hp a = Some h" "h_next h \<noteq> Some a" using assms(2) unfolding keyed_def by blast
  then show "\<exists>h. hp' a = Some h \<and> h_next h \<noteq> Some a" using unchained_eqD(3) [OF rechainedD(2) [OF assms(1), of a]] by (cases "hp' a") auto
qed

lemma keyed_mono: "keyed hp S \<Longrightarrow> S' \<subseteq> S \<Longrightarrow> keyed hp S'"
  unfolding keyed_def by blast

lemma table_Insert_view:
  assumes t: "table_ok (handles c) (c_table c) S" "keyed (handles c) S" and a: "a \<notin> S" "handles c a = Some h" "h_next h \<noteq> Some a"
    and small: "card S < 2 ^ 31" and i: "handle_id (handles c) a = Some i"
  shows "\<exists>c'. table_Insert a c = Some (c', table_view c i) \<and> table_view c' = (table_view c)(i \<mapsto> a)"
proof -
  obtain hp u r where r: "table_Insert a c = Some (c\<lparr>handles := hp, c_table := u\<rparr>, r)" "rechained (insert a S) (handles c) hp"
    "case r of None \<Rightarrow> (\<forall>x \<in> S. handle_id (handles c) x \<noteq> handle_id (handles c) a) \<and> table_ok hp u (insert a S)
     | Some b \<Rightarrow> b \<in> S \<and> handle_id (handles c) b = handle_id (handles c) a \<and> table_ok hp u (insert a (S - {b}))"
    using table_Insert_ok [OF t a small] by blast
  let ?c = "c\<lparr>handles := hp, c_table := u\<rparr>" and ?S = "insert a (S - {b. r = Some b})"
  note old = table_view_iff [OF t]
  have rv: "table_view c i = r"
  proof (cases r)
    case None
    then show ?thesis using r(3) i old [of i] by (cases "table_view c i") auto
  next
    case (Some b)
    then show ?thesis using r(3) i old [of i b] by simp
  qed
  have S: "table_ok hp u ?S" using r(3) by (cases r) auto
  have "keyed (handles c) (insert a S)" using t(2) a(2,3) by (simp add: keyed_def)
  then have "keyed hp ?S" by (rule keyed_mono [OF rechained_keyed [OF r(2)]]) auto
  then have new: "table_view ?c j = Some x \<longleftrightarrow> x \<in> ?S \<and> handle_id (handles c) x = Some j" for j x
    using table_view_iff [of ?c ?S j x] S rechainedD(4) [OF r(2)] by simp
  have "table_view ?c j = ((table_view c)(i \<mapsto> a)) j" for j
  proof (rule table_view_eq)
    fix x
    show "table_view ?c j = Some x \<longleftrightarrow> ((table_view c)(i \<mapsto> a)) j = Some x"
      using new [of j x] old [of j x] old [of i x] rv i a(1) by (cases "j = i"; cases "x = a") auto
  qed
  then show ?thesis using r(1) rv by (intro exI [of _ ?c]) auto
qed

lemma table_Remove_view:
  assumes t: "table_ok (handles c) (c_table c) S" "keyed (handles c) S"
  shows "\<exists>c'. table_Remove k hash c = Some (c', table_view c (k, hash)) \<and> table_view c' = (table_view c)((k, hash) := None)"
proof (cases "table_view c (k, hash)")
  case None
  then have "\<forall>a \<in> S. handle_id (handles c) a \<noteq> Some (k, hash)" using table_view_iff [OF t, of "(k, hash)"] by auto
  then have "table_Remove k hash c = Some (c, None)" by (rule table_Remove_missing [OF t])
  then show ?thesis using None by auto
next
  case (Some b)
  note old = table_view_iff [OF t]
  have b: "b \<in> S" "handle_id (handles c) b = Some (k, hash)" using Some old by simp_all
  obtain hp u where r: "table_Remove k hash c = Some (c\<lparr>handles := hp, c_table := u\<rparr>, Some b)"
    "rechained (S - {b}) (handles c) hp" "table_ok hp u (S - {b})" by (rule table_Remove_ok [OF t b])
  let ?c = "c\<lparr>handles := hp, c_table := u\<rparr>"
  have "keyed hp (S - {b})" by (rule keyed_mono [OF rechained_keyed [OF r(2) t(2)]]) auto
  then have new: "table_view ?c j = Some x \<longleftrightarrow> x \<in> S - {b} \<and> handle_id (handles c) x = Some j" for j x
    using table_view_iff [of ?c "S - {b}" j x] r(3) rechainedD(4) [OF r(2)] by simp
  have "table_view ?c j = ((table_view c)((k, hash) := None)) j" for j
  proof (rule table_view_eq)
    fix x
    show "table_view ?c j = Some x \<longleftrightarrow> ((table_view c)((k, hash) := None)) j = Some x"
      using new [of j x] old [of j x] old [of "(k, hash)" x] Some b(2) by (cases "j = (k, hash)"; cases "x = b") auto
  qed
  then show ?thesis using r(1) Some by (intro exI [of _ ?c]) auto
qed

section \<open>The reply to \<open>sync_pat\<close>\<close>

lemma ofs_less:
  assumes "pa_size a < 2 ^ 63" "unat ofs \<le> unat (pa_size a)" "i < 4096"
  shows "ofs + of_nat i < pa_size a \<longleftrightarrow> i < unat (pa_size a) - unat ofs" "unat (ofs + of_nat i) = unat ofs + i"
proof -
  have "unat (pa_size a) < 2 ^ 63" using assms(1) by (simp add: word_less_nat_alt)
  then show u: "unat (ofs + of_nat i) = unat ofs + i" using assms(2,3) by (simp add: unat_word_ariths unat_of_nat take_bit_eq_mod)
  show "ofs + of_nat i < pa_size a \<longleftrightarrow> i < unat (pa_size a) - unat ofs" unfolding word_less_nat_alt u by auto
qed

lemma arr_get_nat: "n < length xs \<Longrightarrow> arr_get xs (int n) = Some (xs ! n)"
  by simp

lemma copy_ids_fits:
  assumes a: "pa_size a < 2 ^ 63" "unat ofs \<le> unat (pa_size a)" "length (pida_buf a) = unat (pa_size a)"
    and n: "n = unat (pa_size a) - unat ofs" "n \<le> 256" "length res = 256"
  shows "i \<le> n \<Longrightarrow> copy_ids ofs a i (take i (drop (unat ofs) (pida_buf a)) @ drop i res) = Some (take n (drop (unat ofs) (pida_buf a)) @ drop n res)"
proof (induction "n - i" arbitrary: i)
  case 0
  then have "i = n" by simp
  then show ?case using ofs_less [OF a(1,2), of n] n by (subst copy_ids.simps) simp
next
  case (Suc d)
  then have i: "i < n" by simp
  let ?ids = "drop (unat ofs) (pida_buf a)"
  have c: "ofs + of_nat i < pa_size a" "unat (ofs + of_nat i) = unat ofs + i" using ofs_less [OF a(1,2), of i] i n by simp_all
  have len: "length (take i ?ids) = i" using i n(1) a(2,3) by simp
  have "unat (ofs + of_nat i) < length (pida_buf a)" unfolding c(2) a(3) using i n(1) by simp
  then have "arr_get (pida_buf a) (int (unat (ofs + of_nat i))) = Some (pida_buf a ! unat (ofs + of_nat i))" by (rule arr_get_nat)
  then have k: "arr_get (pida_buf a) (int (unat (ofs + of_nat i))) = Some (?ids ! i)" unfolding c(2) using a(2,3) by simp
  have "arr_upd (take i ?ids @ drop i res) (int i) (\<lambda>_. ?ids ! i) = Some ((take i ?ids @ drop i res)[i := ?ids ! i])"
    using i n(2,3) len by simp
  moreover have "(take i ?ids @ drop i res)[i := ?ids ! i] = take (Suc i) ?ids @ drop (Suc i) res"
    using i n a(3) len by (simp add: list_update_append take_Suc_conv_app_nth Cons_nth_drop_Suc [symmetric, of i res])
  ultimately have "copy_ids ofs a i (take i ?ids @ drop i res) = copy_ids ofs a (i + 1) (take (Suc i) ?ids @ drop (Suc i) res)"
    using c k i n(2) by (subst copy_ids.simps) simp
  also have "\<dots> = Some (take n ?ids @ drop n res)" using Suc.hyps(1) [of "Suc i"] Suc.hyps(2) i by simp
  finally show ?case .
qed

lemma copy_ids_over:
  assumes a: "pa_size a < 2 ^ 63" "unat ofs \<le> unat (pa_size a)" "256 < unat (pa_size a) - unat ofs"
  shows "i \<le> 256 \<Longrightarrow> length res = 256 \<Longrightarrow> copy_ids ofs a i res = None"
proof (induction "256 - i" arbitrary: i res)
  case 0
  then have i: "i = 256" by simp
  then show ?case using ofs_less(1) [OF a(1,2), of i] a(3) 0 by (subst copy_ids.simps) (simp add: arr_upd_def)
next
  case (Suc d)
  then have i: "i < 256" by simp
  have "copy_ids ofs a (i + 1) res' = None" if "length res' = 256" for res' using Suc.hyps(1) [of "i + 1" res'] Suc.hyps(2) i that by simp
  then show ?case using i Suc.prems ofs_less(1) [OF a(1,2), of i] a(3)
    by (subst copy_ids.simps) (simp add: arr_upd_def split: bind_splits)
qed

end
