(* ===== verification/PoolProps.thy ===== *)
theory PoolProps
  imports PoolClient
begin

text \<open>
  The properties of the memory pool and of its page cache.
\<close>

section \<open>Lemmas of the properties\<close>

lemma run_flush_handler:
  assumes "pool_run cap threads p T ws" "size T < threads" "fresh_handle e p" "flush_page_handler e k data p = Some (p', b)"
  shows "pool_run cap threads p' T (ws @ [(k, data)])"
proof -
  obtain p1 a p2 where s: "flush_begin e k p = Some (p1, a)" "flush_write a k data p1 = Some p2" "release (Some a) p2 = Some p'"
    using assms(4) by (auto simp: flush_page_handler_def split: bind_splits)
  show ?thesis by (rule run_release [OF run_write [OF run_flush [OF assms(1-3) s(1)] s(2)] s(3)])
qed

lemma entry_page:
  assumes i: "run_ok cap p T ws" and k: "pool_entry p k \<noteq> None"
  shows "\<exists>m page. pool_slot p k = Some m \<and> page_at p m = Some page \<and> m \<in> dom (metas p) - set (freelist p)"
proof -
  obtain R L U where r: "running cap R L U p T" by (rule run_okE [OF i])
  note p = runningD(1) [OF r]
  obtain a where a: "entry_of L U (lru p) k a" using k pool_entry_None [OF p, of k] by auto
  obtain m meta where m: "metas p m = Some meta" "pool_slot p k = Some m" "m \<notin> set (freelist p)" by (rule entry_buffer [OF p a]) blast
  then show ?thesis using at_slot(1) [OF pool_okD(2) [OF p] m(1)] by blast
qed

lemma no_page_no_entry: "run_ok cap p T ws \<Longrightarrow> pool_page p k = None \<longleftrightarrow> pool_entry p k = None"
  using entry_page [of cap p T ws k] by (cases "pool_entry p k") (auto simp: pool_page_def pool_slot_def)

lemma shard_finite:
  assumes o: "one_shard cap i R L U c"
  shows "finite (dom (handles c))"
proof (rule finite_subset)
  note D = lists_okD [OF shard_okD(1) [OF cache_okD(1) [OF one_shardD(1) [OF o]]]]
  show "dom (handles c) \<subseteq> {lru_head c, in_use_head c} \<union> set L \<union> set U"
  proof
    fix a assume "a \<in> dom (handles c)"
    then obtain h where h: "handles c a = Some h" by blast
    show "a \<in> {lru_head c, in_use_head c} \<union> set L \<union> set U"
      using D(4) [OF h] one_shardD(3) [OF o, of a] by (cases "a = lru_head c \<or> a = in_use_head c") (auto simp: handle_ok_def)
  qed
qed simp

text \<open>There is always a free address.\<close>

lemma fresh_exists:
  assumes p: "pool_ok cap R L U p"
  shows "\<exists>e. fresh_handle e p"
proof -
  have "finite (dom (handles c))" if "c \<in> set (shards (lru p))" for c
    using that shard_finite [OF pool_okD(4) [OF p]] shards_okD(1) [OF pool_okD(3) [OF p]] by (auto simp: in_set_conv_nth)
  then have "finite (\<Union>c \<in> set (shards (lru p)). dom (handles c))" by blast
  from ex_new_if_finite [OF infinite_UNIV_nat this] show ?thesis unfolding fresh_handle_def by blast
qed

section \<open>A small pool\<close>

definition demo_sentinels :: "nat \<Rightarrow> addr \<times> addr" where
  "demo_sentinels i = (2 * i, 2 * i + 1)"

definition demo_key :: "u64 \<Rightarrow> u32 \<Rightarrow> key_image" where
  "demo_key b pad = \<lparr>the_key = \<lparr>SpcID = 1663, DbID = 5, RelID = 7, ForkNum = 0, BlkNum = b\<rparr>, padding = pad\<rparr>"

definition demo_array :: page_array where
  "demo_array = \<lparr>pa_mr = 0, pida_mr = 1, pa_buf = replicate 1000 [], pida_buf = replicate 1000 (demo_key 0 0), pa_size = 0\<rparr>"

lemma demo_sentinels_ok: "sentinels_ok demo_sentinels"
  unfolding sentinels_ok_def demo_sentinels_def by auto

lemma demo_sizes: "sizes_ok 1000 10"
  by (simp add: sizes_ok_def)

lemma demo_start: "\<exists>p. pool_run 1000 10 p {#} [] \<and> pool_ok 1000 (\<lambda>_ _. 0) (\<lambda>_. []) (\<lambda>_. []) p"
proof -
  have h: "(1000 :: u64) \<le> 1000" "(1000 :: u64) < 2 ^ 32" "distinct [0..<1000]" "length [0..<1000] = unat (1000 :: u64)"
    "length (pa_buf demo_array) = unat (1000 :: u64)" "length (pida_buf demo_array) = unat (1000 :: u64)" by (simp_all add: demo_array_def)
  obtain p where p: "allocate_page_array demo_sentinels [0..<1000] demo_array 1000 (fresh_manager undefined) = Some p"
    "pool_ok 1000 (\<lambda>_ _. 0) (\<lambda>_. []) (\<lambda>_. []) p" by (rule allocate_ok [OF demo_sentinels_ok h]) blast
  have "pool_run 1000 10 p {#} []" by (rule run_start [OF demo_sentinels_ok h(3-6) p(1)])
  then show ?thesis using p(2) by blast
qed

lemma demo_flush: "\<exists>p e p'. pool_run 1000 10 p {#} [] \<and> fresh_handle e p \<and> (\<forall>k. pool_entry p k = None) \<and> can_enter p k \<and>
    flush_page_handler e k data p = Some (p', True) \<and> pool_run 1000 10 p' {#} [(k, data)] \<and> pool_page p' k = Some data"
proof -
  obtain p where p: "pool_run 1000 10 p {#} []" "pool_ok 1000 (\<lambda>_ _. 0) (\<lambda>_. []) (\<lambda>_. []) p" using demo_start by blast
  obtain e where e: "fresh_handle e p" using fresh_exists [OF p(2)] by blast
  have none: "pool_entry p k = None" for k using pool_entry_None [OF p(2), of k] by (simp add: entry_of_def)
  have "0 < (1000 + Shard (HashKeyType k)) div kNumShards" by (simp add: div_greater_zero_iff)
  then have can: "can_enter p k" using can_enter_iff [OF p(2) refl, of k] by (simp add: has_room_def)
  obtain p' where p': "flush_page_handler e k data p = Some (p', True)" "pool_page p' k = Some data"
    by (rule flush_handler_ok [OF run_invariant [OF p(1) demo_sizes] e, of k data]) (use can in simp_all)
  have "pool_run 1000 10 p' {#} ([] @ [(k, data)])" by (rule run_flush_handler [OF p(1) _ e p'(1)]) simp
  then show ?thesis using p e none can p' by auto
qed

lemma demo_padding: "HashKeyType (demo_key 3 0) \<noteq> HashKeyType (demo_key 3 1)" "the_key (demo_key 3 0) = the_key (demo_key 3 1)"
  by code_simp+

section \<open>The pages that the pool serves\<close>

text \<open>C32: however the handlers of the threads interleave, a page of the pool that no handler is about to write
  is the page that was written last under its key, and the id beside it in the page id array is that of the key.
\<close>

theorem pool_serves_last_write:
  assumes "pool_run cap threads p T ws" "sizes_ok cap threads" "\<not> pending T k" "pool_entry p k \<noteq> None"
  shows "\<exists>data k'. last_write ws k = Some data \<and> pool_page p k = Some data \<and> pool_id p k = Some k' \<and> key_id k' = key_id k"
proof -
  note i = run_invariant [OF assms(1,2)]
  have "pool_slot p k \<noteq> None" using entry_page [OF i assms(4)] by auto
  moreover have "current p T ws" by (rule run_okE [OF i])
  ultimately have "pool_page p k \<noteq> None" "pool_page p k = last_write ws k" "map_option key_id (pool_id p k) = Some (key_id k)"
    using assms(3) unfolding current_def by auto
  then show ?thesis by auto
qed

theorem pool_serves_last_write_witness:
  "\<exists>p. pool_run 1000 10 p {#} [(demo_key 3 0, [1, 2])] \<and> \<not> pending {#} (demo_key 3 0) \<and> pool_entry p (demo_key 3 0) \<noteq> None \<and>
     (\<exists>data k'. last_write [(demo_key 3 0, [1, 2])] (demo_key 3 0) = Some data \<and> pool_page p (demo_key 3 0) = Some data \<and>
        pool_id p (demo_key 3 0) = Some k' \<and> key_id k' = key_id (demo_key 3 0))"
proof -
  obtain p where p: "pool_run 1000 10 p {#} [(demo_key 3 0, [1, 2])]" "pool_page p (demo_key 3 0) = Some [1, 2]"
    using demo_flush [of "demo_key 3 0" "[1, 2]"] by blast
  have e: "pool_entry p (demo_key 3 0) \<noteq> None" using p(2) no_page_no_entry [OF run_invariant [OF p(1) demo_sizes], of "demo_key 3 0"] by simp
  show ?thesis using p(1) e pool_serves_last_write [OF p(1) demo_sizes pending_add(3) e] pending_add(3) by blast
qed

text \<open>C33: a handler that has got its handle finishes: whatever the other handlers have done, its handle and its
  buffer are still there, writing the page succeeds, and so does giving the handle back.
\<close>

theorem pool_handlers_finish:
  assumes "pool_run cap threads p T ws" "sizes_ok cap threads" "t \<in># T"
  shows "case t of Writing a k data \<Rightarrow> (\<exists>p' p''. flush_write a k data p = Some p' \<and> release (Some a) p' = Some p'')
    | Releasing a \<Rightarrow> (\<exists>p'. release (Some a) p = Some p')"
proof -
  obtain T' where T: "T = add_mset t T'" using assms(3) by (meson mset_add)
  note i = run_invariant [OF assms(1,2), unfolded T]
  show ?thesis
  proof (cases t)
    case (Writing a k data)
    obtain p' where p': "flush_write a k data p = Some p'" "run_ok cap p' (add_mset (Releasing a) T') (ws @ [(k, data)])"
      by (rule run_ok_write [OF i [unfolded Writing]]) blast
    obtain p'' where "release (Some a) p' = Some p''" by (rule run_ok_release [OF p'(2)])
    then show ?thesis using Writing p'(1) by simp
  next
    case (Releasing a)
    obtain p' where "release (Some a) p = Some p'" by (rule run_ok_release [OF i [unfolded Releasing]])
    then show ?thesis using Releasing by simp
  qed
qed

lemma demo_running: "\<exists>p a. pool_run 1000 10 p {#Writing a (demo_key 3 0) [1, 2]#} []"
proof -
  obtain p e p' where p: "pool_run 1000 10 p {#} []" "fresh_handle e p" "flush_page_handler e (demo_key 3 0) [1, 2] p = Some (p', True)"
    using demo_flush [of "demo_key 3 0" "[1, 2]"] by blast
  obtain p1 a where "flush_begin e (demo_key 3 0) p = Some (p1, a)" using p(3) by (auto simp: flush_page_handler_def split: bind_splits)
  from run_flush [OF p(1) _ p(2) this, of "[1, 2]"] show ?thesis by auto
qed

theorem pool_handlers_finish_witness:
  "\<exists>p a p' p''. pool_run 1000 10 p {#Writing a (demo_key 3 0) [1, 2]#} [] \<and> flush_write a (demo_key 3 0) [1, 2] p = Some p' \<and>
     release (Some a) p' = Some p''"
proof -
  obtain p a where p: "pool_run 1000 10 p {#Writing a (demo_key 3 0) [1, 2]#} []" using demo_running by blast
  have "Writing a (demo_key 3 0) [1, 2] \<in># {#Writing a (demo_key 3 0) [1, 2]#}" by simp
  from pool_handlers_finish [OF p demo_sizes this] show ?thesis using p by auto
qed

text \<open>C34: a flush request is answered exactly when its page is in the pool, its shard has room, or a page of the
  shard is unused. Then the page can be read back, and every other page is kept or, for room, dropped. When all
  pages of a full shard are in use, an assertion fails.
\<close>

theorem flush_page_handled:
  assumes "pool_run cap threads p T ws" "sizes_ok cap threads" "size T < threads" "fresh_handle e p"
  shows "if pool_entry p k \<noteq> None \<or> can_enter p k
    then \<exists>p'. flush_page_handler e k data p = Some (p', True) \<and> pool_run cap threads p' T (ws @ [(k, data)]) \<and>
      pool_page p' k = Some data \<and> pool_id p' k = Some k \<and>
      (\<forall>k'. key_id k' \<noteq> key_id k \<longrightarrow> pool_page p' k' = pool_page p k' \<or> pool_page p' k' = None)
    else flush_page_handler e k data p = None"
proof -
  note i = run_invariant [OF assms(1,2)]
  have n: "size T + 2 < 2 ^ 32" using assms(2,3) by (simp add: sizes_ok_def)
  show ?thesis
  proof (cases "pool_entry p k \<noteq> None \<or> can_enter p k")
    case True
    obtain p' where p': "flush_page_handler e k data p = Some (p', True)" "pool_page p' k = Some data" "pool_id p' k = Some k"
      "\<forall>k'. key_id k' \<noteq> key_id k \<longrightarrow> pool_page p' k' = pool_page p k' \<or> pool_page p' k' = None"
      by (rule flush_handler_ok [OF i assms(4) n True]) blast
    then show ?thesis unfolding if_P [OF True] using run_flush_handler [OF assms(1,3,4) p'(1)] by blast
  next
    case False
    show ?thesis unfolding if_not_P [OF False] by (rule flush_handler_None [OF i assms(4) n False])
  qed
qed

theorem flush_page_handled_witness:
  "\<exists>p e p'. pool_run 1000 10 p {#} [] \<and> fresh_handle e p \<and> flush_page_handler e (demo_key 3 0) [1, 2] p = Some (p', True) \<and>
     pool_page p' (demo_key 3 0) = Some [1, 2]"
proof -
  obtain p e where p: "pool_run 1000 10 p {#} []" "fresh_handle e p" "can_enter p (demo_key 3 0)"
    using demo_flush [of "demo_key 3 0" "[1, 2]"] by blast
  have "size {#} < (10 :: nat)" by simp
  from flush_page_handled [OF p(1) demo_sizes this p(2), of "demo_key 3 0" "[1, 2]"] show ?thesis using p by auto
qed

section \<open>Buffers and eviction\<close>

text \<open>C35: the pool is well formed in every state: the handle of an entry points to a \<open>PageMeta\<close> object whose addresses lie
  within the page arrays and that is not on the free list, no two keys share one, and the free list holds
  every object at most once. So no handler copies a page through a null pointer or over another page.
\<close>

theorem pool_buffers_well_formed:
  assumes "pool_run cap threads p T ws" "sizes_ok cap threads"
  shows "(pool_entry p k \<noteq> None \<longrightarrow>
      (\<exists>m page. pool_slot p k = Some m \<and> page_at p m = Some page \<and> m \<in> dom (metas p) - set (freelist p))) \<and>
    (pool_slot p k = Some m \<longrightarrow> pool_slot p k' = Some m \<longrightarrow> key_id k = key_id k') \<and>
    distinct (freelist p) \<and> set (freelist p) \<subseteq> dom (metas p)"
proof -
  note i = run_invariant [OF assms]
  obtain R L U where r: "running cap R L U p T" by (rule run_okE [OF i])
  note p = runningD(1) [OF r]
  have "distinct (freelist p)" "set (freelist p) \<subseteq> dom (metas p)" using cache_poolD(2) [OF pool_okD(1) [OF p]] unfolding owned_def by blast+
  then show ?thesis using entry_page [OF i, of k] slot_key [OF p, of k m k'] by blast
qed

theorem pool_buffers_well_formed_witness:
  "\<exists>p m. pool_run 1000 10 p {#} [(demo_key 3 0, [1, 2])] \<and> pool_slot p (demo_key 3 0) = Some m \<and> m \<notin> set (freelist p) \<and> distinct (freelist p)"
proof -
  obtain p where p: "pool_run 1000 10 p {#} [(demo_key 3 0, [1, 2])]" "pool_page p (demo_key 3 0) = Some [1, 2]"
    using demo_flush [of "demo_key 3 0" "[1, 2]"] by blast
  have e: "pool_entry p (demo_key 3 0) \<noteq> None" using p(2) no_page_no_entry [OF run_invariant [OF p(1) demo_sizes], of "demo_key 3 0"] by simp
  from pool_buffers_well_formed [OF p(1) demo_sizes, of "demo_key 3 0"] show ?thesis using p(1) e by blast
qed

text \<open>C36: entering a page into a full shard evicts the entry at the front of the list of unused handles, which is the
  one that has been unused for longest: its handle is freed, its buffer goes to the new page, and all
  other handles keep what they hold. \<open>U\<close> are the handles in use, none of which is touched.
\<close>

theorem full_shard_evicts_oldest:
  assumes "cache_ok R (a # L) U c" "handles c a = Some old" "handles c e = None"
    and "\<forall>b \<in> set (a # L) \<union> set U. handle_id (handles c) b \<noteq> Some (k, hash)" "length (a # L) + length U = unat (c_capacity c)"
  shows "\<exists>c'. LookupInsert e k hash None 1 deleter c fl = Some (c', fl, e) \<and> cache_ok (R(e := 1)) L (U @ [e]) c' \<and>
    handles c' a = None \<and> map_option core (handles c' e) = Some (h_value old, k, hash, 1, deleter) \<and>
    (\<forall>b. b \<noteq> a \<longrightarrow> b \<noteq> e \<longrightarrow> map_option core (handles c' b) = map_option core (handles c b))"
proof -
  have core: "map_option core (handles c a) = Some (h_value old, h_page_id old, h_hash old, h_charge old, h_deleter old)"
    using assms(2) by (simp add: core_def)
  obtain c' where c': "LookupInsert e k hash None 1 deleter c fl = Some (c', fl, e)" "cache_ok (R(e := 1)) L (U @ [e]) c'" "keeps {a, e} c c'"
    "map_option core (handles c' e) = Some (h_value old, k, hash, 1, deleter)" "handles c' a = None"
    by (rule LookupInsert_evict [OF assms(1,3,4,5) core])
  have "map_option core (handles c' b) = map_option core (handles c b)" if "b \<noteq> a" "b \<noteq> e" for b
    by (rule keepsD(4) [OF c'(3)]) (simp add: that)
  then show ?thesis using c' by blast
qed

abbreviation demo_id :: "u64 \<Rightarrow> KeyType" where
  "demo_id b \<equiv> the_key (demo_key b 0)"

text \<open>A shard of one page, which is not in use.\<close>

lemma demo_shard: "\<exists>c old. cache_ok ((\<lambda>_. 0)(2 := 0)) [2] [] c \<and> handles c 2 = Some old \<and> core old = (Some 7, demo_id 3, 0, 1, None) \<and>
  handles c 4 = None \<and> c_capacity c = 1"
proof -
  obtain c0 where c0: "LRUCache_new 0 1 = Some c0" "cache_ok (\<lambda>_. 0) [] [] (SetCapacity 1 c0)" "dom (handles c0) = {0, 1}"
    by (rule LRUCache_new_ok [of 0 1 1]) (simp, simp, simp, blast)
  let ?c = "SetCapacity 1 c0"
  have d: "dom (handles ?c) = {0, 1}" using c0(3) by (simp add: SetCapacity_def)
  then have "2 \<notin> dom (handles ?c)" by simp
  then have free: "handles ?c 2 = None" by blast
  have new: "\<forall>b \<in> set [] \<union> set []. handle_id (handles ?c) b \<noteq> Some (demo_id 3, 0)" and room: "length [] + length [] < unat (c_capacity ?c)"
    by (simp_all add: SetCapacity_def)
  obtain c1 where c1: "LookupInsert 2 (demo_id 3) 0 None 1 None ?c [7] = Some (c1, snd (pop_front [7]), 2)"
    "cache_ok ((\<lambda>_. 0)(2 := 1)) [] ([] @ [2]) c1" "keeps {2} ?c c1" "map_option core (handles c1 2) = Some (fst (pop_front [7]), demo_id 3, 0, 1, None)"
    by (rule LookupInsert_room [OF c0(2) free new room])
  let ?R = "(\<lambda>_. 0)(2 := 1) :: addr \<Rightarrow> nat"
  have held: "0 < ?R 2" by simp
  obtain c2 where c2: "Release 2 c1 = Some c2" "cache_ok (?R(2 := ?R 2 - 1)) (unused_after ?R 2 [] ([] @ [2])) (used_after ?R 2 ([] @ [2])) c2"
    "keeps (if (2 :: addr) \<notin> set ([] @ [2]) \<and> ?R 2 = 1 then {2} else {}) c1 c2" by (rule Release_ok [OF c1(2) held])
  have k: "keeps {} c1 c2" using c2(3) by simp
  have "dom (handles c2) \<subseteq> dom (handles c1)" using keeps_dom [OF k] by simp
  moreover have "dom (handles c1) \<subseteq> {2, 0, 1}" using keeps_dom [OF c1(3)] unfolding d by simp
  ultimately have "4 \<notin> dom (handles c2)" by (intro contra_subsetD [of "dom (handles c2)" "{2, 0, 1}" 4]) simp_all
  then have free': "handles c2 4 = None" by blast
  have "map_option core (handles c2 2) = Some (Some 7, demo_id 3, 0, 1, None)" using keepsD(4) [OF k, of 2] c1(4) by simp
  then obtain old where "handles c2 2 = Some old" "core old = (Some 7, demo_id 3, 0, 1, None)" by (cases "handles c2 2") simp_all
  moreover have "c_capacity c2 = 1" using keepsD(1) [OF k] keepsD(1) [OF c1(3)] by (simp add: SetCapacity_def)
  moreover have "cache_ok ((\<lambda>_. 0)(2 := 0)) [2] [] c2" using c2(2) by simp
  ultimately show ?thesis using free' by blast
qed

theorem full_shard_evicts_oldest_witness:
  "\<exists>c c'. handles c 2 \<noteq> None \<and> handles c 4 = None \<and> LookupInsert 4 (demo_id 5) 0 None 1 None c [] = Some (c', [], 4) \<and>
     handles c' 2 = None \<and> map_option core (handles c' 4) = Some (Some 7, demo_id 5, 0, 1, None)"
proof -
  obtain c old where c: "cache_ok ((\<lambda>_. 0)(2 := 0)) [2] [] c" "handles c 2 = Some old" "core old = (Some 7, demo_id 3, 0, 1, None)"
    "handles c 4 = None" "c_capacity c = 1" using demo_shard by blast
  have id: "\<forall>b \<in> set [2] \<union> set []. handle_id (handles c) b \<noteq> Some (demo_id 5, 0)"
    using c(2,3) by (auto simp: handle_id_def core_def demo_key_def)
  have "length [2 :: nat] + length ([] :: nat list) = unat (c_capacity c)" using c(5) by simp
  from full_shard_evicts_oldest [OF c(1,2,4) id this, of None "[]"] show ?thesis using c(2,3,4) by (auto simp: core_def)
qed

section \<open>The hash table\<close>

text \<open>C37: the hash table of a shard is a map from keys and hashes to handles. Inserting returns the handle that the key
  had and updates the map at the key only, also when the table grows; removing returns the handle and deletes the key only.
\<close>

theorem handle_table_is_map:
  assumes "table_ok (handles c) (c_table c) S" "keyed (handles c) S" "a \<notin> S" "handles c a = Some h" "h_next h \<noteq> Some a" "card S < 2 ^ 31"
  shows "(\<exists>c'. table_Insert a c = Some (c', table_view c (h_page_id h, h_hash h)) \<and> table_view c' = (table_view c)((h_page_id h, h_hash h) \<mapsto> a)) \<and>
    (\<exists>c'. table_Remove k hash c = Some (c', table_view c (k, hash)) \<and> table_view c' = (table_view c)((k, hash) := None))"
proof -
  have "handle_id (handles c) a = Some (h_page_id h, h_hash h)" using assms(4) by (simp add: handle_id_def)
  from table_Insert_view [OF assms this] table_Remove_view [OF assms(1,2)] show ?thesis by blast
qed

theorem handle_table_is_map_witness:
  "\<exists>c c'. handles c 5 = Some (new_handle 5 (demo_id 3) 9 None 1 None) \<and> table_Insert 5 c = Some (c', table_view c (demo_id 3, 9)) \<and>
     table_view c' (demo_id 3, 9) = Some 5"
proof -
  obtain c0 where c0: "cache_ok (\<lambda>_. 0) [] [] (SetCapacity 1 c0)" by (rule LRUCache_new_ok [of 0 1 1]) (simp, simp, simp, blast)
  have t0: "table_ok (handles c0) (c_table c0) {}" using shard_okD(2) [OF cache_okD(1) [OF c0]] by (simp add: SetCapacity_def)
  let ?h = "new_handle 5 (demo_id 3) 9 None 1 None" and ?c = "c0\<lparr>handles := (handles c0)(5 \<mapsto> new_handle 5 (demo_id 3) 9 None 1 None)\<rparr>"
  have t: "table_ok (handles ?c) (c_table ?c) {}" using table_frame [OF t0, of "handles ?c"] by simp
  have h: "handles ?c 5 = Some ?h" "h_next ?h \<noteq> Some 5" by (simp_all add: new_handle_def)
  have key: "keyed (handles ?c) {}" "5 \<notin> ({} :: addr set)" "card ({} :: addr set) < 2 ^ 31" by (simp_all add: keyed_def)
  have id: "h_page_id ?h = demo_id 3" "h_hash ?h = 9" by (simp_all add: new_handle_def)
  obtain c' where "table_Insert 5 ?c = Some (c', table_view ?c (demo_id 3, 9))" "table_view c' = (table_view ?c)((demo_id 3, 9) \<mapsto> 5)"
    using handle_table_is_map [OF t key(1,2) h key(3), of "demo_id 3" 9] unfolding id by blast
  then show ?thesis using h(1) by (intro exI [of _ ?c] exI [of _ c']) simp
qed

section \<open>Requests that fail\<close>

text \<open>C38: an access request for a page of the pool succeeds and changes no page. For a page that is not in the pool,
  which the handler does not check, it gives back a null handle, and the server fails.
\<close>

theorem access_page_handled:
  assumes "pool_run cap threads p T ws" "sizes_ok cap threads" "size T < threads"
  shows "if pool_entry p k = None then access_page_handler k p = None
    else \<exists>p'. access_page_handler k p = Some (p', True) \<and> (\<forall>k'. pool_page p' k' = pool_page p k')"
proof -
  note i = run_invariant [OF assms(1,2)]
  have n: "size T + 2 < 2 ^ 32" using assms(2,3) by (simp add: sizes_ok_def)
  show ?thesis
  proof (cases "pool_entry p k = None")
    case True
    then show ?thesis using access_handler_None [OF i True] by simp
  next
    case False
    obtain p' where "access_page_handler k p = Some (p', True)" "\<forall>k'. pool_page p' k' = pool_page p k'"
      by (rule access_handler_ok [OF i n False]) blast
    then show ?thesis using False by auto
  qed
qed

theorem access_page_handled_witness:
  "\<exists>p. pool_run 1000 10 p {#} [] \<and> pool_entry p (demo_key 3 0) = None \<and> access_page_handler (demo_key 3 0) p = None"
proof -
  obtain p where p: "pool_run 1000 10 p {#} []" "\<forall>k. pool_entry p k = None" using demo_flush [of "demo_key 3 0" "[]"] by blast
  have "size {#} < (10 :: nat)" by simp
  from access_page_handled [OF p(1) demo_sizes this, of "demo_key 3 0"] show ?thesis using p by auto
qed

text \<open>C39: the reply to \<open>sync_pat\<close> holds the ids of the page array from the offset on, and what it held before behind them. It
  has room for 256 ids; for an array with more of them behind the offset the handler writes past its end.
\<close>

theorem sync_pat_reply_bound:
  assumes "arr_get (page_arrays p) (int (unat pa_idx)) = Some a" "length (pida_buf a) = unat (pa_size a)" "pa_size a < 2 ^ 63" "length res = 256"
  shows "sync_pat_handler pa_idx pa_ofs res p =
    (let n = unat (pa_size a) - unat pa_ofs in
     if n \<le> 256 then Some (take n (drop (unat pa_ofs) (pida_buf a)) @ drop n res) else None)"
proof (cases "unat pa_ofs \<le> unat (pa_size a)")
  case True
  have "copy_ids pa_ofs a 0 res = (if unat (pa_size a) - unat pa_ofs \<le> 256
      then Some (take (unat (pa_size a) - unat pa_ofs) (drop (unat pa_ofs) (pida_buf a)) @ drop (unat (pa_size a) - unat pa_ofs) res) else None)"
    using copy_ids_fits [OF assms(3) True assms(2) refl _ assms(4), of 0] copy_ids_over [OF assms(3) True, of 0 res] assms(4) by auto
  then show ?thesis using assms(1) by (simp add: sync_pat_handler_def Let_def)
next
  case False
  then have "\<not> pa_ofs < pa_size a" by (simp add: word_less_nat_alt)
  then have "copy_ids pa_ofs a 0 res = Some res" by (subst copy_ids.simps) simp
  then show ?thesis using assms(1,2) False by (simp add: sync_pat_handler_def Let_def)
qed

theorem sync_pat_reply_bound_witness:
  "sync_pat_handler 0 800 (replicate 256 (demo_key 1 0)) ((fresh_manager undefined)\<lparr>page_arrays := [demo_array\<lparr>pa_size := 1000\<rparr>]\<rparr>) =
     Some (replicate 200 (demo_key 0 0) @ replicate 56 (demo_key 1 0)) \<and>
   sync_pat_handler 0 0 (replicate 256 (demo_key 1 0)) ((fresh_manager undefined)\<lparr>page_arrays := [demo_array\<lparr>pa_size := 1000\<rparr>]\<rparr>) = None"
proof -
  let ?p = "(fresh_manager undefined)\<lparr>page_arrays := [demo_array\<lparr>pa_size := 1000\<rparr>]\<rparr>" and ?a = "demo_array\<lparr>pa_size := 1000\<rparr>"
  have h: "arr_get (page_arrays ?p) (int (unat (0 :: u64))) = Some ?a" "length (pida_buf ?a) = unat (pa_size ?a)" "pa_size ?a < 2 ^ 63"
    "length (replicate 256 (demo_key 1 0)) = 256" by (simp_all add: demo_array_def)
  show ?thesis unfolding sync_pat_reply_bound [OF h] Let_def by (simp add: demo_array_def)
qed



end
