(* ===== verification/Spec2Isabelle.thy ===== *)
theory Spec2Isabelle
  imports VersionProps PageStore RedoProps WalProps VacuumProps PoolProps
begin

text \<open>
  GroundDB is PostgreSQL 13 with its storage separated from its compute nodes. This development models
  the parts that are GroundDB's own, from the sources under \<open>src\<close>. Paths below are relative to it.

  \<^bold>\<open>The system.\<close> A compute node sends its WAL to a storage node and asks it for pages. On the storage node the
  startup process decodes each WAL record and enters its LSN into the page version map, under every page
  that the record changes. A read request for a page at an LSN waits until the index has come that far,
  asks the map which records are missing, and has one of several redo processes apply them to a stored
  version; versions are kept in RocksDB. A background vacuumer replays old records and shortens the chains
  of the map. Relation sizes are cached beside. A memory pool server, on a node of its own, holds pages in a
  sharded cache with buffers that clients read by RDMA.

  \<^bold>\<open>Conventions.\<close> Machine integers are words of their width, structs are records, C memory is a partial
  map from addresses to objects, and the address that an allocation returns is an argument. An operation is a
  function on the state that returns an option: \<open>None\<close> stands for a null or dangling pointer, an index out of
  range, a failed assertion, a PANIC, a lock that is never released, or a loop that does not end. Loops
  that need not end are \<open>partial_function (option)\<close>, without fuel; that they end is proved as the
  existence of a result. The endless loops of servers are the reachable states of step relations, or the
  first \<open>n\<close> rounds for every \<open>n\<close>.

  \<^bold>\<open>Theories.\<close>

  \<^item> \<open>Prelude\<close>: words, C arrays, the heap, reader/writer locks, linked lists in the heap, folds in the option
    monad.
  \<^item> Page version map (\<open>backend/access/logindex/logindex_hashmap.cpp\<close>, \<open>include/access/logindex_hashmap.h\<close>).
    \<open>PageVersionMap\<close> has the structs and every function. \<open>VersionChain\<close> and \<open>VersionAppend\<close> treat the chain of
    a page: searches, replay lists, and the ways it grows. \<open>VersionStore\<close>, \<open>VersionMap\<close> and \<open>VersionDestroy\<close> have
    the invariant of the whole structure, its meaning as a map from keys to chains, and one refinement
    lemma per operation. \<open>VersionIndex\<close> is the contract with the clients as a locale, interpreted on the map.
    \<open>VersionProps\<close>: C1--C11.
  \<^item> Key-value layer (\<open>backend/storage/kvstore/kv_interface.c\<close>). \<open>KvStore\<close> has every function, over RocksDB as a
    parameter whose documented behaviour is the predicate \<open>rocksdb_ok\<close>. \<open>KvLaws\<close>: keys never collide, encodings
    round trip. \<open>PageStore\<close>: the contract as a locale, its interpretation, and C12--C15.
  \<^item> Redo processes (\<open>backend/tcop/storage_server.c\<close>, \<open>backend/tcop/wal_redo.c\<close>, \<open>backend/libpq/pqformat.c\<close>,
    \<open>include/port/pg_bswap.h\<close>). \<open>RedoWire\<close> has the messages, \<open>RedoProc\<close> the process with its handlers,
    \<open>RedoPool\<close> the server's side. The schedule of the pipe, that is how much each read and write transfers and which
    of them are interrupted, is an argument, and so are the redo routines of PostgreSQL. \<open>RedoLaws\<close> and
    \<open>RedoCalls\<close>: byte order, reassembly of the stream, each call end to end. \<open>RedoProps\<close>: C16--C20.
  \<^item> WAL index (\<open>backend/access/logindex/*_idx.c\<close>, \<open>logindex_func.c\<close>, \<open>polar_logindex.c\<close>,
    \<open>backend/access/transam/xlog.c\<close>). \<open>WalRecord\<close> has decoded records and the visibility-map blocks that are added to
    them, \<open>WalIndex\<close> the save functions of all resource managers, \<open>WalTags\<close> the lists of buffer tags.
    \<open>WalLaws\<close>, \<open>WalProps\<close>: C21--C23.
  \<^item> Storage node (\<open>backend/storage/rpc/rpcserver.cpp\<close>, \<open>backend/storage/rel_cache/*\<close>, \<open>StartupXLOG\<close> in \<open>xlog.c\<close>).
    \<open>RelCache\<close> has the relation sizes, \<open>PageServer\<close> the handlers and the indexing of one record. \<open>ServerLaws\<close> ties the
    version map and the store to the history of the pages. \<open>ServerProps\<close>: the node as a state machine,
    C24--C29.
  \<^item> Vacuumer (\<open>backend/access/logindex/background_hashmap_vacuumer.cpp\<close>). \<open>Vacuumer\<close> has the whole file.
    \<open>VacuumChain\<close>, \<open>VacuumLaws\<close>, \<open>VacuumProps\<close>: C30 and C31. Its rounds are steps of the state machine of the node.
  \<^item> Memory pool (\<open>include/storage/DSMEngine/cache.h\<close>, \<open>backend/storage/DSMEngine/cache.cc\<close>,
    \<open>backend/utils/GroundDB/hash.cc\<close>, \<open>backend/storage/GroundDB/init_server.cc\<close>). \<open>LruCache\<close> has the hash table and
    a shard of the cache, \<open>MemPool\<close> the hash, the shards and the handlers. \<open>LruRing\<close> treats the circular lists,
    \<open>LruTable\<close> the hash table, \<open>LruLaws\<close> the invariant of a shard with the references that clients hold,
    \<open>LruOps\<close> each operation of a shard. \<open>PoolLaws\<close>, \<open>PoolRun\<close> and \<open>PoolSteps\<close> have the invariant of all shards with
    their buffers, \<open>PoolThreads\<close> the handlers on several threads, \<open>PoolClient\<close> the handlers from start to end.
    \<open>PoolProps\<close>: C32--C40.

  \<^bold>\<open>What the properties show.\<close> C1--C11: the version map refines a map from pages to sorted lists of LSNs, hands out exactly
  the records a request needs, never faults in a reachable state, and frees everything at the end. C12--C15: the
  store behaves as three independent maps. C16--C20: the redo protocol returns the page with the
  records applied in order, however the pipe splits the data. C21--C23: a record is entered once under every page
  it refers to. C24--C29: every page that is served is the one on disk with the records up to the requested LSN
  applied, in WAL order; relation sizes cover what was indexed; which waits end. C30, C31: the vacuumer
  loses no record. C32--C40: the pool serves the page written last, no handler loses its handle or
  buffer to another, the oldest unused page makes room, and the table is a map. The properties of kind
  error say exactly which requests make the code fail: C11, C20, C23, C25, C28, C38, C40, and parts of C31, C34
  and C39.

  \<^bold>\<open>Bounds.\<close> Counters are kept at their width, and a theorem that needs a bound states it. A shard of the pool
  holds fewer than \<open>2\<^sup>3\<^sup>1\<close> entries, above which the doubling of the table wraps to 0; \<open>sizes_ok\<close> asks
  for a capacity between 1000, which the code asserts, and \<open>2\<^sup>3\<^sup>2\<close>, and for fewer than \<open>2\<^sup>3\<^sup>1\<close> threads, so that
  32-bit reference counts do not overflow; the server starts with 32768 pages and 10 threads.

  \<^bold>\<open>Not modelled.\<close>

  \<^item> PostgreSQL itself. What the modelled code calls of it (the WAL reader, redo routines, buffer and
    storage managers) is a parameter, with the behaviour that is relied on as hypotheses.
  \<^item> The page redo functions in the \<open>*_idx.c\<close> files: they repeat PostgreSQL's redo routines on one page and work
    on the layout of heap and index pages.
  \<^item> The file, WAL write, and clog handlers of \<open>rpcserver.cpp\<close>, the RPC client and \<open>rpcmd.c\<close>: they pass calls
    on to the file system or to a socket. The stubs are generated by Thrift.
  \<^item> The start of processes, signals, sockets, RDMA and the thread pool: calls of the operating system
    and of the verbs library. What the memory pool gets from them is an argument.
  \<^item> \<open>Insert\<close> of the sharded cache, which nobody calls and which compares in floating point in a debug check
    (\<open>Insert\<close> of a shard is modelled), the log index tables of \<open>polar_logindex.c\<close>, which nobody fills, and the Boost
    version of the relation cache, which is not built.
  \<^item> Interleavings within a locked section: a critical section is one step. Requests of the storage node and
    rounds of the vacuumer are steps as a whole.
\<close>

end
